(* ===== verification/Prelude.thy ===== *)
theory Prelude
  imports Main "HOL-Library.Word"
begin

text \<open>
  Shared vocabulary of the development: the machine types of \<^verbatim>\<open>src/src/basic_type.h\<close>,
  C strings and character arrays, and the generic list lemmas that the component theories use
  through the collections declared here.
\<close>

named_theorems cstr_simps \<open>C strings and character arrays\<close>
named_theorems list_aux \<open>generic facts on lists\<close>

section \<open>Machine types\<close>

type_synonym u8 = "8 word"
type_synonym u32 = "32 word"
type_synonym ul64 = "64 word"
type_synonym s32 = int

abbreviation NUL :: char where "NUL \<equiv> CHR 0x00"

text \<open>The return codes of \<^verbatim>\<open>basic_type.h\<close>: \<^verbatim>\<open>FAILURE\<close> is \<^verbatim>\<open>~0\<close>, that is \<open>-1\<close>.\<close>

definition SUCCESS :: s32 where "SUCCESS = 0"
definition FAILURE :: s32 where "FAILURE = -1"
definition RETRY :: s32 where "RETRY = 1"

lemma return_codes_distinct [simp]:
  "SUCCESS \<noteq> FAILURE" "FAILURE \<noteq> SUCCESS" "RETRY \<noteq> SUCCESS" "SUCCESS \<noteq> RETRY"
  "RETRY \<noteq> FAILURE" "FAILURE \<noteq> RETRY"
  by (simp_all add: SUCCESS_def FAILURE_def RETRY_def)

section \<open>C strings\<close>

text \<open>
  A character array is the list of its cells; the C string it holds is what precedes the first
  \<^verbatim>\<open>'\0'\<close>. A pointer into a buffer is the list of the cells from it to the end of the buffer, so
  that \<open>p < end\<close> is \<open>p \<noteq> []\<close>; \<open>deref\<close> reads \<^verbatim>\<open>*p\<close>, which is \<^verbatim>\<open>'\0'\<close> at the end.
\<close>

definition cstr :: "char list \<Rightarrow> string" where
  "cstr a = takeWhile (\<lambda>c. c \<noteq> NUL) a"

definition deref :: "string \<Rightarrow> char" where
  "deref p = (case p of [] \<Rightarrow> NUL | c # _ \<Rightarrow> c)"

lemma deref_simps [simp]: "deref [] = NUL" "deref (c # p) = c"
  by (simp_all add: deref_def)

lemma deref_not_Nil: "deref p = c \<Longrightarrow> c \<noteq> NUL \<Longrightarrow> p = c # tl p"
  by (cases p) auto

lemma NUL_not_in_cstr [cstr_simps]: "NUL \<notin> set (cstr a)"
  by (auto simp: cstr_def dest: set_takeWhileD)

lemma cstr_id [cstr_simps]: "NUL \<notin> set s \<Longrightarrow> cstr s = s"
  unfolding cstr_def by (rule takeWhile_eq_all_conv [THEN iffD2]) auto

lemma cstr_append_NUL [cstr_simps]: "NUL \<notin> set s \<Longrightarrow> cstr (s @ NUL # a) = s"
  unfolding cstr_def by (subst takeWhile_append2) auto

lemma length_cstr_le: "length (cstr a) \<le> length a"
  by (simp add: cstr_def length_takeWhile_le)

lemma cstr_take_prefix: "cstr (take n a) = take n (cstr a)"
  unfolding cstr_def
  by (induction a arbitrary: n) (auto simp: take_Cons split: nat.splits)

section \<open>Lists\<close>

lemma takeWhile_append_stop [list_aux]:
  "\<forall>x \<in> set xs. P x \<Longrightarrow> ys = [] \<or> \<not> P (hd ys) \<Longrightarrow> takeWhile P (xs @ ys) = xs"
  by (cases ys) (simp_all add: takeWhile_append)

lemma dropWhile_append_stop [list_aux]:
  "\<forall>x \<in> set xs. P x \<Longrightarrow> ys = [] \<or> \<not> P (hd ys) \<Longrightarrow> dropWhile P (xs @ ys) = ys"
  by (cases ys) (simp_all add: dropWhile_append)

lemma length_tl_dropWhile_less:
  "p \<noteq> [] \<Longrightarrow> length (tl (dropWhile P p)) < length p"
  by (metis diff_less le_less_trans length_dropWhile_le length_greater_0_conv length_tl
        diff_le_self less_numeral_extra(1) list.size(3) not_less0 order_less_le_trans)

section \<open>Decimal output\<close>

text \<open>What \<^verbatim>\<open>%d\<close> prints, and the C string that \<^verbatim>\<open>snprintf(tmp, n, ...)\<close> leaves for a formatted text.\<close>

fun nat_str :: "nat \<Rightarrow> string" where
  "nat_str n = (if n < 10 then [char_of (48 + n)] else nat_str (n div 10) @ [char_of (48 + n mod 10)])"

declare nat_str.simps [simp del]

definition dec_str :: "int \<Rightarrow> string" where
  "dec_str i = (if i < 0 then ''-'' @ nat_str (nat (- i)) else nat_str (nat i))"

definition snprintf :: "nat \<Rightarrow> string \<Rightarrow> string" where
  "snprintf n s = take (n - 1) s"

lemma length_snprintf: "length (snprintf n s) \<le> n - 1"
  by (simp add: snprintf_def)


section \<open>Rounding up\<close>

text \<open>The macro \<^verbatim>\<open>pure_align_u32\<close> of the memory pools.\<close>

unbundle bit_operations_syntax

definition pure_align_u32 :: "32 word \<Rightarrow> 32 word \<Rightarrow> 32 word" where
  "pure_align_u32 p a = (p + (a - 1)) AND NOT (a - 1)"

lemma unat_and_not_mask: "unat (x AND NOT (mask n)) = unat x div 2 ^ n * 2 ^ n" for x :: "'a::len word"
proof -
  have "x AND NOT (mask n) = push_bit n (drop_bit n x)"
    by (rule bit_word_eqI) (auto simp: bit_simps)
  moreover have "unat (push_bit n (drop_bit n x)) = unat x div 2 ^ n * 2 ^ n"
  proof -
    have "unat (push_bit n (drop_bit n x)) = push_bit n (drop_bit n (unat x))"
      by (rule bit_eqI) (auto simp: bit_simps dest: bit_imp_le_length)
    then show ?thesis by (simp add: push_bit_eq_mult drop_bit_eq_div)
  qed
  ultimately show ?thesis by simp
qed

lemma unat_pure_align:
  assumes "unat p + (2 ^ n - 1) < 2 ^ 32" "n < 32"
  shows "unat (pure_align_u32 p (2 ^ n)) = (unat p + (2 ^ n - 1)) div 2 ^ n * 2 ^ n"
proof -
  have m: "(2 ^ n - 1 :: 32 word) = mask n" by (simp add: mask_eq_exp_minus_1)
  have "unat (mask n :: 32 word) = mask n"
    by (rule bit_eqI) (use assms(2) in \<open>auto simp: bit_simps\<close>)
  then have "unat (mask n :: 32 word) = 2 ^ n - 1" by (simp add: mask_eq_exp_minus_1)
  then have "unat (p + mask n) = unat p + (2 ^ n - 1)" using assms(1) by (simp add: unat_word_ariths(1))
  then show ?thesis unfolding pure_align_u32_def m unat_and_not_mask by simp
qed

lemma round_up_bounds: "x \<le> (x + (a - 1)) div a * a" "(x + (a - 1)) div a * a < x + a" if "0 < a" for x a :: nat
proof -
  have e: "(x + (a - 1)) div a * a = x + (a - 1) - (x + (a - 1)) mod a" by (simp add: minus_mod_eq_div_mult)
  have "(x + (a - 1)) mod a < a" using that by simp
  then show "x \<le> (x + (a - 1)) div a * a" "(x + (a - 1)) div a * a < x + a" unfolding e using that by linarith+
qed

section \<open>Atomic operations\<close>

text \<open>\<^verbatim>\<open>CAS\<close> of \<^verbatim>\<open>atomic/atom_opr.h\<close>: whether it stored, and the cell afterwards.\<close>

definition CAS :: "'b \<Rightarrow> 'b \<Rightarrow> 'b \<Rightarrow> bool \<times> 'b" where
  "CAS cell old_value new_value = (if cell = old_value then (True, new_value) else (False, cell))"

end
