(* ===== verification/P_String.thy ===== *)
theory P_String
  imports Prelude
begin

text \<open>
  The string helpers of \<^verbatim>\<open>src/src/string/p_string.cpp\<close> and \<^verbatim>\<open>p_string.h\<close>. A destination or a
  source is a character array; a write beyond the destination, or a read beyond the source, is
  the result \<open>None\<close>. The other components use the length discipline proved here: whatever the
  source is, \<open>rc_strncpy\<close> leaves a terminated string of fewer than \<open>d_l\<close> characters.
\<close>

section \<open>Model\<close>

text \<open>
  The library's \<^verbatim>\<open>strncpy(dest, src, n)\<close>, which the helpers call: it copies at most \<open>n\<close>
  characters of the C string \<open>src\<close> and fills up with \<^verbatim>\<open>'\0'\<close> to \<open>n\<close>. \<open>n\<close> is converted to
  \<^verbatim>\<open>size_t\<close>, so a negative \<open>n\<close> is larger than every array.
\<close>

definition strncpy :: "char list \<Rightarrow> char list \<Rightarrow> int \<Rightarrow> char list option" where
  "strncpy dest src n =
     (if n < 0 \<or> int (length dest) < n then None
      else let k = cstr (take (nat n) src) in
        if length k < nat n \<and> length k = length src then None
        else Some (k @ replicate (nat n - length k) NUL @ drop (nat n) dest))"

definition store :: "char list \<Rightarrow> int \<Rightarrow> char \<Rightarrow> char list option" where
  "store a i c = (if 0 \<le> i \<and> i < int (length a) then Some (a[nat i := c]) else None)"

definition rc_strncpy :: "char list \<Rightarrow> int \<Rightarrow> char list \<Rightarrow> int \<Rightarrow> char list option" where
  "rc_strncpy dest d_l src s_l =
     (if s_l < d_l - 1
      then Option.bind (strncpy dest src s_l) (\<lambda>d. store d s_l NUL)
      else Option.bind (strncpy dest src (d_l - 1)) (\<lambda>d. store d (d_l - 1) NUL))"

definition rn_strncpy :: "char list \<Rightarrow> int \<Rightarrow> char list \<Rightarrow> int \<Rightarrow> (char list \<times> int) option" where
  "rn_strncpy dest d_l src s_l =
     (if s_l < d_l - 1
      then Option.bind (strncpy dest src (s_l - 1))
             (\<lambda>d. map_option (\<lambda>d'. (d', s_l - 1)) (store d (s_l - 1) NUL))
      else Option.bind (strncpy dest src (d_l - 1))
             (\<lambda>d. map_option (\<lambda>d'. (d', d_l - 1)) (store d (d_l - 1) NUL)))"

text \<open>
  \<^verbatim>\<open>vsnprintf(buf, n, ..)\<close> stores at most \<open>n - 1\<close> characters of the formatted text and returns
  the length of the whole text; \<open>None\<close> for the text is the library's negative return. The text
  that the format and the arguments stand for is an argument of the model.
\<close>

definition vsnprintf :: "int \<Rightarrow> string option \<Rightarrow> string \<times> int" where
  "vsnprintf n t = (case t of None \<Rightarrow> ('''', -1)
                    | Some s \<Rightarrow> (take (nat (n - 1)) s, int (length s)))"

definition rn_snprintf :: "int \<Rightarrow> string option \<Rightarrow> string \<times> int" where
  "rn_snprintf n t =
     (let (buf, cnt) = vsnprintf n t in
      if cnt < 0 then (buf, cnt) else if cnt < n then (buf, cnt) else (buf, n))"

text \<open>\<^verbatim>\<open>p_atoof\<close>: the loop over the \<open>n\<close> characters with the 32-bit \<^verbatim>\<open>value\<close>, read back as signed.\<close>

fun p_atoof_loop :: "char list \<Rightarrow> nat \<Rightarrow> 32 word \<Rightarrow> 32 word option" where
  "p_atoof_loop line 0 value = Some value"
| "p_atoof_loop [] (Suc n) value = None"
| "p_atoof_loop (c # line) (Suc n) value =
     (if of_char c < (48::nat) \<or> of_char c > (57::nat) then None
      else p_atoof_loop line n (value * 10 + (of_char c - 48)))"

definition p_atoof :: "char list \<Rightarrow> nat \<Rightarrow> int" where
  "p_atoof line n =
     (if n = 0 then -1
      else case p_atoof_loop line n 0 of
             None \<Rightarrow> -1
           | Some v \<Rightarrow> if sint v < 0 then -1 else sint v)"

text \<open>\<^verbatim>\<open>STRMATCH\<close>: equal lengths and equal bytes of the two C strings.\<close>

definition STRMATCH :: "char list \<Rightarrow> char list \<Rightarrow> bool" where
  "STRMATCH av1 av2 \<longleftrightarrow>
     length (cstr av1) = length (cstr av2)
       \<and> take (length (cstr av1)) av1 = take (length (cstr av1)) av2"

section \<open>Reference meanings\<close>

text \<open>What the C string left by a bounded copy should be: the first characters, cut at \<^verbatim>\<open>'\0'\<close>.\<close>

definition bounded_copy :: "int \<Rightarrow> string \<Rightarrow> int \<Rightarrow> string" where
  "bounded_copy d_l src s_l = cstr (take (nat (min s_l (d_l - 1))) src)"

text \<open>The value of a list of decimal digits.\<close>

definition dec_value :: "char list \<Rightarrow> nat" where
  "dec_value ds = foldl (\<lambda>v c. v * 10 + (of_char c - 48)) 0 ds"

definition is_digit :: "char \<Rightarrow> bool" where
  "is_digit c \<longleftrightarrow> 48 \<le> (of_char c :: nat) \<and> (of_char c :: nat) \<le> 57"

section \<open>Bounded copies\<close>

lemma length_strncpy: "strncpy dest src n = Some d \<Longrightarrow> length d = length dest"
  by (auto simp: strncpy_def Let_def cstr_take_prefix length_cstr_le split: if_splits)

lemma strncpy_Some:
  assumes "0 \<le> n" "n \<le> int (length dest)" "n \<le> int (length src)"
  shows "strncpy dest src n
    = Some (cstr (take (nat n) src) @ replicate (nat n - length (cstr (take (nat n) src))) NUL
            @ drop (nat n) dest)"
  using assms by (auto simp: strncpy_def Let_def)

lemma cstr_strncpy_store:
  assumes "0 \<le> n" "n < int (length dest)" "n \<le> int (length src)"
  shows "\<exists>d. Option.bind (strncpy dest src n) (\<lambda>d. store d n NUL) = Some d
           \<and> length d = length dest \<and> cstr d = cstr (take (nat n) src)"
proof -
  let ?k = "cstr (take (nat n) src)"
  let ?z = "replicate (nat n - length ?k) NUL"
  let ?d = "?k @ ?z @ drop (nat n) dest"
  have len: "length (?k @ ?z) = nat n"
    using assms length_cstr_le [of "take (nat n) src"] by simp
  have upd: "?d[nat n := NUL] = (?k @ ?z) @ NUL # drop (Suc (nat n)) dest"
    using assms len by (simp add: list_update_append drop_Suc tl_drop
        flip: Cons_nth_drop_Suc)
  have "cstr (?k @ ?z @ NUL # drop (Suc (nat n)) dest) = ?k"
    by (cases "nat n - length ?k") (auto simp: cstr_simps)
  moreover have "strncpy dest src n = Some ?d"
    using assms by (intro strncpy_Some) auto
  moreover have "length ?d = length dest"
    using assms len by simp
  ultimately show ?thesis
    using assms upd by (simp add: store_def)
qed

lemma rc_strncpy_bounded:
  assumes "1 \<le> d_l" "d_l \<le> int (length dest)" "0 \<le> s_l" "min s_l (d_l - 1) \<le> int (length src)"
  shows "\<exists>d. rc_strncpy dest d_l src s_l = Some d \<and> length d = length dest
           \<and> cstr d = bounded_copy d_l src s_l"
proof (cases "s_l < d_l - 1")
  case True
  then have m: "min s_l (d_l - 1) = s_l" by simp
  from True assms cstr_strncpy_store [of s_l dest src] show ?thesis
    unfolding rc_strncpy_def bounded_copy_def m by simp
next
  case False
  then have m: "min s_l (d_l - 1) = d_l - 1" by simp
  from assms cstr_strncpy_store [of "d_l - 1" dest src] show ?thesis
    unfolding rc_strncpy_def bounded_copy_def m if_not_P [OF False] by simp
qed

lemma length_bounded_copy: "1 \<le> d_l \<Longrightarrow> int (length (bounded_copy d_l src s_l)) < d_l"
  using length_cstr_le [of "take (nat (min s_l (d_l - 1))) src"]
  by (simp add: bounded_copy_def min_def split: if_splits)

lemma bounded_copy_all:
  "int (length s) < d_l \<Longrightarrow> NUL \<notin> set s \<Longrightarrow> bounded_copy d_l s (int (length s)) = s"
  by (simp add: bounded_copy_def cstr_simps)

lemma bounded_copy_take:
  "NUL \<notin> set s \<Longrightarrow> bounded_copy d_l s (int (length s)) = take (nat (d_l - 1)) s"
proof -
  assume s: "NUL \<notin> set s"
  have "bounded_copy d_l s (int (length s)) = take (nat (min (int (length s)) (d_l - 1))) s"
    using s by (simp add: bounded_copy_def cstr_take_prefix cstr_simps)
  also have "\<dots> = take (nat (d_l - 1)) s"
    by (auto simp: min_def)
  finally show ?thesis .
qed

text \<open>
  C21. For every destination array of at least \<open>d_l \<ge> 1\<close> cells and every source of which
  the requested characters exist, \<open>rc_strncpy\<close> stays inside the destination, keeps its size, and
  leaves exactly the first \<open>min s_l (d_l - 1)\<close> characters (cut at a \<^verbatim>\<open>'\0'\<close>), terminated within
  \<open>d_l\<close> cells.
\<close>

theorem rc_strncpy_safe:
  assumes "1 \<le> d_l" "d_l \<le> int (length dest)" "0 \<le> s_l" "min s_l (d_l - 1) \<le> int (length src)"
  shows "\<exists>d. rc_strncpy dest d_l src s_l = Some d \<and> length d = length dest
           \<and> cstr d = bounded_copy d_l src s_l \<and> int (length (cstr d)) < d_l"
  using rc_strncpy_bounded [OF assms] length_bounded_copy [OF assms(1)] by auto

theorem rc_strncpy_safe_witness:
  "\<exists>d. rc_strncpy (replicate 4 (CHR ''x'')) 4 ''hello'' 5 = Some d \<and> cstr d = ''hel''"
proof -
  have "\<exists>d. rc_strncpy (replicate 4 (CHR ''x'')) 4 ''hello'' 5 = Some d
          \<and> cstr d = bounded_copy 4 ''hello'' 5"
    using rc_strncpy_safe [of 4 "replicate 4 (CHR ''x'')" 5 "''hello''"] by auto
  moreover have "bounded_copy 4 ''hello'' 5 = ''hel''"
    by (simp add: bounded_copy_def cstr_def numeral_3_eq_3)
  ultimately show ?thesis by metis
qed

section \<open>Decimal numbers and string equality\<close>

lemma of_char_less_256 [simp]: "(of_char c :: nat) < 256"
  by simp

lemma p_atoof_loop_digits:
  assumes "\<forall>c \<in> set ds. is_digit c"
  shows "p_atoof_loop (ds @ rest) (length ds) (word_of_nat v)
    = Some (word_of_nat (foldl (\<lambda>v c. v * 10 + (of_char c - 48)) v ds))"
  using assms
proof (induction ds arbitrary: v)
  case (Cons c ds)
  then have d: "48 \<le> (of_char c :: nat)" "(of_char c :: nat) \<le> 57"
    by (auto simp: is_digit_def)
  have "(of_char c :: 32 word) = word_of_nat (of_char c)"
    by (simp add: of_nat_of_char)
  then have "(word_of_nat v * 10 + (of_char c - 48) :: 32 word)
      = word_of_nat (v * 10 + (of_char c - 48))"
    using d by (simp add: of_nat_diff del: of_nat_of_char)
  with d Cons.prems Cons.IH [of "v * 10 + (of_char c - 48)"] show ?case
    by (simp add: add_diff_eq del: of_nat_of_char)
qed simp

lemma p_atoof_loop_bad:
  "\<not> (\<forall>c \<in> set (take n line). is_digit c) \<Longrightarrow> p_atoof_loop line n v = None"
  by (induction line n v rule: p_atoof_loop.induct) (auto simp: is_digit_def not_le)

text \<open>
  On \<open>n \<ge> 1\<close> decimal digits whose value fits a signed 32-bit \<^verbatim>\<open>int\<close>, \<open>p_atoof\<close>
  returns that value, whatever follows the digits; a character that is no digit among the first
  \<open>n\<close>, or an empty number, makes it return \<open>-1\<close>.
\<close>

theorem p_atoof_correct:
  "((\<forall>c \<in> set ds. is_digit c) \<and> ds \<noteq> [] \<and> dec_value ds < 2 ^ 31
      \<longrightarrow> p_atoof (ds @ rest) (length ds) = int (dec_value ds))
   \<and> (n = 0 \<or> (\<exists>c \<in> set (take n line). \<not> is_digit c) \<longrightarrow> p_atoof line n = -1)"
proof (intro conjI impI)
  assume a: "(\<forall>c \<in> set ds. is_digit c) \<and> ds \<noteq> [] \<and> dec_value ds < 2 ^ 31"
  then have "p_atoof_loop (ds @ rest) (length ds) 0 = Some (word_of_nat (dec_value ds))"
    using p_atoof_loop_digits [of ds rest 0] by (simp add: dec_value_def)
  moreover have "sint (word_of_nat (dec_value ds) :: 32 word) = int (dec_value ds)"
    using a by (simp add: signed_of_nat signed_take_bit_int_eq_self)
  ultimately show "p_atoof (ds @ rest) (length ds) = int (dec_value ds)"
    using a by (simp add: p_atoof_def)
next
  assume "n = 0 \<or> (\<exists>c \<in> set (take n line). \<not> is_digit c)"
  then have "n = 0 \<or> p_atoof_loop line n 0 = None"
    by (metis p_atoof_loop_bad)
  then show "p_atoof line n = -1"
    by (auto simp: p_atoof_def)
qed

theorem p_atoof_correct_witness:
  "p_atoof (''9000'' @ '';'') (length ''9000'') = 9000 \<and> p_atoof ''90x'' 3 = -1"
proof -
  have "dec_value ''9000'' = 9000" by (simp add: dec_value_def)
  moreover have "\<forall>c \<in> set ''9000''. is_digit c" by (simp add: is_digit_def)
  moreover have "\<exists>c \<in> set (take 3 ''90x''). \<not> is_digit c" by (simp add: is_digit_def)
  ultimately show ?thesis
    using p_atoof_correct [of "''9000''" "'';''" 3 "''90x''"] by simp
qed

lemma STRMATCH_iff [simp]: "STRMATCH a b \<longleftrightarrow> cstr a = cstr b"
proof -
  have pre: "take (length (cstr x)) x = cstr x" for x
    unfolding cstr_def by (rule takeWhile_eq_take [symmetric])
  show ?thesis
    unfolding STRMATCH_def by (metis pre)
qed

end
