(* ===== verification/Mongo_Adaptor.thy ===== *)
theory Mongo_Adaptor
  imports P_String "HOL-Library.State_Monad" "HOL-Library.AList" "HOL-Library.Multiset"
begin

text \<open>
  The data base adaptor of \<^verbatim>\<open>src/src/app/mongo_adaptor.cpp\<close> and the error codes of
  \<^verbatim>\<open>src/src/app/common.h\<close>. The MongoDB client library is not part of the sources: its functions are
  the fields of the record \<open>mongoc\<close>, an argument of every definition, and act on a world of type
  \<open>'w\<close> through the state monad. What the program relies on is stated by \<open>db_laws\<close>: a reachable
  server, a collection that is a multiset of documents, and the documented effect of a find, an
  insert, a single removal and an update.
\<close>

section \<open>Error codes\<close>

datatype error_code =
    REC_ERROR_OK
  | REC_ERROR_STREAM_EXIST
  | REC_ERROR_PORCESS_INFO_NONE
  | REC_ERROR_GET_COLLECTION_FAILED
  | REC_ERROR_FORK_FAILED
  | REC_ERROR_STREAM_NOT_EXIST
  | REC_ERROR_MONGODB
  | REC_ERROR_JSON_PARSER
  | REC_ERROR_INTERNAL
  | REC_ERROR_PORT_UNSPECIFIED
  | REC_ERROR_ROOT_PATH_UNSPECIFIED
  | REC_ERROR_CREATE_M3U8_FILE
  | REC_ERROR_JSON_PARSER_EXCEPTION

primrec ec :: "error_code \<Rightarrow> int" where
  "ec REC_ERROR_OK = 0"
| "ec REC_ERROR_STREAM_EXIST = 1"
| "ec REC_ERROR_PORCESS_INFO_NONE = 2"
| "ec REC_ERROR_GET_COLLECTION_FAILED = 3"
| "ec REC_ERROR_FORK_FAILED = 4"
| "ec REC_ERROR_STREAM_NOT_EXIST = 5"
| "ec REC_ERROR_MONGODB = 6"
| "ec REC_ERROR_JSON_PARSER = 7"
| "ec REC_ERROR_INTERNAL = 8"
| "ec REC_ERROR_PORT_UNSPECIFIED = 9"
| "ec REC_ERROR_ROOT_PATH_UNSPECIFIED = 10"
| "ec REC_ERROR_CREATE_M3U8_FILE = 11"
| "ec REC_ERROR_JSON_PARSER_EXCEPTION = 12"

section \<open>The client library\<close>

datatype bval = BUtf8 string | BInt32 int | BOid nat | BDoc "(string \<times> bval) list"

type_synonym bson = "(string \<times> bval) list"

abbreviation ret :: "'a \<Rightarrow> ('w, 'a) state" where
  "ret \<equiv> State_Monad.return"

record ('w, 'c, 'k) mongoc =
  mongoc_init :: "('w, unit) state"
  mongoc_client_new :: "string \<Rightarrow> ('w, 'c option) state"
  mongoc_client_destroy :: "'c \<Rightarrow> ('w, unit) state"
  mongoc_client_get_collection :: "'c \<Rightarrow> string \<Rightarrow> string \<Rightarrow> ('w, 'k option) state"
  mongoc_collection_destroy :: "'k \<Rightarrow> ('w, unit) state"
  mongoc_collection_insert :: "'k \<Rightarrow> bson \<Rightarrow> ('w, bool) state"
  mongoc_collection_update :: "'k \<Rightarrow> bson \<Rightarrow> bson \<Rightarrow> ('w, bool) state"
  mongoc_collection_remove :: "'k \<Rightarrow> bson \<Rightarrow> ('w, bool) state"
  mongoc_collection_find :: "'k \<Rightarrow> bson \<Rightarrow> ('w, bson list) state"
  bson_as_json :: "bson \<Rightarrow> string"

text \<open>\<^verbatim>\<open>BSON_APPEND_UTF8\<close> of a \<^verbatim>\<open>c_str()\<close>, and \<^verbatim>\<open>BSON_APPEND_INT32\<close>.\<close>

definition bson_utf8 :: "string \<Rightarrow> string \<Rightarrow> bson \<Rightarrow> bson" where
  "bson_utf8 f s b = b @ [(f, BUtf8 (cstr s))]"

definition bson_int32 :: "string \<Rightarrow> int \<Rightarrow> bson \<Rightarrow> bson" where
  "bson_int32 f i b = b @ [(f, BInt32 i)]"

definition bson_document :: "string \<Rightarrow> bson \<Rightarrow> bson \<Rightarrow> bson" where
  "bson_document f child b = b @ [(f, BDoc child)]"

section \<open>The adaptor\<close>

definition mongo_init :: "('w, 'c, 'k, 'z) mongoc_scheme \<Rightarrow> ('w, int) state" where
  "mongo_init E = do { _ \<leftarrow> mongoc_init E; ret 0 }"

definition mongo_connect :: "('w, 'c, 'k, 'z) mongoc_scheme \<Rightarrow> string \<Rightarrow> ('w, 'c option) state" where
  "mongo_connect E addr = mongoc_client_new E (cstr addr)"

definition mongo_connect_close :: "('w, 'c, 'k, 'z) mongoc_scheme \<Rightarrow> 'c option \<Rightarrow> ('w, unit) state" where
  "mongo_connect_close E c =
     (case c of None \<Rightarrow> ret () | Some client \<Rightarrow> mongoc_client_destroy E client)"

definition mongo_collection ::
  "('w, 'c, 'k, 'z) mongoc_scheme \<Rightarrow> 'c option \<Rightarrow> string \<Rightarrow> string \<Rightarrow> ('w, 'k option) state" where
  "mongo_collection E connect db collection =
     (case connect of None \<Rightarrow> ret None
      | Some client \<Rightarrow> mongoc_client_get_collection E client (cstr db) (cstr collection))"

definition mongo_collection_release ::
  "('w, 'c, 'k, 'z) mongoc_scheme \<Rightarrow> 'k option \<Rightarrow> ('w, unit) state" where
  "mongo_collection_release E collection =
     (case collection of None \<Rightarrow> ret () | Some collec \<Rightarrow> mongoc_collection_destroy E collec)"

definition mongo_insert ::
  "('w, 'c, 'k, 'z) mongoc_scheme \<Rightarrow> 'k option \<Rightarrow> bson \<Rightarrow> ('w, bool) state" where
  "mongo_insert E collection query =
     (case collection of None \<Rightarrow> ret False
      | Some collect \<Rightarrow> mongoc_collection_insert E collect query)"

definition mongo_update ::
  "('w, 'c, 'k, 'z) mongoc_scheme \<Rightarrow> 'k option \<Rightarrow> bson \<Rightarrow> bson \<Rightarrow> ('w, bool) state" where
  "mongo_update E collection query upd =
     (case collection of None \<Rightarrow> ret False
      | Some collect \<Rightarrow> mongoc_collection_update E collect query upd)"

text \<open>
  \<^verbatim>\<open>find\<close> appends every document of the cursor, as JSON, to the vector of the caller; \<^verbatim>\<open>findOne\<close>
  returns at the first one and leaves \<^verbatim>\<open>item\<close> as it was when there is none.
\<close>

definition mongo_find ::
  "('w, 'c, 'k, 'z) mongoc_scheme \<Rightarrow> 'k option \<Rightarrow> bson \<Rightarrow> string list \<Rightarrow> ('w, int \<times> string list) state" where
  "mongo_find E collection query vec =
     (case collection of None \<Rightarrow> ret (1, vec)
      | Some collect \<Rightarrow>
          do { docs \<leftarrow> mongoc_collection_find E collect query;
               ret (0, vec @ map (\<lambda>doc. bson_as_json E doc) docs) })"

definition mongo_findOne ::
  "('w, 'c, 'k, 'z) mongoc_scheme \<Rightarrow> 'k option \<Rightarrow> bson \<Rightarrow> string \<Rightarrow> ('w, int \<times> string) state" where
  "mongo_findOne E collection query item =
     (case collection of None \<Rightarrow> ret (ec REC_ERROR_GET_COLLECTION_FAILED, item)
      | Some collect \<Rightarrow>
          do { docs \<leftarrow> mongoc_collection_find E collect query;
               ret (case docs of
                      [] \<Rightarrow> (ec REC_ERROR_PORCESS_INFO_NONE, item)
                    | doc # _ \<Rightarrow> (ec REC_ERROR_OK, bson_as_json E doc)) })"

definition mongo_remove ::
  "('w, 'c, 'k, 'z) mongoc_scheme \<Rightarrow> 'k option \<Rightarrow> bson \<Rightarrow> ('w, bool) state" where
  "mongo_remove E collection query =
     (case collection of None \<Rightarrow> ret False
      | Some collect \<Rightarrow> mongoc_collection_remove E collect query)"

text \<open>
  The frame that every data base operation of \<^verbatim>\<open>process_manager.cpp\<close> repeats: connect, get the
  collection \<^verbatim>\<open>rec_distribute.process_info\<close>, run the operation, release and close.
\<close>

definition with_collection ::
  "('w, 'c, 'k, 'z) mongoc_scheme \<Rightarrow> string \<Rightarrow> ('k option \<Rightarrow> ('w, 'a) state) \<Rightarrow> ('w, 'a) state" where
  "with_collection E db_address body =
     do { connect \<leftarrow> mongo_connect E db_address;
          collection \<leftarrow> mongo_collection E connect ''rec_distribute'' ''process_info'';
          r \<leftarrow> body collection;
          _ \<leftarrow> mongo_collection_release E collection;
          _ \<leftarrow> mongo_connect_close E connect;
          ret r }"

section \<open>What the data base promises\<close>

text \<open>The query and update operators the program uses, on documents.\<close>

fun bson_match1 :: "string \<times> bval \<Rightarrow> bson \<Rightarrow> bool" where
  "bson_match1 (f, BDoc [(op, v)]) d =
     (if op = ''$ne'' then map_of d f \<noteq> Some v else map_of d f = Some (BDoc [(op, v)]))"
| "bson_match1 (f, v) d = (map_of d f = Some v)"

definition bson_match :: "bson \<Rightarrow> bson \<Rightarrow> bool" where
  "bson_match q d = list_all (\<lambda>c. bson_match1 c d) q"

fun bson_set :: "bson \<Rightarrow> bson \<Rightarrow> bson" where
  "bson_set [(op, BDoc fs)] d =
     (if op = ''$set'' then fold (\<lambda>(f, v). AList.update f v) fs d else d)"
| "bson_set _ d = d"

text \<open>
  \<open>docs\<close> gives the documents of the collection in a world and \<open>H\<close> the handles of it. The order in
  which a find returns the documents, and which of several matches a removal or an update of a
  single document takes, are left open.
\<close>

definition db_laws ::
  "('w, 'c, 'k, 'z) mongoc_scheme \<Rightarrow> ('k \<Rightarrow> bool) \<Rightarrow> ('w \<Rightarrow> bson multiset) \<Rightarrow> bool" where
  "db_laws E H docs \<longleftrightarrow>
     (\<forall>a w. \<exists>c w'. run_state (mongoc_client_new E a) w = (Some c, w') \<and> docs w' = docs w)
   \<and> (\<forall>c w. docs (snd (run_state (mongoc_client_destroy E c) w)) = docs w)
   \<and> (\<forall>c w. \<exists>k w'. run_state (mongoc_client_get_collection E c ''rec_distribute'' ''process_info'') w
         = (Some k, w') \<and> H k \<and> docs w' = docs w)
   \<and> (\<forall>k w. docs (snd (run_state (mongoc_collection_destroy E k) w)) = docs w)
   \<and> (\<forall>k q w. H k \<longrightarrow> (\<exists>ds w'. run_state (mongoc_collection_find E k q) w = (ds, w')
         \<and> mset ds = filter_mset (bson_match q) (docs w) \<and> docs w' = docs w))
   \<and> (\<forall>k d w. H k \<longrightarrow> (\<exists>i w'. run_state (mongoc_collection_insert E k d) w = (True, w')
         \<and> docs w' = add_mset ((''_id'', BOid i) # d) (docs w)))
   \<and> (\<forall>k q w. H k \<longrightarrow> (\<exists>w'. run_state (mongoc_collection_remove E k q) w = (True, w')
         \<and> (if filter_mset (bson_match q) (docs w) = {#} then docs w' = docs w
            else \<exists>d \<in># docs w. bson_match q d \<and> docs w' = docs w - {#d#})))
   \<and> (\<forall>k q u w. H k \<longrightarrow> (\<exists>w'. run_state (mongoc_collection_update E k q u) w = (True, w')
         \<and> (if filter_mset (bson_match q) (docs w) = {#} then docs w' = docs w
            else \<exists>d \<in># docs w. bson_match q d
                   \<and> docs w' = add_mset (bson_set u d) (docs w - {#d#}))))"

lemma run_bind [simp]:
  "run_state (State_Monad.bind m f) w = (case run_state m w of (a, w') \<Rightarrow> run_state (f a) w')"
  by (simp add: State_Monad.bind_def)

end
