(* ===== verification/Process_Manager.thy ===== *)
theory Process_Manager
  imports Mongo_Adaptor
begin

text \<open>
  The process manager of \<^verbatim>\<open>src/src/app/process_manager.cpp\<close> and \<^verbatim>\<open>process_manager.h\<close>: one ffmpeg
  process per stream, a record of each in the data base, the queue of start requests, the SIGCHLD
  handler that restarts a stream and the monitor that looks for orphans.

  The operating system and the JSON reader are fields of the record \<open>env\<close>, which extends the data
  base client. \<^verbatim>\<open>execl\<close> gives \<open>None\<close> when it does not return; a function that calls it in the child
  of a \<^verbatim>\<open>fork\<close> then gives \<open>None\<close> too. The fields \<^verbatim>\<open>pid\<close> and \<^verbatim>\<open>ppid\<close> of a \<^verbatim>\<open>_process_info\<close> that
  is declared without an initialiser are \<open>e_uninit\<close>. Output by \<^verbatim>\<open>printf\<close> is left out.
\<close>

section \<open>Data\<close>

record process_info =
  pi_sid :: string
  pi_pid :: int
  pi_ppid :: int
  pi_src_url :: string
  pi_m3u8_path :: string
  pi_type :: string
  pi_status :: string
  pi_host :: string

record m3u8_param =
  mp_path :: string
  mp_sid :: string
  mp_file_path :: string

datatype message_type = MSG_TYPE_SIGCHIL_NOTIFY

record message =
  msg_type :: message_type
  msg_data :: int

record pm =
  db_address :: string
  pm_q :: "process_info list"
  is_running :: bool

record ('w, 'c, 'k, 'j) env = "('w, 'c, 'k) mongoc" +
  e_fork :: "('w, int) state"
  e_execl :: "string list \<Rightarrow> ('w, int option) state"
  e_waitpid :: "('w, int) state"
  e_kill :: "int \<Rightarrow> int \<Rightarrow> ('w, int) state"
  e_getpid :: "('w, int) state"
  e_opendir :: "string \<Rightarrow> ('w, bool) state"
  e_access :: "string \<Rightarrow> ('w, int) state"
  e_mkdir :: "string \<Rightarrow> ('w, int) state"
  e_time :: "('w, int) state"
  e_open :: "string \<Rightarrow> ('w, int) state"
  e_chmod :: "string \<Rightarrow> ('w, int) state"
  e_close :: "int \<Rightarrow> ('w, int) state"
  e_pthread_create :: "('w, int) state"
  json_parse :: "string \<Rightarrow> 'j option"
  json_str :: "'j \<Rightarrow> string \<Rightarrow> string option"
  json_int :: "'j \<Rightarrow> string \<Rightarrow> int option"
  e_uninit :: "int \<times> int"

definition SIGINT :: int where "SIGINT = 2"

text \<open>A \<^verbatim>\<open>_process_info\<close> declared without an initialiser.\<close>

definition fresh_info :: "('w, 'c, 'k, 'j, 'z) env_scheme \<Rightarrow> process_info" where
  "fresh_info E = \<lparr>pi_sid = '''', pi_pid = fst (e_uninit E), pi_ppid = snd (e_uninit E),
     pi_src_url = '''', pi_m3u8_path = '''', pi_type = '''', pi_status = '''', pi_host = ''''\<rparr>"

section \<open>Play lists\<close>

text \<open>
  \<^verbatim>\<open>multi_mkdir\<close>: the directories above every slash, then the path itself. A path of 512 bytes or
  more fills \<^verbatim>\<open>str\<close> without a terminator, which is \<open>None\<close>.
\<close>

definition mkdir_missing :: "('w, 'c, 'k, 'j, 'z) env_scheme \<Rightarrow> string \<Rightarrow> ('w, unit) state" where
  "mkdir_missing E str =
     do { a \<leftarrow> e_access E str;
          if a \<noteq> 0 then do { _ \<leftarrow> e_mkdir E str; ret () } else ret () }"

fun multi_mkdir_loop :: "('w, 'c, 'k, 'j, 'z) env_scheme \<Rightarrow> string \<Rightarrow> string \<Rightarrow> ('w, unit) state" where
  "multi_mkdir_loop E before [] = ret ()"
| "multi_mkdir_loop E before (c # rest) =
     (if c = CHR ''/''
      then do { _ \<leftarrow> mkdir_missing E before; multi_mkdir_loop E (before @ [c]) rest }
      else multi_mkdir_loop E (before @ [c]) rest)"

definition multi_mkdir :: "('w, 'c, 'k, 'j, 'z) env_scheme \<Rightarrow> string \<Rightarrow> ('w, unit option) state" where
  "multi_mkdir E dir =
     (if 512 \<le> length dir then ret None
      else do { _ \<leftarrow> multi_mkdir_loop E '''' dir;
                _ \<leftarrow> (if dir \<noteq> [] then mkdir_missing E dir else ret ());
                ret (Some ()) })"

definition m3u8_name :: "m3u8_param \<Rightarrow> int \<Rightarrow> string" where
  "m3u8_name param t = snprintf 256 (cstr (mp_path param) @ cstr (mp_sid param) @ ''_''
     @ dec_str (sint (word_of_int t :: 32 word)) @ ''.m3u8'')"

definition create_m3u8 ::
  "('w, 'c, 'k, 'j, 'z) env_scheme \<Rightarrow> m3u8_param \<Rightarrow> ('w, (int \<times> m3u8_param) option) state" where
  "create_m3u8 E param =
     do { dir \<leftarrow> e_opendir E (cstr (mp_path param));
          made \<leftarrow> (if \<not> dir then multi_mkdir E (cstr (mp_path param)) else ret (Some ()));
          case made of None \<Rightarrow> ret None
          | Some _ \<Rightarrow>
              do { t \<leftarrow> e_time E;
                   fd \<leftarrow> e_open E (m3u8_name param t);
                   if fd < 0 then ret (Some (ec REC_ERROR_CREATE_M3U8_FILE, param))
                   else do { _ \<leftarrow> e_chmod E (m3u8_name param t);
                             _ \<leftarrow> e_close E fd;
                             ret (Some (ec REC_ERROR_OK, param\<lparr>mp_file_path := m3u8_name param t\<rparr>)) } } }"

definition remove_m3u8 :: "m3u8_param \<Rightarrow> int" where
  "remove_m3u8 param = ec REC_ERROR_OK"

section \<open>Records of processes\<close>

text \<open>
  \<^verbatim>\<open>parser\<close>: the fields are assigned one after the other, so an exception in the middle leaves
  the first ones assigned.
\<close>

fun assign_fields ::
  "('j \<Rightarrow> process_info \<Rightarrow> process_info option) list \<Rightarrow> 'j \<Rightarrow> process_info \<Rightarrow> int \<times> process_info" where
  "assign_fields [] root info = (ec REC_ERROR_OK, info)"
| "assign_fields (f # fs) root info =
     (case f root info of
        None \<Rightarrow> (ec REC_ERROR_JSON_PARSER_EXCEPTION, info)
      | Some info' \<Rightarrow> assign_fields fs root info')"

definition parser ::
  "('w, 'c, 'k, 'j, 'z) env_scheme \<Rightarrow> string \<Rightarrow> process_info \<Rightarrow> int \<times> process_info" where
  "parser E item info =
     (case json_parse E (cstr item) of
        None \<Rightarrow> (ec REC_ERROR_JSON_PARSER, info)
      | Some root \<Rightarrow> assign_fields
          [\<lambda>r i. map_option (\<lambda>s. i\<lparr>pi_src_url := s\<rparr>) (json_str E r ''src_url''),
           \<lambda>r i. map_option (\<lambda>s. i\<lparr>pi_m3u8_path := s\<rparr>) (json_str E r ''m3u8_path''),
           \<lambda>r i. map_option (\<lambda>s. i\<lparr>pi_sid := s\<rparr>) (json_str E r ''stream_id''),
           \<lambda>r i. map_option (\<lambda>s. i\<lparr>pi_type := s\<rparr>) (json_str E r ''type''),
           \<lambda>r i. map_option (\<lambda>s. i\<lparr>pi_status := s\<rparr>) (json_str E r ''status''),
           \<lambda>r i. map_option (\<lambda>s. i\<lparr>pi_host := s\<rparr>) (json_str E r ''host''),
           \<lambda>r i. map_option (\<lambda>n. i\<lparr>pi_pid := n\<rparr>) (json_int E r ''pid''),
           \<lambda>r i. map_option (\<lambda>n. i\<lparr>pi_ppid := n\<rparr>) (json_int E r ''ppid'')] root info)"

definition update_process_info ::
  "('w, 'c, 'k, 'j, 'z) env_scheme \<Rightarrow> pm \<Rightarrow> process_info \<Rightarrow> ('w, int) state" where
  "update_process_info E pm param = with_collection E (db_address pm) (\<lambda>collection.
     do { ok \<leftarrow> mongo_update E collection (bson_utf8 ''stream_id'' (pi_sid param) [])
                 (bson_document ''$set'' (bson_int32 ''pid'' (pi_pid param) []) []);
          ret (if \<not> ok then ec REC_ERROR_MONGODB else ec REC_ERROR_OK) })"

definition add_process_to_cache ::
  "('w, 'c, 'k, 'j, 'z) env_scheme \<Rightarrow> pm \<Rightarrow> process_info \<Rightarrow> ('w, int) state" where
  "add_process_to_cache E pm info = with_collection E (db_address pm) (\<lambda>collection.
     do { self \<leftarrow> e_getpid E;
          ok \<leftarrow> mongo_insert E collection
            (bson_utf8 ''host'' (pi_host info) (bson_utf8 ''status'' ''active''
            (bson_utf8 ''type'' (pi_type info) (bson_utf8 ''m3u8_path'' (pi_m3u8_path info)
            (bson_utf8 ''src_url'' (pi_src_url info) (bson_int32 ''ppid'' self
            (bson_int32 ''pid'' (pi_pid info) (bson_utf8 ''stream_id'' (pi_sid info) []))))))));
          ret (if \<not> ok then ec REC_ERROR_MONGODB else ec REC_ERROR_OK) })"

definition is_process_exist_pid ::
  "('w, 'c, 'k, 'j, 'z) env_scheme \<Rightarrow> pm \<Rightarrow> int \<Rightarrow> process_info \<Rightarrow> ('w, bool \<times> process_info) state" where
  "is_process_exist_pid E pm pid info =
     do { (r, item) \<leftarrow> with_collection E (db_address pm) (\<lambda>collection.
            mongo_findOne E collection (bson_int32 ''pid'' pid []) '''');
          ret (if r = ec REC_ERROR_OK then (True, snd (parser E item info)) else (False, info)) }"

definition is_process_exist ::
  "('w, 'c, 'k, 'j, 'z) env_scheme \<Rightarrow> pm \<Rightarrow> string \<Rightarrow> ('w, bool) state" where
  "is_process_exist E pm sid =
     do { (r, item) \<leftarrow> with_collection E (db_address pm) (\<lambda>collection.
            mongo_findOne E collection (bson_utf8 ''stream_id'' sid []) '''');
          ret (r = ec REC_ERROR_OK) }"

definition get_process_info ::
  "('w, 'c, 'k, 'j, 'z) env_scheme \<Rightarrow> pm \<Rightarrow> string \<Rightarrow> ('w, process_info option) state" where
  "get_process_info E pm sid =
     do { (r, item) \<leftarrow> with_collection E (db_address pm) (\<lambda>collection.
            mongo_findOne E collection (bson_utf8 ''stream_id'' sid []) '''');
          ret (if r = ec REC_ERROR_OK then Some (snd (parser E item (fresh_info E))) else None) }"

definition remove_process_by_stream ::
  "('w, 'c, 'k, 'j, 'z) env_scheme \<Rightarrow> pm \<Rightarrow> string \<Rightarrow> ('w, int) state" where
  "remove_process_by_stream E pm sid = with_collection E (db_address pm) (\<lambda>collection.
     do { ok \<leftarrow> mongo_remove E collection (bson_utf8 ''stream_id'' sid []);
          ret (if \<not> ok then ec REC_ERROR_MONGODB else ec REC_ERROR_OK) })"

definition remove_process_by_id ::
  "('w, 'c, 'k, 'j, 'z) env_scheme \<Rightarrow> pm \<Rightarrow> int \<Rightarrow> ('w, int) state" where
  "remove_process_by_id E pm i = with_collection E (db_address pm) (\<lambda>collection.
     do { ok \<leftarrow> mongo_remove E collection (bson_int32 ''pid'' i []);
          ret (if \<not> ok then ec REC_ERROR_MONGODB else ec REC_ERROR_OK) })"

section \<open>Processes\<close>

definition ffmpeg_cmd :: "string \<Rightarrow> string \<Rightarrow> string \<Rightarrow> string" where
  "ffmpeg_cmd hls src_url file_path = snprintf 1024
     (''/home/develop/tools/tmp/ffmpeg_3.3.3/bin/ffmpeg -i '' @ cstr src_url
      @ '' -vcodec copy -acodec copy -map 0 -f '' @ hls
      @ '' -hls_list_size 0 -hls_wrap 0 -hls_time 3 '' @ cstr file_path)"

text \<open>The child: when \<^verbatim>\<open>execl\<close> returns, so does the function, with \<^verbatim>\<open>REC_ERROR_OK\<close>.\<close>

definition exec_child :: "('w, 'c, 'k, 'j, 'z) env_scheme \<Rightarrow> string \<Rightarrow> ('w, unit option) state" where
  "exec_child E cmd =
     do { r \<leftarrow> e_execl E [''/bin/sh'', ''sh'', ''-c'', cmd];
          ret (map_option (\<lambda>_. ()) r) }"

definition re_create_process ::
  "('w, 'c, 'k, 'j, 'z) env_scheme \<Rightarrow> pm \<Rightarrow> process_info \<Rightarrow> ('w, (int \<times> process_info) option) state" where
  "re_create_process E pm param =
     do { pid \<leftarrow> e_fork E;
          if pid < 0 then ret (Some (ec REC_ERROR_FORK_FAILED, param))
          else if pid > 0 then
            do { _ \<leftarrow> update_process_info E pm (param\<lparr>pi_pid := pid\<rparr>);
                 ret (Some (ec REC_ERROR_OK, param\<lparr>pi_pid := pid\<rparr>)) }
          else
            do { r \<leftarrow> exec_child E (ffmpeg_cmd ''hls '' (pi_src_url param) (pi_m3u8_path param));
                 ret (map_option (\<lambda>_. (ec REC_ERROR_OK, param)) r) } }"

definition process_reload ::
  "('w, 'c, 'k, 'j, 'z) env_scheme \<Rightarrow> pm \<Rightarrow> process_info \<Rightarrow> ('w, int option) state" where
  "process_reload E pm info =
     do { r \<leftarrow> re_create_process E pm info;
          ret (map_option (\<lambda>_. ec REC_ERROR_OK) r) }"

definition send_message ::
  "('w, 'c, 'k, 'j, 'z) env_scheme \<Rightarrow> pm \<Rightarrow> message option \<Rightarrow> ('w, int option) state" where
  "send_message E pm msg =
     (case msg of
        None \<Rightarrow> ret (Some (ec REC_ERROR_INTERNAL))
      | Some m \<Rightarrow>
          (case msg_type m of MSG_TYPE_SIGCHIL_NOTIFY \<Rightarrow>
             do { (found, info) \<leftarrow> is_process_exist_pid E pm (msg_data m) (fresh_info E);
                  if found
                  then do { r \<leftarrow> process_reload E pm info; ret (map_option (\<lambda>_. ec REC_ERROR_OK) r) }
                  else ret (Some (ec REC_ERROR_OK)) }))"

text \<open>
  \<^verbatim>\<open>sig_reap_chld\<close>, the SIGCHLD handler: every child that \<^verbatim>\<open>waitpid\<close> reaps is a message. The number
  of rounds is bounded by fuel; \<open>Some False\<close> is the loop not yet finished.
\<close>

fun sig_reap_chld :: "('w, 'c, 'k, 'j, 'z) env_scheme \<Rightarrow> pm \<Rightarrow> nat \<Rightarrow> ('w, bool option) state" where
  "sig_reap_chld E pm 0 = ret (Some False)"
| "sig_reap_chld E pm (Suc fuel) =
     do { pid \<leftarrow> e_waitpid E;
          if pid > 0 then
            do { r \<leftarrow> send_message E pm (Some \<lparr>msg_type = MSG_TYPE_SIGCHIL_NOTIFY, msg_data = pid\<rparr>);
                 case r of None \<Rightarrow> ret None | Some _ \<Rightarrow> sig_reap_chld E pm fuel }
          else ret (Some True) }"

definition spawn_process ::
  "('w, 'c, 'k, 'j, 'z) env_scheme \<Rightarrow> pm \<Rightarrow> process_info \<Rightarrow> ('w, (int \<times> process_info) option) state" where
  "spawn_process E pm param =
     do { found \<leftarrow> is_process_exist E pm (pi_sid param);
          if found then ret (Some (ec REC_ERROR_STREAM_EXIST, param))
          else do {
            made \<leftarrow> create_m3u8 E \<lparr>mp_path = pi_m3u8_path param, mp_sid = pi_sid param, mp_file_path = ''''\<rparr>;
            case made of None \<Rightarrow> ret None
            | Some (r, m3u8) \<Rightarrow>
                if r \<noteq> ec REC_ERROR_OK then ret (Some (r, param))
                else do {
                  pid \<leftarrow> e_fork E;
                  if pid < 0 then ret (Some (ec REC_ERROR_FORK_FAILED, param))
                  else if pid > 0 then
                    do { _ \<leftarrow> add_process_to_cache E pm
                               (param\<lparr>pi_pid := pid, pi_m3u8_path := mp_file_path m3u8\<rparr>);
                         ret (Some (ec REC_ERROR_OK,
                               param\<lparr>pi_pid := pid, pi_m3u8_path := mp_file_path m3u8\<rparr>)) }
                  else
                    do { r \<leftarrow> exec_child E (ffmpeg_cmd ''hls'' (pi_src_url param) (mp_file_path m3u8));
                         ret (map_option (\<lambda>_. (ec REC_ERROR_OK, param)) r) } } } }"

definition kill_process ::
  "('w, 'c, 'k, 'j, 'z) env_scheme \<Rightarrow> pm \<Rightarrow> process_info \<Rightarrow> ('w, int) state" where
  "kill_process E pm info =
     do { p \<leftarrow> get_process_info E pm (pi_sid info);
          case p of None \<Rightarrow> ret (ec REC_ERROR_STREAM_NOT_EXIST)
          | Some process \<Rightarrow>
              do { _ \<leftarrow> remove_process_by_stream E pm (pi_sid process);
                   _ \<leftarrow> e_kill E (pi_pid process) SIGINT;
                   ret (ec REC_ERROR_OK) } }"

section \<open>Orphans, queue and threads\<close>

definition check_system_process_exist ::
  "('w, 'c, 'k, 'j, 'z) env_scheme \<Rightarrow> int \<Rightarrow> ('w, bool) state" where
  "check_system_process_exist E pid = do { r \<leftarrow> e_kill E pid 0; ret (r = 0) }"

text \<open>One \<^verbatim>\<open>item\<close> is reused for all records, so a record that does not parse repeats the last one.\<close>

fun collect_orphans ::
  "('w, 'c, 'k, 'j, 'z) env_scheme \<Rightarrow> int \<Rightarrow> process_info \<Rightarrow> string list \<Rightarrow> process_info list" where
  "collect_orphans E pid item [] = []"
| "collect_orphans E pid item (s # vec) =
     (let item' = snd (parser E s item) in
      (if pi_ppid item' \<noteq> pid then [item'] else []) @ collect_orphans E pid item' vec)"

definition find_orphan_process ::
  "('w, 'c, 'k, 'j, 'z) env_scheme \<Rightarrow> pm \<Rightarrow> ('w, int \<times> process_info list) state" where
  "find_orphan_process E pm = with_collection E (db_address pm) (\<lambda>collection.
     do { pid \<leftarrow> e_getpid E;
          (r, vec) \<leftarrow> mongo_find E collection (bson_document ''ppid'' (bson_int32 ''$ne'' pid []) []) [];
          ret (r, collect_orphans E pid (fresh_info E) vec) })"

fun sync_orphans ::
  "('w, 'c, 'k, 'j, 'z) env_scheme \<Rightarrow> pm \<Rightarrow> process_info list \<Rightarrow> ('w, unit option) state" where
  "sync_orphans E pm [] = ret (Some ())"
| "sync_orphans E pm (it # orphan) =
     do { up \<leftarrow> check_system_process_exist E (pi_pid it);
          if \<not> up then
            do { (found, info) \<leftarrow> is_process_exist_pid E pm (pi_pid it) (fresh_info E);
                 if found
                 then do { r \<leftarrow> process_reload E pm info;
                           case r of None \<Rightarrow> ret None | Some _ \<Rightarrow> sync_orphans E pm orphan }
                 else sync_orphans E pm orphan }
          else sync_orphans E pm orphan }"

definition orphan_process_sync ::
  "('w, 'c, 'k, 'j, 'z) env_scheme \<Rightarrow> pm \<Rightarrow> ('w, int option) state" where
  "orphan_process_sync E pm =
     do { (r, orphan) \<leftarrow> find_orphan_process E pm;
          s \<leftarrow> sync_orphans E pm orphan;
          ret (map_option (\<lambda>_. r) s) }"

definition put_data :: "process_info \<Rightarrow> pm \<Rightarrow> int \<times> pm" where
  "put_data param pm = (ec REC_ERROR_OK, pm\<lparr>pm_q := pm_q pm @ [param]\<rparr>)"

text \<open>One round of the inner loop of \<^verbatim>\<open>process_queue\<close>, and the loop until the queue is empty.\<close>

definition process_queue_step ::
  "('w, 'c, 'k, 'j, 'z) env_scheme \<Rightarrow> pm \<Rightarrow> ('w, pm option) state" where
  "process_queue_step E pm =
     (case pm_q pm of [] \<Rightarrow> ret (Some pm)
      | e # rest \<Rightarrow> do { r \<leftarrow> spawn_process E pm e;
                          ret (map_option (\<lambda>_. pm\<lparr>pm_q := rest\<rparr>) r) })"

fun process_queue_drain ::
  "('w, 'c, 'k, 'j, 'z) env_scheme \<Rightarrow> pm \<Rightarrow> process_info list \<Rightarrow> ('w, unit option) state" where
  "process_queue_drain E pm [] = ret (Some ())"
| "process_queue_drain E pm (e # rest) =
     do { r \<leftarrow> spawn_process E pm e;
          case r of None \<Rightarrow> ret None | Some _ \<Rightarrow> process_queue_drain E pm rest }"

text \<open>
  The two threads, for as many rounds as are given: each round of \<^verbatim>\<open>process_queue\<close> finds the requests that
  arrived since the last one, each round of \<^verbatim>\<open>monitor\<close> scans for orphans. \<open>None\<close>: the thread ends below a call.
\<close>

fun process_queue ::
  "('w, 'c, 'k, 'j, 'z) env_scheme \<Rightarrow> pm \<Rightarrow> process_info list list \<Rightarrow> ('w, unit option) state" where
  "process_queue E pm [] = ret (Some ())"
| "process_queue E pm (arrived # later) =
     (if is_running pm
      then do { r \<leftarrow> process_queue_drain E pm arrived;
                case r of None \<Rightarrow> ret None | Some _ \<Rightarrow> process_queue E pm later }
      else ret (Some ()))"

fun monitor :: "('w, 'c, 'k, 'j, 'z) env_scheme \<Rightarrow> pm \<Rightarrow> nat \<Rightarrow> ('w, unit option) state" where
  "monitor E pm 0 = ret (Some ())"
| "monitor E pm (Suc n) =
     (if is_running pm
      then do { r \<leftarrow> orphan_process_sync E pm;
                case r of None \<Rightarrow> ret None | Some _ \<Rightarrow> monitor E pm n }
      else ret (Some ()))"

definition create_monitor_thread :: "('w, 'c, 'k, 'j, 'z) env_scheme \<Rightarrow> ('w, int) state" where
  "create_monitor_thread E = do { r \<leftarrow> e_pthread_create E; ret (if r \<noteq> 0 then 1 else ec REC_ERROR_OK) }"

definition create_process_queue ::
  "('w, 'c, 'k, 'j, 'z) env_scheme \<Rightarrow> pm \<Rightarrow> ('w, int \<times> pm) state" where
  "create_process_queue E pm =
     do { r \<leftarrow> e_pthread_create E;
          ret (if r \<noteq> 0 then 1 else ec REC_ERROR_OK, pm\<lparr>is_running := True\<rparr>) }"

text \<open>\<^verbatim>\<open>initialize\<close> is declared \<^verbatim>\<open>bool\<close> and returns \<^verbatim>\<open>REC_ERROR_OK\<close>, which is \<^verbatim>\<open>false\<close>.\<close>

definition initialize :: "('w, 'c, 'k, 'j, 'z) env_scheme \<Rightarrow> pm \<Rightarrow> ('w, bool \<times> pm) state" where
  "initialize E pm =
     do { _ \<leftarrow> mongo_init E;
          (_, pm') \<leftarrow> create_process_queue E (pm\<lparr>db_address := ''mongodb://localhost:27017''\<rparr>);
          _ \<leftarrow> create_monitor_thread E;
          ret (ec REC_ERROR_OK \<noteq> 0, pm') }"

end
