(* ===== verification/Process_Manager_Proofs.thy ===== *)
theory Process_Manager_Proofs
  imports Process_Manager
begin

text \<open>
  Properties of the process manager. The data base, the operating system and the JSON reader are
  assumed to behave as documented (\<open>laws\<close>); everything is stated on \<open>docs w\<close>, the multiset of
  records in the data base.
\<close>

declare filter_mset_eq_mempty_iff [simp del]

section \<open>Hypotheses on the environment\<close>

definition os_laws ::
  "('w, 'c, 'k, 'j, 'z) env_scheme \<Rightarrow> ('w \<Rightarrow> bson multiset) \<Rightarrow> int \<Rightarrow> bool" where
  "os_laws E docs self \<longleftrightarrow>
     (\<forall>w. docs (snd (run_state (e_fork E) w)) = docs w)
   \<and> (\<forall>a w. docs (snd (run_state (e_execl E a) w)) = docs w)
   \<and> (\<forall>w. docs (snd (run_state (e_waitpid E) w)) = docs w)
   \<and> (\<forall>p s w. docs (snd (run_state (e_kill E p s) w)) = docs w)
   \<and> (\<forall>w. fst (run_state (e_getpid E) w) = self \<and> docs (snd (run_state (e_getpid E) w)) = docs w)
   \<and> (\<forall>f w. docs (snd (run_state (e_opendir E f) w)) = docs w)
   \<and> (\<forall>f w. docs (snd (run_state (e_access E f) w)) = docs w)
   \<and> (\<forall>f w. docs (snd (run_state (e_mkdir E f) w)) = docs w)
   \<and> (\<forall>w. docs (snd (run_state (e_time E) w)) = docs w)
   \<and> (\<forall>f w. docs (snd (run_state (e_open E f) w)) = docs w)
   \<and> (\<forall>f w. docs (snd (run_state (e_chmod E f) w)) = docs w)
   \<and> (\<forall>f w. docs (snd (run_state (e_close E f) w)) = docs w)"

text \<open>The JSON text of a document parses to a value with the same string and integer fields.\<close>

definition json_laws :: "('w, 'c, 'k, 'j, 'z) env_scheme \<Rightarrow> bool" where
  "json_laws E \<longleftrightarrow> (\<forall>d. \<exists>j. json_parse E (cstr (bson_as_json E d)) = Some j
     \<and> (\<forall>f s. map_of d f = Some (BUtf8 s) \<longrightarrow> json_str E j f = Some s)
     \<and> (\<forall>f n. map_of d f = Some (BInt32 n) \<longrightarrow> json_int E j f = Some n))"

definition laws ::
  "('w, 'c, 'k, 'j, 'z) env_scheme \<Rightarrow> ('k \<Rightarrow> bool) \<Rightarrow> ('w \<Rightarrow> bson multiset) \<Rightarrow> int \<Rightarrow> bool" where
  "laws E H docs self \<longleftrightarrow> db_laws E H docs \<and> os_laws E docs self \<and> json_laws E"

section \<open>Records\<close>

definition str_of :: "bson \<Rightarrow> string \<Rightarrow> string" where
  "str_of d f = (case map_of d f of Some (BUtf8 s) \<Rightarrow> s | _ \<Rightarrow> '''')"

definition int_of :: "bson \<Rightarrow> string \<Rightarrow> int" where
  "int_of d f = (case map_of d f of Some (BInt32 n) \<Rightarrow> n | _ \<Rightarrow> 0)"

definition info_of :: "bson \<Rightarrow> process_info" where
  "info_of d = \<lparr>pi_sid = str_of d ''stream_id'', pi_pid = int_of d ''pid'', pi_ppid = int_of d ''ppid'',
     pi_src_url = str_of d ''src_url'', pi_m3u8_path = str_of d ''m3u8_path'',
     pi_type = str_of d ''type'', pi_status = str_of d ''status'', pi_host = str_of d ''host''\<rparr>"

definition rec_ok :: "bson \<Rightarrow> bool" where
  "rec_ok d \<longleftrightarrow> (\<forall>f \<in> {''stream_id'', ''src_url'', ''m3u8_path'', ''type'', ''status'', ''host''}.
       map_of d f = Some (BUtf8 (str_of d f)) \<and> NUL \<notin> set (str_of d f))
     \<and> (\<forall>f \<in> {''pid'', ''ppid''}. map_of d f = Some (BInt32 (int_of d f)))"

definition sid_is :: "string \<Rightarrow> bson \<Rightarrow> bool" where
  "sid_is s d \<longleftrightarrow> map_of d ''stream_id'' = Some (BUtf8 s)"

definition pid_is :: "int \<Rightarrow> bson \<Rightarrow> bool" where
  "pid_is n d \<longleftrightarrow> map_of d ''pid'' = Some (BInt32 n)"

lemma sid_is_rec: "rec_ok d \<Longrightarrow> sid_is s d \<longleftrightarrow> pi_sid (info_of d) = s"
  by (auto simp: rec_ok_def sid_is_def info_of_def)

lemma match_sid: "bson_match (bson_utf8 ''stream_id'' s []) = sid_is (cstr s)"
  by (rule ext) (simp add: bson_match_def bson_utf8_def sid_is_def)

lemma match_pid: "bson_match (bson_int32 ''pid'' n []) = pid_is n"
  by (rule ext) (simp add: bson_match_def bson_int32_def pid_is_def)

lemma parser_ok:
  assumes "json_laws E" "rec_ok d"
  shows "parser E (bson_as_json E d) info = (0, info_of d)"
proof -
  obtain j where j: "json_parse E (cstr (bson_as_json E d)) = Some j"
    and s: "\<And>f s. map_of d f = Some (BUtf8 s) \<Longrightarrow> json_str E j f = Some s"
    and n: "\<And>f n. map_of d f = Some (BInt32 n) \<Longrightarrow> json_int E j f = Some n"
    using assms(1) unfolding json_laws_def by blast
  have "json_str E j f = Some (str_of d f)"
    if "f \<in> {''stream_id'', ''src_url'', ''m3u8_path'', ''type'', ''status'', ''host''}" for f
    using s assms(2) that by (auto simp: rec_ok_def)
  moreover have "json_int E j f = Some (int_of d f)" if "f \<in> {''pid'', ''ppid''}" for f
    using n assms(2) that by (auto simp: rec_ok_def)
  ultimately show ?thesis
    using j by (simp add: parser_def info_of_def)
qed

section \<open>Operations on the collection\<close>

text \<open>The laws one by one.\<close>

lemma db_client:
  "db_laws E H docs \<Longrightarrow> \<exists>c w'. run_state (mongoc_client_new E a) w = (Some c, w') \<and> docs w' = docs w"
  unfolding db_laws_def by (elim conjE) blast

lemma db_destroy:
  "db_laws E H docs \<Longrightarrow> docs (snd (run_state (mongoc_client_destroy E c) w)) = docs w"
  "db_laws E H docs \<Longrightarrow> docs (snd (run_state (mongoc_collection_destroy E k) w)) = docs w"
  unfolding db_laws_def by (elim conjE, blast)+

lemma db_collection:
  "db_laws E H docs \<Longrightarrow>
   \<exists>k w'. run_state (mongoc_client_get_collection E c ''rec_distribute'' ''process_info'') w
      = (Some k, w') \<and> H k \<and> docs w' = docs w"
  unfolding db_laws_def by (elim conjE) blast

lemma db_find:
  "db_laws E H docs \<Longrightarrow> H k \<Longrightarrow> \<exists>ds w'. run_state (mongoc_collection_find E k q) w = (ds, w')
     \<and> mset ds = filter_mset (bson_match q) (docs w) \<and> docs w' = docs w"
  unfolding db_laws_def by (elim conjE) blast

lemma db_insert:
  "db_laws E H docs \<Longrightarrow> H k \<Longrightarrow> \<exists>i w'. run_state (mongoc_collection_insert E k d) w = (True, w')
     \<and> docs w' = add_mset ((''_id'', BOid i) # d) (docs w)"
  unfolding db_laws_def by (elim conjE) blast

lemma db_remove:
  "db_laws E H docs \<Longrightarrow> H k \<Longrightarrow> \<exists>w'. run_state (mongoc_collection_remove E k q) w = (True, w')
     \<and> (if filter_mset (bson_match q) (docs w) = {#} then docs w' = docs w
        else \<exists>d \<in># docs w. bson_match q d \<and> docs w' = docs w - {#d#})"
  by (rule db_laws_def [THEN iffD1, THEN conjunct2, THEN conjunct2, THEN conjunct2, THEN conjunct2, THEN conjunct2, THEN conjunct2, THEN conjunct1, THEN spec, THEN spec, THEN spec, THEN mp])

lemma db_update:
  "db_laws E H docs \<Longrightarrow> H k \<Longrightarrow> \<exists>w'. run_state (mongoc_collection_update E k q u) w = (True, w')
     \<and> (if filter_mset (bson_match q) (docs w) = {#} then docs w' = docs w
        else \<exists>d \<in># docs w. bson_match q d \<and> docs w' = add_mset (bson_set u d) (docs w - {#d#}))"
  by (rule db_laws_def [THEN iffD1, THEN conjunct2, THEN conjunct2, THEN conjunct2, THEN conjunct2, THEN conjunct2, THEN conjunct2, THEN conjunct2, THEN spec, THEN spec, THEN spec, THEN spec, THEN mp])

lemma run_unit: "(\<And>w'. run_state (m :: ('w, unit) state) w = ((), w') \<Longrightarrow> P) \<Longrightarrow> P"
  by (cases "run_state m w") simp

lemma with_collection_run:
  assumes "db_laws E H docs"
  shows "\<exists>k w0 w'. H k \<and> docs w0 = docs w
     \<and> run_state (with_collection E a body) w = (fst (run_state (body (Some k)) w0), w')
     \<and> docs w' = docs (snd (run_state (body (Some k)) w0))"
proof -
  obtain c w1 where c: "run_state (mongoc_client_new E (cstr a)) w = (Some c, w1)" "docs w1 = docs w"
    using db_client [OF assms] by blast
  obtain k w2 where
    k: "run_state (mongoc_client_get_collection E c ''rec_distribute'' ''process_info'') w1 = (Some k, w2)"
      "H k" "docs w2 = docs w1"
    using db_collection [OF assms] by blast
  have d: "docs (snd (run_state (mongoc_collection_destroy E k) v)) = docs v"
    "docs (snd (run_state (mongoc_client_destroy E c) v)) = docs v" for v
    using db_destroy [OF assms] by simp_all
  have "cstr ''rec_distribute'' = ''rec_distribute''" "cstr ''process_info'' = ''process_info''"
    by (simp_all add: cstr_def)
  moreover obtain r w3 where b: "run_state (body (Some k)) w2 = (r, w3)" by fastforce
  moreover obtain w4 where w4: "run_state (mongoc_collection_destroy E k) w3 = ((), w4)"
    by (rule run_unit)
  moreover obtain w5 where w5: "run_state (mongoc_client_destroy E c) w4 = ((), w5)"
    by (rule run_unit)
  ultimately have "run_state (with_collection E a body) w = (r, w5)"
    using c k by (simp add: with_collection_def mongo_connect_def mongo_collection_def
         mongo_collection_release_def mongo_connect_close_def)
  moreover have "docs w5 = docs w3"
    using d(1) [of w3] d(2) [of w4] w4 w5 by simp
  ultimately show ?thesis
    using k c b by (intro exI [of _ k] exI [of _ w2] exI [of _ w5]) simp
qed

lemma findOne_run:
  assumes "db_laws E H docs"
  shows "\<exists>w'. docs w' = docs w \<and>
    (if filter_mset (bson_match q) (docs w) = {#}
     then run_state (with_collection E a (\<lambda>c. mongo_findOne E c q item)) w = ((2, item), w')
     else \<exists>d \<in># docs w. bson_match q d \<and>
       run_state (with_collection E a (\<lambda>c. mongo_findOne E c q item)) w = ((0, bson_as_json E d), w'))"
proof -
  obtain k w0 w' where k: "H k" "docs w0 = docs w"
    "run_state (with_collection E a (\<lambda>c. mongo_findOne E c q item)) w
       = (fst (run_state (mongo_findOne E (Some k) q item) w0), w')"
    "docs w' = docs (snd (run_state (mongo_findOne E (Some k) q item) w0))"
    using with_collection_run [OF assms, of w a "\<lambda>c. mongo_findOne E c q item"] by blast
  obtain ds w1 where f: "run_state (mongoc_collection_find E k q) w0 = (ds, w1)"
    "mset ds = filter_mset (bson_match q) (docs w)" "docs w1 = docs w"
    using db_find [OF assms k(1), of q w0] k(2) by auto
  show ?thesis
  proof (cases ds)
    case Nil
    then show ?thesis using k f by (auto simp: mongo_findOne_def)
  next
    case (Cons d es)
    then have "d \<in># filter_mset (bson_match q) (docs w)" by (simp flip: f(2))
    then show ?thesis using k f Cons by (auto simp: mongo_findOne_def intro!: exI [of _ w'])
  qed
qed
lemma is_process_exist_run:
  assumes "laws E H docs self"
  shows "\<exists>w'. run_state (is_process_exist E pm s) w = (filter_mset (sid_is (cstr s)) (docs w) \<noteq> {#}, w')
     \<and> docs w' = docs w"
proof -
  have "db_laws E H docs" using assms by (simp add: laws_def)
  from findOne_run [OF this, of w "bson_utf8 ''stream_id'' s []" "db_address pm" "[]"]
  show ?thesis unfolding match_sid
    by (cases "filter_mset (sid_is (cstr s)) (docs w) = {#}")
       (auto simp: is_process_exist_def)
qed

lemma get_process_info_run:
  assumes "laws E H docs self" "\<forall>d \<in># docs w. rec_ok d"
  shows "\<exists>w'. docs w' = docs w \<and>
    (if filter_mset (sid_is (cstr s)) (docs w) = {#}
     then run_state (get_process_info E pm s) w = (None, w')
     else \<exists>d \<in># docs w. sid_is (cstr s) d \<and>
       run_state (get_process_info E pm s) w = (Some (info_of d), w'))"
proof -
  have l: "db_laws E H docs" "json_laws E" using assms by (simp_all add: laws_def)
  note p = parser_ok [OF l(2)]
  from findOne_run [OF l(1), of w "bson_utf8 ''stream_id'' s []" "db_address pm" "[]"] assms(2)
  show ?thesis unfolding match_sid get_process_info_def
    by (cases "filter_mset (sid_is (cstr s)) (docs w) = {#}")
       (auto simp: p, metis+)
qed

lemma is_process_exist_pid_run:
  assumes "laws E H docs self" "\<forall>d \<in># docs w. rec_ok d"
  shows "\<exists>w'. docs w' = docs w \<and>
    (if filter_mset (pid_is n) (docs w) = {#}
     then run_state (is_process_exist_pid E pm n info) w = ((False, info), w')
     else \<exists>d \<in># docs w. pid_is n d \<and>
       run_state (is_process_exist_pid E pm n info) w = ((True, info_of d), w'))"
proof -
  have l: "db_laws E H docs" "json_laws E" using assms by (simp_all add: laws_def)
  note p = parser_ok [OF l(2)]
  from findOne_run [OF l(1), of w "bson_int32 ''pid'' n []" "db_address pm" "[]"] assms(2)
  show ?thesis unfolding match_pid is_process_exist_pid_def
    by (cases "filter_mset (pid_is n) (docs w) = {#}")
       (auto simp: p, metis+)
qed

lemma remove_process_by_stream_run:
  assumes "laws E H docs self"
  shows "\<exists>w'. run_state (remove_process_by_stream E pm s) w = (0, w') \<and>
    (if filter_mset (sid_is (cstr s)) (docs w) = {#} then docs w' = docs w
     else \<exists>d \<in># docs w. sid_is (cstr s) d \<and> docs w' = docs w - {#d#})"
proof -
  have db: "db_laws E H docs" using assms by (simp add: laws_def)
  let ?q = "bson_utf8 ''stream_id'' s []"
  let ?body = "\<lambda>c. do { ok \<leftarrow> mongo_remove E c ?q; ret (if \<not> ok then ec REC_ERROR_MONGODB else ec REC_ERROR_OK) }"
  obtain k w0 w' where k: "H k" "docs w0 = docs w"
    "run_state (remove_process_by_stream E pm s) w = (fst (run_state (?body (Some k)) w0), w')"
    "docs w' = docs (snd (run_state (?body (Some k)) w0))"
    using with_collection_run [OF db, of w "db_address pm" ?body]
    unfolding remove_process_by_stream_def by blast
  then show ?thesis
    using db_remove [OF db k(1), of ?q w0] unfolding match_sid k(2) by (auto simp: mongo_remove_def)
qed

lemma update_process_info_run:
  assumes "laws E H docs self"
  shows "\<exists>w'. run_state (update_process_info E pm p) w = (0, w') \<and>
    (if filter_mset (sid_is (cstr (pi_sid p))) (docs w) = {#} then docs w' = docs w
     else \<exists>d \<in># docs w. sid_is (cstr (pi_sid p)) d
        \<and> docs w' = add_mset (AList.update ''pid'' (BInt32 (pi_pid p)) d) (docs w - {#d#}))"
proof -
  have db: "db_laws E H docs" using assms by (simp add: laws_def)
  let ?q = "bson_utf8 ''stream_id'' (pi_sid p) []"
  let ?u = "bson_document ''$set'' (bson_int32 ''pid'' (pi_pid p) []) []"
  let ?body = "\<lambda>c. do { ok \<leftarrow> mongo_update E c ?q ?u;
      ret (if \<not> ok then ec REC_ERROR_MONGODB else ec REC_ERROR_OK) }"
  obtain k w0 w' where k: "H k" "docs w0 = docs w"
    "run_state (update_process_info E pm p) w = (fst (run_state (?body (Some k)) w0), w')"
    "docs w' = docs (snd (run_state (?body (Some k)) w0))"
    using with_collection_run [OF db, of w "db_address pm" ?body]
    unfolding update_process_info_def by blast
  have u: "bson_set ?u = AList.update ''pid'' (BInt32 (pi_pid p))"
    by (rule ext) (simp add: bson_document_def bson_int32_def)
  show ?thesis
    using k db_update [OF db k(1), of ?q ?u w0] unfolding u match_sid k(2)
    by (auto simp: mongo_update_def)
qed

text \<open>The record of a started stream.\<close>

definition new_record :: "nat \<Rightarrow> int \<Rightarrow> process_info \<Rightarrow> bson" where
  "new_record i self p =
     [(''_id'', BOid i), (''stream_id'', BUtf8 (cstr (pi_sid p))), (''pid'', BInt32 (pi_pid p)),
      (''ppid'', BInt32 self), (''src_url'', BUtf8 (cstr (pi_src_url p))),
      (''m3u8_path'', BUtf8 (cstr (pi_m3u8_path p))), (''type'', BUtf8 (cstr (pi_type p))),
      (''status'', BUtf8 ''active''), (''host'', BUtf8 (cstr (pi_host p)))]"

lemma add_process_to_cache_run:
  assumes "laws E H docs self"
  shows "\<exists>i w'. run_state (add_process_to_cache E pm p) w = (0, w')
     \<and> docs w' = add_mset (new_record i self p) (docs w)"
proof -
  have db: "db_laws E H docs" and os: "os_laws E docs self" using assms by (simp_all add: laws_def)
  let ?d = "tl (new_record 0 self p)"
  let ?body = "\<lambda>c. do { self' \<leftarrow> e_getpid E; ok \<leftarrow> mongo_insert E c
     (bson_utf8 ''host'' (pi_host p) (bson_utf8 ''status'' ''active''
            (bson_utf8 ''type'' (pi_type p) (bson_utf8 ''m3u8_path'' (pi_m3u8_path p)
            (bson_utf8 ''src_url'' (pi_src_url p) (bson_int32 ''ppid'' self'
            (bson_int32 ''pid'' (pi_pid p) (bson_utf8 ''stream_id'' (pi_sid p) []))))))));
     ret (if \<not> ok then ec REC_ERROR_MONGODB else ec REC_ERROR_OK) }"
  obtain k w0 w' where k: "H k" "docs w0 = docs w"
    "run_state (add_process_to_cache E pm p) w = (fst (run_state (?body (Some k)) w0), w')"
    "docs w' = docs (snd (run_state (?body (Some k)) w0))"
    using with_collection_run [OF db, of w "db_address pm" ?body]
    unfolding add_process_to_cache_def by blast
  obtain w1 where g: "run_state (e_getpid E) w0 = (self, w1)" "docs w1 = docs w0"
    using os unfolding os_laws_def by (metis prod.collapse)
  obtain i w2 where ins: "run_state (mongoc_collection_insert E k ?d) w1 = (True, w2)"
    "docs w2 = add_mset ((''_id'', BOid i) # ?d) (docs w1)"
    using db_insert [OF db k(1)] by blast
  have "run_state (?body (Some k)) w0 = (0, w2)"
    using g ins(1)
    by (simp add: mongo_insert_def bson_utf8_def bson_int32_def new_record_def)
       (simp add: cstr_def)
  then show ?thesis
    using k g ins(2) by (intro exI [of _ i] exI [of _ w']) (simp add: new_record_def)
qed

section \<open>The invariant of the records\<close>

text \<open>Every record has its fields, and no stream has two records.\<close>

definition db_inv :: "bson multiset \<Rightarrow> bool" where
  "db_inv D \<longleftrightarrow> (\<forall>d \<in># D. rec_ok d) \<and> (\<forall>s. size (filter_mset (sid_is s) D) \<le> 1)"

lemma db_inv_rec: "db_inv D \<Longrightarrow> \<forall>d \<in># D. rec_ok d"
  by (simp add: db_inv_def)

lemma db_inv_remove: "db_inv D \<Longrightarrow> db_inv (D - {#d#})"
  unfolding db_inv_def
  by (auto dest: in_diffD simp: filter_diff_mset)
     (meson diff_subset_eq_self dual_order.trans size_mset_mono)

lemma rec_ok_new [simp]: "rec_ok (new_record i self p)"
  using NUL_not_in_cstr by (auto simp: rec_ok_def new_record_def str_of_def int_of_def)

lemma sid_is_new [simp]: "sid_is s (new_record i self p) \<longleftrightarrow> s = cstr (pi_sid p)"
  by (auto simp: sid_is_def new_record_def)

lemma pid_is_new [simp]: "pid_is n (new_record i self p) \<longleftrightarrow> n = pi_pid p"
  by (auto simp: pid_is_def new_record_def)

lemma db_inv_insert:
  "db_inv D \<Longrightarrow> filter_mset (sid_is (cstr (pi_sid p))) D = {#} \<Longrightarrow> db_inv (add_mset (new_record i self p) D)"
  by (auto simp: db_inv_def)

lemma sid_is_update [simp]: "sid_is s (AList.update ''pid'' v d) = sid_is s d"
  by (simp add: sid_is_def update_conv')

lemma pid_is_update [simp]: "pid_is n (AList.update ''pid'' (BInt32 m) d) \<longleftrightarrow> n = m"
  by (auto simp: pid_is_def update_conv')

lemma info_of_update: "info_of (AList.update ''pid'' (BInt32 n) d) = (info_of d)\<lparr>pi_pid := n\<rparr>"
  by (simp add: info_of_def str_of_def int_of_def update_conv')

lemma rec_ok_update: "rec_ok d \<Longrightarrow> rec_ok (AList.update ''pid'' (BInt32 n) d)"
  by (simp add: rec_ok_def str_of_def int_of_def update_conv')

lemma db_inv_update:
  assumes "db_inv D" "d \<in># D"
  shows "db_inv (add_mset (AList.update ''pid'' (BInt32 n) d) (D - {#d#}))"
proof -
  obtain D' where D: "D = add_mset d D'" using assms(2) by (rule mset_add)
  have "size (filter_mset (sid_is s) (add_mset (AList.update ''pid'' (BInt32 n) d) D'))
      = size (filter_mset (sid_is s) D)" for s
    by (simp add: D)
  moreover have "add_mset (AList.update ''pid'' (BInt32 n) d) (D - {#d#})
      = add_mset (AList.update ''pid'' (BInt32 n) d) D'"
    by (simp add: D)
  ultimately show ?thesis
    using assms(1) rec_ok_update [of d n] by (simp add: db_inv_def) (simp add: D)
qed

section \<open>Operating system calls leave the records alone\<close>

definition keeps :: "('w \<Rightarrow> 'd) \<Rightarrow> ('w, 'a) state \<Rightarrow> bool" where
  "keeps docs m \<longleftrightarrow> (\<forall>w. docs (snd (run_state m w)) = docs w)"

lemma keepsD: "keeps docs m \<Longrightarrow> run_state m w = (a, w') \<Longrightarrow> docs w' = docs w"
  unfolding keeps_def by (metis snd_conv)

lemma keeps_ret [simp, intro]: "keeps docs (ret x)"
  by (simp add: keeps_def)

lemma keeps_bind [intro]: "keeps docs m \<Longrightarrow> (\<And>a. keeps docs (f a)) \<Longrightarrow> keeps docs (State_Monad.bind m f)"
  by (simp add: keeps_def split: prod.splits) (metis snd_conv)

lemma keeps_if [intro]: "keeps docs m \<Longrightarrow> keeps docs n \<Longrightarrow> keeps docs (if b then m else n)"
  by simp

lemma keeps_option [intro]:
  "keeps docs m \<Longrightarrow> (\<And>a. keeps docs (f a)) \<Longrightarrow> keeps docs (case x of None \<Rightarrow> m | Some a \<Rightarrow> f a)"
  by (cases x) simp_all

lemma os_keeps:
  assumes "laws E H docs self"
  shows "keeps docs (e_fork E)" "keeps docs (e_execl E a)" "keeps docs (e_waitpid E)"
    "keeps docs (e_kill E p s)" "keeps docs (e_getpid E)" "keeps docs (e_opendir E f)"
    "keeps docs (e_access E f)" "keeps docs (e_mkdir E f)" "keeps docs (e_time E)"
    "keeps docs (e_open E f)" "keeps docs (e_chmod E f)" "keeps docs (e_close E n)"
  using assms unfolding laws_def os_laws_def keeps_def by (elim conjE, blast)+

lemma mkdir_missing_keeps: "laws E H docs self \<Longrightarrow> keeps docs (mkdir_missing E s)"
  unfolding mkdir_missing_def by (intro keeps_bind keeps_if keeps_ret os_keeps)

lemma multi_mkdir_keeps: "laws E H docs self \<Longrightarrow> keeps docs (multi_mkdir E dir)"
proof -
  assume l: "laws E H docs self"
  have "keeps docs (multi_mkdir_loop E b p)" for b p
    by (induction p arbitrary: b) (simp_all add: keeps_bind mkdir_missing_keeps [OF l])
  then show ?thesis
    unfolding multi_mkdir_def by (intro keeps_bind keeps_if keeps_ret mkdir_missing_keeps [OF l])
qed

lemma create_m3u8_keeps: "laws E H docs self \<Longrightarrow> keeps docs (create_m3u8 E param)"
  unfolding create_m3u8_def
  by (intro keeps_bind keeps_if keeps_option keeps_ret os_keeps multi_mkdir_keeps)

lemma create_m3u8_result:
  "run_state (create_m3u8 E param) w = (Some (r, m), w') \<Longrightarrow> r = 0 \<or> r = 11 \<and> m = param"
  by (auto simp: create_m3u8_def split: prod.splits if_splits option.splits)

lemma exec_child_keeps: "laws E H docs self \<Longrightarrow> keeps docs (exec_child E cmd)"
  unfolding exec_child_def by (intro keeps_bind keeps_ret os_keeps)

section \<open>Starting a stream\<close>

abbreviation registered :: "string \<Rightarrow> bson multiset \<Rightarrow> bool" where
  "registered s D \<equiv> filter_mset (sid_is s) D \<noteq> {#}"

lemma spawn_cases:
  assumes l: "laws E H docs self" and run: "run_state (spawn_process E pm p) w = (r, w')"
  shows "if registered (cstr (pi_sid p)) (docs w)
     then r = Some (1, p) \<and> docs w' = docs w
     else docs w' = docs w \<and> (r = None \<or> r = Some (11, p) \<or> r = Some (4, p) \<or> r = Some (0, p))
       \<or> (\<exists>i n path. 0 < n \<and> r = Some (0, p\<lparr>pi_pid := n, pi_m3u8_path := path\<rparr>)
            \<and> docs w' = add_mset (new_record i self (p\<lparr>pi_pid := n, pi_m3u8_path := path\<rparr>)) (docs w))"
proof -
  let ?m = "\<lparr>mp_path = pi_m3u8_path p, mp_sid = pi_sid p, mp_file_path = ''''\<rparr>"
  obtain w1 where ex: "run_state (is_process_exist E pm (pi_sid p)) w
      = (registered (cstr (pi_sid p)) (docs w), w1)" "docs w1 = docs w"
    using is_process_exist_run [OF l, of pm "pi_sid p" w] by blast
  obtain c w2 where c: "run_state (create_m3u8 E ?m) w1 = (c, w2)" by fastforce
  then have w2: "docs w2 = docs w" using keepsD [OF create_m3u8_keeps [OF l] c] ex(2) by simp
  obtain n w3 where f: "run_state (e_fork E) w2 = (n, w3)" by fastforce
  then have w3: "docs w3 = docs w" using keepsD [OF os_keeps(1) [OF l] f] w2 by simp
  show ?thesis
  proof (cases "registered (cstr (pi_sid p)) (docs w) \<or> c = None \<or> fst (the c) \<noteq> 0 \<or> n < 0")
    case True
    show ?thesis
    proof (cases c)
      case None
      then show ?thesis using run ex c w2 by (auto simp: spawn_process_def split: if_splits)
    next
      case (Some rm)
      then obtain r0 m where rm: "c = Some (r0, m)" by (cases rm) simp
      then have "r0 = 0 \<or> r0 = 11" using create_m3u8_result [of E ?m w1 r0 m w2] c by auto
      then show ?thesis
        using True run ex c w2 f w3 rm by (auto simp: spawn_process_def split: if_splits)
    qed
  next
    case False
    then obtain m where m: "c = Some (0, m)" by (cases c) auto
    have nr: "filter_mset (sid_is (cstr (pi_sid p))) (docs w) = {#}" using False by simp
    show ?thesis
    proof (cases "n = 0")
      case True
      obtain x w4 where x: "run_state (exec_child E (ffmpeg_cmd ''hls'' (pi_src_url p) (mp_file_path m))) w3
          = (x, w4)" by fastforce
      have "docs w4 = docs w" using keepsD [OF exec_child_keeps [OF l] x] w3 by simp
      then show ?thesis
        using run ex c f x True m nr
        by (cases x) (auto simp: spawn_process_def)
    next
      case n: False
      let ?p = "p\<lparr>pi_pid := n, pi_m3u8_path := mp_file_path m\<rparr>"
      obtain i w4 where a: "run_state (add_process_to_cache E pm ?p) w3 = (0, w4)"
        "docs w4 = add_mset (new_record i self ?p) (docs w3)"
        using add_process_to_cache_run [OF l] by blast
      have "r = Some (0, ?p)" "w' = w4"
        using run ex c f a m nr n False
        by (auto simp: spawn_process_def)
      moreover have "0 < n" using n False by auto
      ultimately show ?thesis
        using nr a(2) w3 by (auto intro!: exI [of _ i] exI [of _ n] exI [of _ "mp_file_path m"])
    qed
  qed
qed

lemma spawn_inv:
  assumes "laws E H docs self" "db_inv (docs w)" "run_state (spawn_process E pm p) w = (r, w')"
  shows "db_inv (docs w')"
  using spawn_cases [OF assms(1,3)] assms(2)
    db_inv_insert [of "docs w" "p\<lparr>pi_pid := _, pi_m3u8_path := _\<rparr>"]
  by (auto split: if_splits)

section \<open>Stopping and restarting\<close>

lemma kill_cases:
  assumes l: "laws E H docs self" and inv: "db_inv (docs w)"
  shows "if registered (cstr (pi_sid p)) (docs w)
     then \<exists>d w1. d \<in># docs w \<and> sid_is (cstr (pi_sid p)) d \<and> docs w1 = docs w - {#d#}
        \<and> run_state (kill_process E pm p) w = (0, snd (run_state (e_kill E (pi_pid (info_of d)) SIGINT) w1))
     else \<exists>w'. run_state (kill_process E pm p) w = (5, w') \<and> docs w' = docs w"
proof -
  have recs: "\<forall>d \<in># docs w. rec_ok d" using inv by (rule db_inv_rec)
  let ?s = "cstr (pi_sid p)"
  obtain w1 where w1: "docs w1 = docs w"
    "if filter_mset (sid_is ?s) (docs w) = {#}
     then run_state (get_process_info E pm (pi_sid p)) w = (None, w1)
     else \<exists>d \<in># docs w. sid_is ?s d \<and> run_state (get_process_info E pm (pi_sid p)) w = (Some (info_of d), w1)"
    using get_process_info_run [OF l recs] by blast
  show ?thesis
  proof (cases "filter_mset (sid_is ?s) (docs w) = {#}")
    case True
    then show ?thesis
      using w1 by (auto simp: kill_process_def)
  next
    case False
    then obtain d where d: "d \<in># docs w" "sid_is ?s d"
      "run_state (get_process_info E pm (pi_sid p)) w = (Some (info_of d), w1)"
      using w1 by auto
    have rd: "rec_ok d" using recs d(1) by blast
    have s: "pi_sid (info_of d) = ?s" using sid_is_rec [OF rd, of ?s] d(2) by simp
    have cs: "cstr (pi_sid (info_of d)) = ?s" unfolding s by (simp add: cstr_simps)
    obtain w2 e where w2: "run_state (remove_process_by_stream E pm (pi_sid (info_of d))) w1 = (0, w2)"
      "e \<in># docs w" "sid_is ?s e" "docs w2 = docs w - {#e#}"
      using remove_process_by_stream_run [OF l, of pm "pi_sid (info_of d)" w1] False
      unfolding cs w1(1) by auto
    have "e = d"
    proof (rule ccontr)
      assume "e \<noteq> d"
      then have "{#d, e#} \<subseteq># filter_mset (sid_is ?s) (docs w)"
        using d w2 by (simp add: insert_subset_eq_iff in_diff_count)
      then have "2 \<le> size (filter_mset (sid_is ?s) (docs w))"
        using size_mset_mono by fastforce
      moreover have "size (filter_mset (sid_is ?s) (docs w)) \<le> 1" using inv by (simp add: db_inv_def)
      ultimately show False by simp
    qed
    then show ?thesis
      using False d w2 by (auto simp: kill_process_def split: prod.splits intro!: exI [of _ d] exI [of _ w2])
  qed
qed

lemma kill_inv:
  assumes "laws E H docs self" "db_inv (docs w)" "run_state (kill_process E pm p) w = (r, w')"
  shows "db_inv (docs w')"
proof -
  have k: "docs (snd (run_state (e_kill E n s) v)) = docs v" for n s v
    using os_keeps(4) [OF assms(1)] by (simp add: keeps_def)
  show ?thesis
    using kill_cases [OF assms(1,2), of p pm] assms(2,3) k db_inv_remove
    by (auto split: if_splits)
qed

lemma re_create_cases:
  assumes l: "laws E H docs self" and run: "run_state (re_create_process E pm p) w = (r, w')"
  shows "docs w' = docs w \<and> (r = None \<or> r = Some (4, p) \<or> r = Some (0, p)) \<and> fst (run_state (e_fork E) w) \<le> 0
    \<or> (\<exists>n. 0 < n \<and> n = fst (run_state (e_fork E) w) \<and> r = Some (0, p\<lparr>pi_pid := n\<rparr>)
       \<and> (if registered (cstr (pi_sid p)) (docs w)
          then \<exists>d \<in># docs w. sid_is (cstr (pi_sid p)) d
             \<and> docs w' = add_mset (AList.update ''pid'' (BInt32 n) d) (docs w - {#d#})
          else docs w' = docs w))"
proof -
  obtain n w1 where f: "run_state (e_fork E) w = (n, w1)" by fastforce
  then have w1: "docs w1 = docs w" using keepsD [OF os_keeps(1) [OF l] f] by simp
  obtain x w2 where x: "run_state (exec_child E (ffmpeg_cmd ''hls '' (pi_src_url p) (pi_m3u8_path p))) w1
      = (x, w2)" by fastforce
  have w2: "docs w2 = docs w" using keepsD [OF exec_child_keeps [OF l] x] w1 by simp
  have eqs: "pi_sid (p\<lparr>pi_pid := n\<rparr>) = pi_sid p" "pi_pid (p\<lparr>pi_pid := n\<rparr>) = n" by simp_all
  obtain w3 where u: "run_state (update_process_info E pm (p\<lparr>pi_pid := n\<rparr>)) w1 = (0, w3)"
    "if filter_mset (sid_is (cstr (pi_sid p))) (docs w) = {#} then docs w3 = docs w
     else \<exists>d \<in># docs w. sid_is (cstr (pi_sid p)) d
        \<and> docs w3 = add_mset (AList.update ''pid'' (BInt32 n) d) (docs w - {#d#})"
    using update_process_info_run [OF l, of pm "p\<lparr>pi_pid := n\<rparr>" w1] unfolding w1 eqs by blast
  consider "n < 0" | "n = 0" | "0 < n" by linarith
  then show ?thesis
  proof cases
    case 1
    then show ?thesis using run f w1 by (auto simp: re_create_process_def)
  next
    case 2
    then show ?thesis using run f x w2 by (cases x) (auto simp: re_create_process_def)
  next
    case 3
    then have "r = Some (0, p\<lparr>pi_pid := n\<rparr>)" "w' = w3"
      using run f u(1) by (auto simp: re_create_process_def)
    with 3 u(2) f show ?thesis by (auto split: if_splits)
  qed
qed

lemma re_create_inv:
  assumes "laws E H docs self" "db_inv (docs w)" "run_state (re_create_process E pm p) w = (r, w')"
  shows "db_inv (docs w')"
  using re_create_cases [OF assms(1,3)] assms(2) db_inv_update
  by (auto split: if_splits)

lemma send_message_cases:
  assumes l: "laws E H docs self" and inv: "db_inv (docs w)"
  shows "\<exists>w1. docs w1 = docs w \<and>
    (if filter_mset (pid_is n) (docs w) = {#}
     then run_state (send_message E pm (Some \<lparr>msg_type = MSG_TYPE_SIGCHIL_NOTIFY, msg_data = n\<rparr>)) w = (Some 0, w1)
     else \<exists>d \<in># docs w. pid_is n d \<and>
       run_state (send_message E pm (Some \<lparr>msg_type = MSG_TYPE_SIGCHIL_NOTIFY, msg_data = n\<rparr>)) w
         = (case run_state (re_create_process E pm (info_of d)) w1 of
              (r, w2) \<Rightarrow> (map_option (\<lambda>_. 0) r, w2)))"
proof -
  obtain w1 where w1: "docs w1 = docs w"
    "if filter_mset (pid_is n) (docs w) = {#}
     then run_state (is_process_exist_pid E pm n (fresh_info E)) w = ((False, fresh_info E), w1)
     else \<exists>d \<in># docs w. pid_is n d \<and>
       run_state (is_process_exist_pid E pm n (fresh_info E)) w = ((True, info_of d), w1)"
    using is_process_exist_pid_run [OF l db_inv_rec [OF inv]] by blast
  show ?thesis
  proof (cases "filter_mset (pid_is n) (docs w) = {#}")
    case True
    then show ?thesis using w1 by (auto simp: send_message_def intro!: exI [of _ w1])
  next
    case False
    with w1(2) obtain d where "d \<in># docs w" "pid_is n d"
      "run_state (is_process_exist_pid E pm n (fresh_info E)) w = ((True, info_of d), w1)"
      by auto
    with False w1(1) show ?thesis
      by (auto simp: send_message_def process_reload_def option.map_comp comp_def
          split: prod.splits intro!: exI [of _ w1] bexI [of _ d])
  qed
qed

lemma send_message_inv:
  assumes "laws E H docs self" "db_inv (docs w)" "run_state (send_message E pm msg) w = (r, w')"
  shows "db_inv (docs w')"
proof (cases msg)
  case None
  then show ?thesis using assms by (simp add: send_message_def)
next
  case (Some m)
  have m: "m = \<lparr>msg_type = MSG_TYPE_SIGCHIL_NOTIFY, msg_data = msg_data m\<rparr>"
    by (cases m, cases "msg_type m") simp
  then obtain w1 where "docs w1 = docs w"
    "run_state (send_message E pm msg) w = (Some 0, w1)
     \<or> (\<exists>d. run_state (send_message E pm msg) w
          = (case run_state (re_create_process E pm (info_of d)) w1 of (r, w2) \<Rightarrow> (map_option (\<lambda>_. 0) r, w2)))"
    using send_message_cases [OF assms(1,2), of "msg_data m" pm] unfolding Some
    by (metis (no_types))
  then show ?thesis
    using assms(2,3) re_create_inv [OF assms(1), of w1] by (auto split: prod.splits) (metis prod.exhaust)
qed

lemma sync_orphans_inv:
  assumes l: "laws E H docs self"
  shows "db_inv (docs w) \<Longrightarrow> run_state (sync_orphans E pm os) w = (r, w') \<Longrightarrow> db_inv (docs w')"
proof (induction os arbitrary: w)
  case (Cons it os)
  obtain u w1 where k: "run_state (e_kill E (pi_pid it) 0) w = (u, w1)" by fastforce
  then have w1: "docs w1 = docs w" using keepsD [OF os_keeps(4) [OF l] k] by simp
  obtain b info w2 where p: "run_state (is_process_exist_pid E pm (pi_pid it) (fresh_info E)) w1 = ((b, info), w2)"
    by (metis prod.exhaust)
  have w2: "docs w2 = docs w"
    using is_process_exist_pid_run [OF l, of w1 "pi_pid it" pm "fresh_info E"] db_inv_rec [OF Cons.prems(1)]
      p w1 by (auto split: if_splits)
  obtain x w3 where x: "run_state (re_create_process E pm info) w2 = (x, w3)" by fastforce
  then have "db_inv (docs w3)" using re_create_inv [OF l _ x] w2 Cons.prems(1) by simp
  moreover have "db_inv (docs w1)" "db_inv (docs w2)" using w1 w2 Cons.prems(1) by simp_all
  ultimately show ?case
    using Cons.IH Cons.prems(2) k p x
    by (auto simp: check_system_process_exist_def process_reload_def split: if_splits option.splits)
qed simp

lemma find_orphan_run:
  assumes l: "laws E H docs self" and recs: "\<forall>d \<in># docs w. rec_ok d"
  shows "\<exists>ds w'. run_state (find_orphan_process E pm) w = ((0, map info_of ds), w') \<and> docs w' = docs w
    \<and> mset ds = filter_mset (\<lambda>d. int_of d ''ppid'' \<noteq> self) (docs w)"
proof -
  have db: "db_laws E H docs" and os: "os_laws E docs self" and js: "json_laws E"
    using l by (simp_all add: laws_def)
  let ?q = "\<lambda>pid. bson_document ''ppid'' (bson_int32 ''$ne'' pid []) []"
  let ?body = "\<lambda>c. do { pid \<leftarrow> e_getpid E; (r, vec) \<leftarrow> mongo_find E c (?q pid) [];
     ret (r, collect_orphans E pid (fresh_info E) vec) }"
  obtain k w0 w' where k: "H k" "docs w0 = docs w"
    "run_state (find_orphan_process E pm) w = (fst (run_state (?body (Some k)) w0), w')"
    "docs w' = docs (snd (run_state (?body (Some k)) w0))"
    using with_collection_run [OF db, of w "db_address pm" ?body]
    unfolding find_orphan_process_def by blast
  obtain w1 where g: "run_state (e_getpid E) w0 = (self, w1)" "docs w1 = docs w"
    using os k(2) unfolding os_laws_def by (metis prod.collapse)
  obtain ds w2 where f: "run_state (mongoc_collection_find E k (?q self)) w1 = (ds, w2)"
    "mset ds = filter_mset (bson_match (?q self)) (docs w)" "docs w2 = docs w"
    using db_find [OF db k(1), of "?q self" w1] g(2) by auto
  have m: "bson_match (?q self) d \<longleftrightarrow> int_of d ''ppid'' \<noteq> self" if "rec_ok d" for d
    using that by (auto simp: bson_match_def bson_document_def bson_int32_def rec_ok_def)
  have ds: "mset ds = filter_mset (\<lambda>d. int_of d ''ppid'' \<noteq> self) (docs w)"
    unfolding f(2) using recs m by (intro filter_mset_cong) auto
  have set: "\<forall>d \<in> set ds. rec_ok d \<and> int_of d ''ppid'' \<noteq> self"
    using recs by (auto simp flip: set_mset_mset simp: ds)
  have "collect_orphans E self it (map (bson_as_json E) ds) = map info_of ds" for it
    using set by (induction ds arbitrary: it) (auto simp: parser_ok [OF js] Let_def info_of_def)
  then have "run_state (?body (Some k)) w0 = ((0, map info_of ds), w2)"
    using g f(1) by (simp add: mongo_find_def)
  then show ?thesis using k f(3) ds by (intro exI [of _ ds] exI [of _ w']) simp
qed

lemma orphan_sync_inv:
  assumes "laws E H docs self" "db_inv (docs w)" "run_state (orphan_process_sync E pm) w = (r, w')"
  shows "db_inv (docs w')"
proof -
  obtain ds w1 where "run_state (find_orphan_process E pm) w = ((0, map info_of ds), w1)" "docs w1 = docs w"
    using find_orphan_run [OF assms(1) db_inv_rec [OF assms(2)]] by blast
  then show ?thesis
    using assms sync_orphans_inv [OF assms(1), of w1] by (auto simp: orphan_process_sync_def split: prod.splits)
qed


section \<open>The threads\<close>

text \<open>
  However the requests are spread over the rounds, the thread starts the same processes as one that finds
  them all at once: none is lost, doubled or overtaken.
\<close>

lemma process_queue_drain_append:
  "process_queue_drain E pm (xs @ ys)
    = do { r \<leftarrow> process_queue_drain E pm xs; case r of None \<Rightarrow> State_Monad.return None | Some _ \<Rightarrow> process_queue_drain E pm ys }"
proof (induction xs)
  case (Cons x xs)
  show ?case unfolding append_Cons process_queue_drain.simps Cons.IH
    by (rule state.expand, rule ext) (auto split: option.splits prod.splits)
qed (rule state.expand, rule ext, simp)

lemma process_queue_rounds:
  assumes "is_running pm"
  shows "process_queue E pm rounds = process_queue_drain E pm (concat rounds)"
proof (induction rounds)
  case (Cons arrived later)
  then show ?case using assms by (simp add: process_queue_drain_append)
qed simp

lemma monitor_inv:
  assumes "laws E H docs self" "db_inv (docs w)" "run_state (monitor E pm n) w = (r, w')"
  shows "db_inv (docs w')"
  using assms(2,3)
proof (induction n arbitrary: w)
  case (Suc n)
  obtain x w1 where x: "run_state (orphan_process_sync E pm) w = (x, w1)" by fastforce
  have "db_inv (docs w1)" using orphan_sync_inv [OF assms(1) Suc.prems(1) x] .
  then show ?case using Suc x by (auto split: if_splits option.splits)
qed simp

end
