(* ===== verification/Process_System.thy ===== *)
theory Process_System
  imports Process_Manager_Proofs "HOL-Library.Countable"
begin

text \<open>
  The process manager as a system: the steps of its threads and of the outside world, the
  reachable states, and the properties of streams over them. A small environment with an
  in-memory collection shows that the hypotheses on the environment can hold, and is where the
  concrete instances of the properties are evaluated.
\<close>

section \<open>Steps\<close>

text \<open>
  A state is the manager and the world. The HTTP thread queues a stream or kills one; the queue
  thread takes the first request; SIGCHLD is delivered for a process; the monitor looks for orphans;
  and the world changes by itself without touching the records.
\<close>

inductive pm_step ::
  "('w, 'c, 'k, 'j, 'z) env_scheme \<Rightarrow> ('w \<Rightarrow> bson multiset) \<Rightarrow> pm \<times> 'w \<Rightarrow> pm \<times> 'w \<Rightarrow> bool"
  for E docs where
  put: "put_data p pm = (r, pm') \<Longrightarrow> pm_step E docs (pm, w) (pm', w)"
| queue: "run_state (process_queue_step E pm) w = (Some pm', w') \<Longrightarrow> pm_step E docs (pm, w) (pm', w')"
| kill: "run_state (kill_process E pm p) w = (r, w') \<Longrightarrow> pm_step E docs (pm, w) (pm, w')"
| sigchld: "run_state (send_message E pm msg) w = (Some r, w') \<Longrightarrow> pm_step E docs (pm, w) (pm, w')"
| monitor: "run_state (orphan_process_sync E pm) w = (Some r, w') \<Longrightarrow> pm_step E docs (pm, w) (pm, w')"
| outside: "docs w' = docs w \<Longrightarrow> pm_step E docs (pm, w) (pm, w')"

inductive_cases pm_stepE: "pm_step E docs s s'"

lemma pm_step_inv:
  assumes "laws E H docs self" "pm_step E docs s s'" "db_inv (docs (snd s))"
  shows "db_inv (docs (snd s'))"
  using assms(2,3)
proof (cases rule: pm_step.cases)
  case (queue pm w pm' w')
  then show ?thesis
    using assms(3) spawn_inv [OF assms(1), of w pm]
    by (auto simp: process_queue_step_def split: list.splits prod.splits)
next
  case (kill pm p w r w')
  then show ?thesis using assms(3) kill_inv [OF assms(1), of w pm p r w'] by simp
next
  case (sigchld pm msg w r w')
  then show ?thesis using assms(3) send_message_inv [OF assms(1), of w pm msg] by simp
next
  case (monitor pm w r w')
  then show ?thesis using assms(3) orphan_sync_inv [OF assms(1), of w pm] by simp
qed auto

section \<open>An environment in memory\<close>

instance bval :: countable
  by countable_datatype

record mem =
  m_docs :: "bson list"
  m_next :: int
  m_fork :: "int list"

fun remove_first :: "('a \<Rightarrow> bool) \<Rightarrow> 'a list \<Rightarrow> 'a list" where
  "remove_first P [] = []"
| "remove_first P (x # xs) = (if P x then xs else x # remove_first P xs)"

fun update_first :: "('a \<Rightarrow> bool) \<Rightarrow> ('a \<Rightarrow> 'a) \<Rightarrow> 'a list \<Rightarrow> 'a list" where
  "update_first P f [] = []"
| "update_first P f (x # xs) = (if P x then f x # xs else x # update_first P f xs)"

text \<open>
  The JSON text of the instance is a code of the document; the results of \<^verbatim>\<open>fork\<close> are taken from
  \<open>m_fork\<close> and are process numbers counted up when it is empty.
\<close>

definition mem_env :: "(mem, unit, unit, bson) env" where
  "mem_env = \<lparr>
     mongoc_init = ret (),
     mongoc_client_new = (\<lambda>a. ret (Some ())),
     mongoc_client_destroy = (\<lambda>c. ret ()),
     mongoc_client_get_collection = (\<lambda>c d t. ret (Some ())),
     mongoc_collection_destroy = (\<lambda>k. ret ()),
     mongoc_collection_insert = (\<lambda>k d. State (\<lambda>w.
        (True, w\<lparr>m_docs := ((''_id'', BOid (length (m_docs w))) # d) # m_docs w\<rparr>))),
     mongoc_collection_update = (\<lambda>k q u. State (\<lambda>w.
        (True, w\<lparr>m_docs := update_first (bson_match q) (bson_set u) (m_docs w)\<rparr>))),
     mongoc_collection_remove = (\<lambda>k q. State (\<lambda>w.
        (True, w\<lparr>m_docs := remove_first (bson_match q) (m_docs w)\<rparr>))),
     mongoc_collection_find = (\<lambda>k q. State (\<lambda>w. (filter (bson_match q) (m_docs w), w))),
     bson_as_json = (\<lambda>d. replicate (to_nat d) CHR ''x''),
     e_fork = State (\<lambda>w. case m_fork w of
        [] \<Rightarrow> (m_next w, w\<lparr>m_next := m_next w + 1\<rparr>) | n # ns \<Rightarrow> (n, w\<lparr>m_fork := ns\<rparr>)),
     e_execl = (\<lambda>a. ret (Some (-1))),
     e_waitpid = ret 0,
     e_kill = (\<lambda>p s. ret (if p = 300 then -1 else 0)),
     e_getpid = ret 100,
     e_opendir = (\<lambda>f. ret True),
     e_access = (\<lambda>f. ret 0),
     e_mkdir = (\<lambda>f. ret 0),
     e_time = ret 7,
     e_open = (\<lambda>f. ret 3),
     e_chmod = (\<lambda>f. ret 0),
     e_close = (\<lambda>f. ret 0),
     e_pthread_create = ret 0,
     json_parse = (\<lambda>s. Some (from_nat (length s))),
     json_str = (\<lambda>j f. case map_of j f of Some (BUtf8 s) \<Rightarrow> Some s | _ \<Rightarrow> None),
     json_int = (\<lambda>j f. case map_of j f of Some (BInt32 n) \<Rightarrow> Some n | _ \<Rightarrow> None),
     e_uninit = (0, 0)\<rparr>"

lemma remove_first_mset:
  "if filter_mset P (mset xs) = {#} then mset (remove_first P xs) = mset xs
   else \<exists>x \<in># mset xs. P x \<and> mset (remove_first P xs) = mset xs - {#x#}"
proof (induction xs)
  case (Cons y ys)
  show ?case
  proof (cases "P y \<or> filter_mset P (mset ys) = {#}")
    case True
    with Cons show ?thesis by auto
  next
    case False
    with Cons obtain x where "x \<in># mset ys" "P x" "mset (remove_first P ys) = mset ys - {#x#}"
      by auto
    with False show ?thesis by (auto intro!: bexI [of _ x])
  qed
qed simp

lemma update_first_mset:
  "if filter_mset P (mset xs) = {#} then mset (update_first P f xs) = mset xs
   else \<exists>x \<in># mset xs. P x \<and> mset (update_first P f xs) = add_mset (f x) (mset xs - {#x#})"
proof (induction xs)
  case (Cons y ys)
  show ?case
  proof (cases "P y \<or> filter_mset P (mset ys) = {#}")
    case True
    with Cons show ?thesis by auto
  next
    case False
    with Cons obtain x where "x \<in># mset ys" "P x"
      "mset (update_first P f ys) = add_mset (f x) (mset ys - {#x#})"
      by auto
    with False show ?thesis by (auto intro!: bexI [of _ x])
  qed
qed simp

lemma first_mset:
  "filter_mset P (mset xs) = {#} \<Longrightarrow> mset (remove_first P xs) = mset xs"
  "filter_mset P (mset xs) \<noteq> {#} \<Longrightarrow> \<exists>x \<in> set xs. P x \<and> mset (remove_first P xs) = mset xs - {#x#}"
  "filter_mset P (mset xs) = {#} \<Longrightarrow> mset (update_first P f xs) = mset xs"
  "filter_mset P (mset xs) \<noteq> {#} \<Longrightarrow>
     \<exists>x \<in> set xs. P x \<and> mset (update_first P f xs) = add_mset (f x) (mset xs - {#x#})"
  using remove_first_mset [of P xs] update_first_mset [of P xs f] by simp_all

lemma mem_env_laws: "laws mem_env (\<lambda>_. True) (\<lambda>w. mset (m_docs w)) 100"
proof -
  have x: "cstr (replicate n CHR ''x'') = replicate n CHR ''x''" for n by (rule cstr_id) simp
  have "json_laws mem_env"
    unfolding json_laws_def by (auto simp: mem_env_def x intro!: exI)
  moreover have "os_laws mem_env (\<lambda>w. mset (m_docs w)) 100"
    by (simp add: os_laws_def mem_env_def split: list.split)
  moreover have "db_laws mem_env (\<lambda>_. True) (\<lambda>w. mset (m_docs w))"
    unfolding db_laws_def
    by (simp add: mem_env_def first_mset)
  ultimately show ?thesis by (simp add: laws_def)
qed

definition pm0 :: pm where
  "pm0 = \<lparr>db_address = ''mongodb://localhost:27017'', pm_q = [], is_running = True\<rparr>"

definition cam :: process_info where
  "cam = \<lparr>pi_sid = ''cam'', pi_pid = 0, pi_ppid = 0, pi_src_url = ''rtmp://a'', pi_m3u8_path = ''/rec/'',
     pi_type = ''hls'', pi_status = ''active'', pi_host = ''h''\<rparr>"

definition mem0 :: mem where
  "mem0 = \<lparr>m_docs = [], m_next = 200, m_fork = []\<rparr>"

section \<open>Properties\<close>

lemma mem_inv0: "db_inv (mset (m_docs mem0))"
  by (simp add: db_inv_def mem0_def)

text \<open>
  C11. At most one recorder per stream: in every state that the threads of the program can reach,
  by any interleaving of start requests, stop requests, queue rounds, SIGCHLD deliveries and orphan
  scans, from a data base without duplicates, no stream has two records and every record is
  complete. Hypothesis: the data base, the system and the JSON reader behave as documented.
\<close>

theorem streams_stay_unique:
  assumes "laws E H docs self" "(pm_step E docs)\<^sup>*\<^sup>* (pm, w) (pm', w')" "db_inv (docs w)"
  shows "(\<forall>d \<in># docs w'. rec_ok d) \<and> (\<forall>s. size (filter_mset (sid_is s) (docs w')) \<le> 1)"
proof -
  have "db_inv (docs (snd (pm', w')))"
    using assms(2)
  proof (induction rule: rtranclp_induct)
    case base
    then show ?case using assms(3) by simp
  next
    case (step s s')
    then show ?case using pm_step_inv [OF assms(1)] by blast
  qed
  then show ?thesis by (simp add: db_inv_def)
qed

definition mem1 :: mem where
  "mem1 = \<lparr>m_docs = [new_record 0 100 (cam\<lparr>pi_pid := 200, pi_m3u8_path := ''/rec/cam_7.m3u8''\<rparr>)],
     m_next = 201, m_fork = []\<rparr>"

lemma cam_name: "m3u8_name \<lparr>mp_path = ''/rec/'', mp_sid = ''cam'', mp_file_path = x\<rparr> 7
  = ''/rec/cam_7.m3u8''"
  by code_simp

lemma cam_started:
  "run_state (spawn_process mem_env pm cam) mem0
     = (Some (0, cam\<lparr>pi_pid := 200, pi_m3u8_path := ''/rec/cam_7.m3u8''\<rparr>), mem1)"
  by (simp add: spawn_process_def is_process_exist_def with_collection_def mongo_connect_def
      mongo_collection_def mongo_findOne_def mongo_collection_release_def mongo_connect_close_def
      create_m3u8_def add_process_to_cache_def mongo_insert_def mem_env_def mem0_def mem1_def
      bson_utf8_def bson_int32_def new_record_def cam_def cam_name)
     (simp add: cstr_def)

lemma cam_step: "pm_step mem_env (\<lambda>w. mset (m_docs w)) (pm0\<lparr>pm_q := [cam]\<rparr>, mem0) (pm0, mem1)"
  by (rule pm_step.queue) (simp add: process_queue_step_def cam_started, simp add: pm0_def)

theorem streams_stay_unique_witness:
  "list_all rec_ok (m_docs mem1) \<and> (\<forall>s. size (filter_mset (sid_is s) (mset (m_docs mem1))) \<le> 1)"
proof -
  have "(pm_step mem_env (\<lambda>w. mset (m_docs w)))\<^sup>*\<^sup>* (pm0\<lparr>pm_q := [cam]\<rparr>, mem0) (pm0, mem1)"
    using cam_step by (rule r_into_rtranclp)
  from streams_stay_unique [OF mem_env_laws this mem_inv0] show ?thesis by (simp add: list_all_iff)
qed



text \<open>
  C13. A stopped stream stays stopped. \<^verbatim>\<open>kill_process\<close> on a recorded stream returns
  \<^verbatim>\<open>REC_ERROR_OK\<close>, removes its record first and then sends SIGINT to its process; when that process
  ends and SIGCHLD is delivered for it, the handler finds no record, so it starts nothing and
  changes no record. On a stream without a record the call returns
  \<^verbatim>\<open>REC_ERROR_STREAM_NOT_EXIST\<close> and changes no record. Hypothesis: process numbers are unique.
\<close>

theorem kill_process_quiet:
  assumes "laws E H docs self" "db_inv (docs w)"
    "\<forall>n. size (filter_mset (pid_is n) (docs w)) \<le> 1"
  shows "if registered (cstr (pi_sid p)) (docs w)
    then \<exists>d w1 w'. d \<in># docs w \<and> sid_is (cstr (pi_sid p)) d \<and> docs w1 = docs w - {#d#}
       \<and> run_state (kill_process E pm p) w = (ec REC_ERROR_OK, w')
       \<and> w' = snd (run_state (e_kill E (pi_pid (info_of d)) SIGINT) w1)
       \<and> \<not> registered (cstr (pi_sid p)) (docs w')
       \<and> (\<exists>w''. run_state (send_message E pm
             (Some \<lparr>msg_type = MSG_TYPE_SIGCHIL_NOTIFY, msg_data = pi_pid (info_of d)\<rparr>)) w' = (Some 0, w'')
           \<and> docs w'' = docs w')
    else \<exists>w'. run_state (kill_process E pm p) w = (ec REC_ERROR_STREAM_NOT_EXIST, w') \<and> docs w' = docs w"
proof (cases "registered (cstr (pi_sid p)) (docs w)")
  case True
  then obtain d w1 where d: "d \<in># docs w" "sid_is (cstr (pi_sid p)) d" "docs w1 = docs w - {#d#}"
    and run: "run_state (kill_process E pm p) w
        = (0, snd (run_state (e_kill E (pi_pid (info_of d)) SIGINT) w1))"
    using kill_cases [OF assms(1,2), of p pm] by auto
  let ?n = "pi_pid (info_of d)"
  obtain x w' where k: "run_state (e_kill E ?n SIGINT) w1 = (x, w')" by fastforce
  then have w': "docs w' = docs w - {#d#}" using keepsD [OF os_keeps(4) [OF assms(1)] k] d(3) by simp
  obtain D where D: "docs w = add_mset d D" using d(1) by (rule mset_add)
  have "rec_ok d" using assms(2) d(1) by (simp add: db_inv_def)
  then have pd: "pid_is ?n d" by (simp add: rec_ok_def pid_is_def info_of_def)
  have "size (filter_mset (pid_is ?n) (docs w)) \<le> 1" using assms(3) by blast
  then have p0: "filter_mset (pid_is ?n) (docs w') = {#}" unfolding w' D using pd by simp
  have "size (filter_mset (sid_is (cstr (pi_sid p))) (docs w)) \<le> 1" using assms(2) by (simp add: db_inv_def)
  then have s0: "filter_mset (sid_is (cstr (pi_sid p))) (docs w') = {#}" unfolding w' D using d(2) by simp
  have inv': "db_inv (docs w')" unfolding w' by (rule db_inv_remove [OF assms(2)])
  obtain w'' where "run_state (send_message E pm
       (Some \<lparr>msg_type = MSG_TYPE_SIGCHIL_NOTIFY, msg_data = ?n\<rparr>)) w' = (Some 0, w'')" "docs w'' = docs w'"
    using send_message_cases [OF assms(1) inv', of ?n pm] p0 by auto
  then have "\<exists>w''. run_state (send_message E pm
       (Some \<lparr>msg_type = MSG_TYPE_SIGCHIL_NOTIFY, msg_data = ?n\<rparr>)) w' = (Some 0, w'') \<and> docs w'' = docs w'"
    by blast
  moreover have "run_state (kill_process E pm p) w = (ec REC_ERROR_OK, w')"
    "w' = snd (run_state (e_kill E ?n SIGINT) w1)" using run k by simp_all
  ultimately show ?thesis
    unfolding if_P [OF True] using d s0 by blast
next
  case False
  then show ?thesis using kill_cases [OF assms(1,2), of p pm] by simp
qed

lemma mem1_inv: "db_inv (mset (m_docs mem1))"
  using spawn_inv [OF mem_env_laws mem_inv0 cam_started] by simp

theorem kill_process_quiet_witness:
  "\<exists>d w1 w'. d \<in># mset (m_docs mem1) \<and> sid_is ''cam'' d \<and> mset (m_docs w1) = {#}
     \<and> run_state (kill_process mem_env pm0 cam) mem1 = (ec REC_ERROR_OK, w')
     \<and> w' = snd (run_state (e_kill mem_env (pi_pid (info_of d)) SIGINT) w1)"
proof -
  have s: "cstr (pi_sid cam) = ''cam''" by (simp add: cam_def cstr_def)
  have reg: "registered ''cam'' (mset (m_docs mem1))" by (simp add: mem1_def cam_def cstr_def)
  have "\<forall>n. size (filter_mset (pid_is n) (mset (m_docs mem1))) \<le> 1" by (simp add: mem1_def)
  from kill_process_quiet [OF mem_env_laws mem1_inv this, of cam pm0] reg
  obtain d w1 w' where "d \<in># mset (m_docs mem1)" "sid_is ''cam'' d"
    "mset (m_docs w1) = mset (m_docs mem1) - {#d#}"
    "run_state (kill_process mem_env pm0 cam) mem1 = (ec REC_ERROR_OK, w')"
    "w' = snd (run_state (e_kill mem_env (pi_pid (info_of d)) SIGINT) w1)"
    unfolding s by auto
  moreover have "mset (m_docs mem1) - {#d#} = {#}" using calculation(1) by (simp add: mem1_def)
  ultimately show ?thesis by auto
qed



lemma ppid_update [simp]: "int_of (AList.update ''pid'' v d) ''ppid'' = int_of d ''ppid''"
  by (simp add: int_of_def update_conv')

lemma re_create_ppids:
  assumes "laws E H docs self" "run_state (re_create_process E pm p) w = (r, w')"
  shows "image_mset (\<lambda>d. int_of d ''ppid'') (docs w') = image_mset (\<lambda>d. int_of d ''ppid'') (docs w)"
  using re_create_cases [OF assms] by (auto split: if_splits dest!: multi_member_split)

lemma sync_orphans_ppids:
  assumes l: "laws E H docs self"
  shows "db_inv (docs w) \<Longrightarrow> run_state (sync_orphans E pm os) w = (r, w') \<Longrightarrow>
    image_mset (\<lambda>d. int_of d ''ppid'') (docs w') = image_mset (\<lambda>d. int_of d ''ppid'') (docs w)"
proof (induction os arbitrary: w)
  case (Cons it os)
  obtain u w1 where k: "run_state (e_kill E (pi_pid it) 0) w = (u, w1)" by fastforce
  then have w1: "docs w1 = docs w" using keepsD [OF os_keeps(4) [OF l] k] by simp
  obtain b info w2 where p: "run_state (is_process_exist_pid E pm (pi_pid it) (fresh_info E)) w1 = ((b, info), w2)"
    by (metis prod.exhaust)
  have w2: "docs w2 = docs w"
    using is_process_exist_pid_run [OF l, of w1 "pi_pid it" pm "fresh_info E"] db_inv_rec [OF Cons.prems(1)]
      p w1 by (auto split: if_splits)
  obtain x w3 where x: "run_state (re_create_process E pm info) w2 = (x, w3)" by fastforce
  have "db_inv (docs w1)" "db_inv (docs w2)" "db_inv (docs w3)"
    using re_create_inv [OF l _ x] w1 w2 Cons.prems(1) by simp_all
  then have "image_mset (\<lambda>d. int_of d ''ppid'') (docs w') = image_mset (\<lambda>d. int_of d ''ppid'') (docs v)"
    if "run_state (sync_orphans E pm os) v = (r, w')" "v \<in> {w1, w2, w3}" for v
    using Cons.IH that by auto
  then show ?case
    using Cons.prems(2) k p x re_create_ppids [OF l x] w1 w2
    by (auto simp: check_system_process_exist_def process_reload_def split: if_splits option.splits)
qed simp

text \<open>
  C15. The orphan scan finds exactly the records of other servers, and restarting them does not
  adopt them: \<^verbatim>\<open>find_orphan_process\<close> returns the records whose parent is not this server, and
  \<^verbatim>\<open>orphan_process_sync\<close> changes the parent of no record, because \<^verbatim>\<open>update_process_info\<close> sets only
  \<^verbatim>\<open>pid\<close>. A stream restarted by the monitor is therefore an orphan again at the next scan.
\<close>

theorem orphans_stay_orphans:
  assumes "laws E H docs self" "db_inv (docs w)"
  shows "(\<exists>ds w'. run_state (find_orphan_process E pm) w = ((ec REC_ERROR_OK, map info_of ds), w')
       \<and> docs w' = docs w \<and> mset ds = filter_mset (\<lambda>d. int_of d ''ppid'' \<noteq> self) (docs w))
    \<and> (\<forall>r w'. run_state (orphan_process_sync E pm) w = (r, w') \<longrightarrow>
         image_mset (\<lambda>d. int_of d ''ppid'') (docs w') = image_mset (\<lambda>d. int_of d ''ppid'') (docs w))"
proof -
  obtain ds w1 where f: "run_state (find_orphan_process E pm) w = ((0, map info_of ds), w1)"
    "docs w1 = docs w" "mset ds = filter_mset (\<lambda>d. int_of d ''ppid'' \<noteq> self) (docs w)"
    using find_orphan_run [OF assms(1) db_inv_rec [OF assms(2)]] by blast
  have "image_mset (\<lambda>d. int_of d ''ppid'') (docs w') = image_mset (\<lambda>d. int_of d ''ppid'') (docs w)"
    if run: "run_state (orphan_process_sync E pm) w = (r, w')" for r w'
  proof -
    obtain s where "run_state (sync_orphans E pm (map info_of ds)) w1 = (s, w')"
      using run f(1) by (cases "run_state (sync_orphans E pm (map info_of ds)) w1")
        (auto simp: orphan_process_sync_def)
    from sync_orphans_ppids [OF assms(1) _ this] show ?thesis using f(2) assms(2) by simp
  qed
  with f show ?thesis by auto
qed

theorem orphans_stay_orphans_witness:
  "\<exists>ds w'. run_state (find_orphan_process mem_env pm0) mem1 = ((ec REC_ERROR_OK, map info_of ds), w')
     \<and> mset ds = filter_mset (\<lambda>d. int_of d ''ppid'' \<noteq> 100) (mset (m_docs mem1))"
  using orphans_stay_orphans [OF mem_env_laws mem1_inv, of pm0] by blast

text \<open>
  A failed \<^verbatim>\<open>execl\<close> leaves a second server: in the child of \<^verbatim>\<open>re_create_process\<close>, when
  \<^verbatim>\<open>execl\<close> returns, the function returns \<^verbatim>\<open>REC_ERROR_OK\<close> to its caller instead of ending the
  process, and \<^verbatim>\<open>send_message\<close> and the signal handler go on in the child. Only a replaced process
  image does not come back.
\<close>

theorem exec_failure_returns:
  assumes "run_state (e_fork E) w = (0, w1)"
    "run_state (e_execl E [''/bin/sh'', ''sh'', ''-c'',
        ffmpeg_cmd ''hls '' (pi_src_url p) (pi_m3u8_path p)]) w1 = (x, w2)"
  shows "run_state (re_create_process E pm p) w
    = ((case x of None \<Rightarrow> None | Some e \<Rightarrow> Some (ec REC_ERROR_OK, p)), w2)"
  using assms by (simp add: re_create_process_def exec_child_def split: option.split)

theorem exec_failure_returns_witness:
  "run_state (re_create_process mem_env pm0 cam) (mem0\<lparr>m_fork := [0]\<rparr>)
     = (Some (ec REC_ERROR_OK, cam), mem0)"
proof -
  have f: "run_state (e_fork mem_env) (mem0\<lparr>m_fork := [0]\<rparr>) = (0, mem0)"
    by (simp add: mem_env_def mem0_def)
  have e: "run_state (e_execl mem_env a) mem0 = (Some (-1), mem0)" for a
    by (simp add: mem_env_def)
  show ?thesis using exec_failure_returns [OF f e, of pm0] by simp
qed

end
