(* ===== verification/Pconf.thy ===== *)
theory Pconf
  imports P_String
begin

text \<open>
  The configuration reader of \<^verbatim>\<open>src/src/conf/pconf.cpp\<close> and \<^verbatim>\<open>pconf.h\<close>: the scanner
  (\<open>jumpcomment\<close>, \<open>jumpspace\<close>, \<open>find_valid_name\<close>, \<open>find_valid_value\<close>,
  \<open>find_valid_array_value\<close>), the recursive-descent parser (\<open>parse_main\<close>, \<open>parse_smodlh\<close>,
  \<open>parse_arraylh\<close>, \<open>parse\<close>) and the look-ups on the tree it builds.

  A pointer into the buffer is the suffix of the file it points at, so \<open>p < end\<close> is \<open>p \<noteq> []\<close> and
  the cell at \<^verbatim>\<open>end\<close> is the \<^verbatim>\<open>'\0'\<close> to which the buffer was cleared. A parser returns the pointer
  it returns (\<open>None\<close> for \<^verbatim>\<open>NULL\<close>), the members it changes (\<open>linenum\<close>, \<open>level\<close>) and the node it
  was given, filled in, together with the nodes it linked behind it.
\<close>

section \<open>Data\<close>

datatype CNT_E = empty_t | char_t | subnode_t | proc_mod_t | array_t | array_ele | cmd_t

datatype CN_S =
  CN (modn: string) (var: string) (ntype: CNT_E) (smodlh: "CN_S option") (nxt: "CN_S option")

record pst =
  linenum :: int
  level :: int

definition CONF_NAMEL :: int where "CONF_NAMEL = 64"
definition CONF_VARL :: int where "CONF_VARL = 128"

text \<open>
  What C leaves undetermined, as an argument of the model: the cells in front of the two tables,
  which a byte above 127 (a negative \<^verbatim>\<open>char\<close>) selects, and whether the uninitialised local
  \<^verbatim>\<open>name\<close> of \<^verbatim>\<open>parse_main\<close> happens to be \<^verbatim>\<open>NULL\<close> in the iteration that starts at a pointer.
\<close>

record ub =
  tab_name :: "char \<Rightarrow> bool"
  tab_value :: "char \<Rightarrow> bool"
  name_null :: "string \<Rightarrow> bool"

text \<open>An output argument \<^verbatim>\<open>char ** o\<close> (with \<^verbatim>\<open>len\<close>): not written, \<^verbatim>\<open>NULL\<close>, or a piece of the buffer.\<close>

datatype outp = Unset | Null | Str string

definition bvalidname :: "bool list" where
  "bvalidname = map (\<lambda>n. n = (1::nat))
    [0,0,0,0,0,0,0,0,
     0,0,0,0,0,0,0,0,
     0,0,0,0,0,0,0,0,
     0,0,0,0,0,0,0,0,
     0,0,0,0,0,0,0,0,
     0,0,0,0,0,0,0,0,
     1,1,1,1,1,1,1,1,
     1,1,1,0,0,0,0,0,
     1,1,1,1,1,1,1,1,
     1,1,1,1,1,1,1,1,
     1,1,1,1,1,1,1,1,
     1,1,1,0,0,0,0,1,
     0,1,1,1,1,1,1,1,
     1,1,1,1,1,1,1,1,
     1,1,1,1,1,1,1,1,
     1,1,1,0,0,0,0,0]"

definition bvalidvalue :: "bool list" where
  "bvalidvalue = map (\<lambda>n. n = (1::nat))
    [0,0,0,0,0,0,0,0,
     0,0,0,0,0,0,0,0,
     0,0,0,0,0,0,0,0,
     0,0,0,0,0,0,0,0,
     0,1,1,1,1,1,1,1,
     1,1,1,1,0,1,1,1,
     1,1,1,1,1,1,1,1,
     1,1,1,0,1,1,1,1,
     1,1,1,1,1,1,1,1,
     1,1,1,1,1,1,1,1,
     1,1,1,1,1,1,1,1,
     1,1,1,0,1,0,1,1,
     1,1,1,1,1,1,1,1,
     1,1,1,1,1,1,1,1,
     1,1,1,1,1,1,1,1,
     1,1,1,1,1,1,1,0]"

section \<open>Scanner\<close>

definition keyword_list :: "string list" where
  "keyword_list = [''proc'']"

text \<open>\<^verbatim>\<open>CNT_E(proc_mod_t + i)\<close>: the enumerator with that number.\<close>

definition cnt_of_nat :: "nat \<Rightarrow> CNT_E" where
  "cnt_of_nat n = [empty_t, char_t, subnode_t, proc_mod_t, array_t, array_ele, cmd_t] ! n"

fun check_keyword_from :: "nat \<Rightarrow> string list \<Rightarrow> string \<Rightarrow> CNT_E" where
  "check_keyword_from i [] name = char_t"
| "check_keyword_from i (k # ks) name =
     (if name = k then cnt_of_nat (3 + i) else check_keyword_from (Suc i) ks name)"

definition check_keyword :: "string \<Rightarrow> CNT_E" where
  "check_keyword name = check_keyword_from 0 keyword_list name"

definition validname :: "ub \<Rightarrow> char \<Rightarrow> bool" where
  "validname u c = (if of_char c < (128::nat) then bvalidname ! of_char c else tab_name u c)"

definition validvalue :: "ub \<Rightarrow> char \<Rightarrow> bool" where
  "validvalue u c = (if of_char c < (128::nat) then bvalidvalue ! of_char c else tab_value u c)"

abbreviation NL :: char where "NL \<equiv> CHR 0x0A"

function jumpcomment :: "string \<Rightarrow> int \<Rightarrow> string \<times> int" where
  "jumpcomment p ln =
     (if deref p = CHR ''#''
      then let q = dropWhile (\<lambda>c. c \<noteq> NL) p in
           if q = [] then (q, ln) else jumpcomment (tl q) (ln + 1)
      else (p, ln))"
  by pat_completeness auto
termination
  by (relation "measure (\<lambda>(p, ln). length p)")
     (auto simp del: length_tl intro!: length_tl_dropWhile_less)

declare jumpcomment.simps [simp del]

lemma length_jumpcomment: "length (fst (jumpcomment p ln)) \<le> length p"
proof (induction p ln rule: jumpcomment.induct)
  case (1 p ln)
  let ?q = "dropWhile (\<lambda>c. c \<noteq> NL) p"
  have "length ?q \<le> length p" by (rule length_dropWhile_le)
  then show ?case
    using "1.IH" [OF _ refl] by (subst jumpcomment.simps) (auto simp: Let_def)
qed

lemma length_jumpcomment_less:
  "deref p = CHR ''#'' \<Longrightarrow> length (fst (jumpcomment p ln)) < length p"
proof -
  assume p: "deref p = CHR ''#''"
  let ?q = "dropWhile (\<lambda>c. c \<noteq> NL) p"
  from p have ne: "p \<noteq> []" by auto
  have eq: "jumpcomment p ln = (if ?q = [] then (?q, ln) else jumpcomment (tl ?q) (ln + 1))"
    by (simp only: jumpcomment.simps [of p ln] p Let_def refl if_True)
  show ?thesis
  proof (cases "?q = []")
    case True
    then show ?thesis unfolding eq using ne by (simp del: dropWhile_eq_Nil_conv)
  next
    case False
    have "length (fst (jumpcomment (tl ?q) (ln + 1))) \<le> length (tl ?q)"
      by (rule length_jumpcomment)
    also have "\<dots> < length p"
      using ne by (rule length_tl_dropWhile_less)
    finally show ?thesis unfolding eq using False by (simp only: if_False)
  qed
qed

function jumpspace :: "string \<Rightarrow> int \<Rightarrow> string \<times> int" where
  "jumpspace [] ln = ([], ln)"
| "jumpspace (ch # p) ln =
     (if ch = CHR '' '' \<or> ch = CHR 0x09 \<or> ch = CHR 0x0D then jumpspace p ln
      else if ch = NL then jumpspace p (ln + 1)
      else if ch = CHR ''#'' then (case jumpcomment (ch # p) ln of (q, ln') \<Rightarrow> jumpspace q ln')
      else (ch # p, ln))"
  by pat_completeness auto
termination
proof (relation "measure (\<lambda>(p, ln). length p)", goal_cases)
  case (4 ch p ln q ln')
  then have "jumpcomment (ch # p) ln = (q, ln')" by simp
  then show ?case
    using 4(3) length_jumpcomment_less [of "ch # p" ln] by simp
qed simp_all

lemma length_jumpspace: "length (fst (jumpspace p ln)) \<le> length p"
proof (induction p ln rule: jumpspace.induct)
  case (2 ch p ln)
  obtain q ln' where q: "jumpcomment (ch # p) ln = (q, ln')" by fastforce
  with length_jumpcomment [of "ch # p" ln] have "length q \<le> Suc (length p)" by simp
  then show ?case
    using "2.IH"(1,2) "2.IH"(3) [OF _ _ _ q [symmetric]] q
    by (cases "ch = CHR ''#''") auto
qed simp

definition find_valid_name :: "ub \<Rightarrow> string \<Rightarrow> int \<Rightarrow> string \<times> int \<times> outp" where
  "find_valid_name u p ln =
     (case jumpspace p ln of (p, ln) \<Rightarrow>
      if p = [] then (p, ln, Unset)
      else if \<not> validname u (deref p) then (p, ln, Null)
      else (dropWhile (validname u) p, ln, Str (takeWhile (validname u) p)))"

definition find_valid_value :: "ub \<Rightarrow> string \<Rightarrow> int \<Rightarrow> string \<times> int \<times> outp" where
  "find_valid_value u p ln =
     (case jumpspace p ln of (p, ln) \<Rightarrow>
      if p = [] then (p, ln, Unset)
      else if \<not> validvalue u (deref p) then (p, ln, Null)
      else
        (case jumpspace (dropWhile (validvalue u) p) ln of (q, ln') \<Rightarrow>
         if deref q \<noteq> CHR '';'' then (q, ln', Null)
         else (tl q, ln', Str (takeWhile (validvalue u) p))))"

definition find_valid_array_value :: "ub \<Rightarrow> string \<Rightarrow> int \<Rightarrow> string \<times> int \<times> outp" where
  "find_valid_array_value u p ln =
     (case jumpspace p ln of (p, ln) \<Rightarrow>
      if p = [] then (p, ln, Unset)
      else if \<not> validvalue u (deref p) then (p, ln, Null)
      else
        (case jumpspace (dropWhile (validvalue u) p) ln of (q, ln') \<Rightarrow>
           (q, ln', Str (takeWhile (validvalue u) p))))"

text \<open>The look-ahead tests scan over blanks too, and so advance \<open>linenum\<close> as a side effect.\<close>

definition is_sub_node :: "string \<Rightarrow> int \<Rightarrow> bool \<times> int" where
  "is_sub_node p ln = (case jumpspace p ln of (q, ln') \<Rightarrow> (q \<noteq> [] \<and> deref q = CHR ''{'', ln'))"

definition is_array_node :: "string \<Rightarrow> int \<Rightarrow> bool \<times> int" where
  "is_array_node p ln = (case jumpspace p ln of (q, ln') \<Rightarrow> (q \<noteq> [] \<and> deref q = CHR ''['', ln'))"

lemma length_dropWhile_less: "P (deref p) \<Longrightarrow> p \<noteq> [] \<Longrightarrow> length (dropWhile P p) < length p"
  by (cases p) (auto simp: le_imp_less_Suc length_dropWhile_le)

lemma find_valid_name_shorter:
  assumes "find_valid_name u p ln = (q, ln', Str name)"
  shows "length q < length p"
proof -
  obtain r ln1 where r: "jumpspace p ln = (r, ln1)" by fastforce
  with assms have "validname u (deref r)" "r \<noteq> []" "q = dropWhile (validname u) r"
    by (auto simp: find_valid_name_def split: prod.splits if_splits)
  with length_dropWhile_less [of "validname u" r] length_jumpspace [of p ln] r show ?thesis
    by simp
qed

lemma length_after_value:
  assumes "validvalue u (deref p)" "p \<noteq> []"
  shows "length (fst (jumpspace (dropWhile (validvalue u) p) ln)) < length p"
  using length_jumpspace [of "dropWhile (validvalue u) p" ln]
    length_dropWhile_less [of "validvalue u" p] assms
  by linarith

lemma find_valid_value_shorter:
  assumes "find_valid_value u p ln = (q, ln', Str v)"
  shows "length q < length p"
proof -
  obtain r ln1 where r: "jumpspace p ln = (r, ln1)" by fastforce
  with assms have v: "validvalue u (deref r)" "r \<noteq> []"
    by (auto simp: find_valid_value_def split: prod.splits if_splits)
  with assms r have "length q \<le> length (fst (jumpspace (dropWhile (validvalue u) r) ln1))"
    by (auto simp: find_valid_value_def split: prod.splits if_splits)
  with length_after_value [OF v, of ln1] length_jumpspace [of p ln] r show ?thesis by simp
qed

lemma find_valid_array_value_shorter:
  assumes "find_valid_array_value u p ln = (q, ln', Str v)"
  shows "length q < length p"
proof -
  obtain r ln1 where r: "jumpspace p ln = (r, ln1)" by fastforce
  with assms have v: "validvalue u (deref r)" "r \<noteq> []"
    by (auto simp: find_valid_array_value_def split: prod.splits if_splits)
  with assms r have "q = fst (jumpspace (dropWhile (validvalue u) r) ln1)"
    by (auto simp: find_valid_array_value_def split: prod.splits if_splits)
  with length_after_value [OF v, of ln1] length_jumpspace [of p ln] r show ?thesis by simp
qed

section \<open>Parser\<close>

definition new_node :: CN_S where
  "new_node = CN '''' '''' empty_t None None"

text \<open>\<^verbatim>\<open>rc_strncpy(mc->modn, CONF_NAMEL, name, name_len)\<close> and the same for \<^verbatim>\<open>var\<close>, on the C strings.\<close>

definition name_copy :: "string \<Rightarrow> string" where
  "name_copy s = bounded_copy CONF_NAMEL s (int (length s))"

definition var_copy :: "string \<Rightarrow> string" where
  "var_copy s = bounded_copy CONF_VARL s (int (length s))"

function parse_arraylh_loop ::
  "ub \<Rightarrow> string \<Rightarrow> bool \<Rightarrow> pst \<Rightarrow> string option \<times> pst \<times> CN_S" where
  "parse_arraylh_loop u p common_need st =
     (if p = [] then (Some p, st, new_node)
      else case jumpspace p (linenum st) of (p1, ln1) \<Rightarrow>
        if p1 = [] then (None, st\<lparr>linenum := ln1\<rparr>, new_node)
        else if deref p1 = CHR '']''
             then (Some (tl p1), st\<lparr>linenum := ln1, level := level st - 1\<rparr>, new_node)
        else if common_need \<and> deref p1 \<noteq> CHR '','' then (None, st\<lparr>linenum := ln1\<rparr>, new_node)
        else case find_valid_array_value u (if common_need then tl p1 else p1) ln1 of
          (p2, ln2, value) \<Rightarrow>
            (case value of
               Str v \<Rightarrow>
                 if p2 = [] then (None, st\<lparr>linenum := ln2\<rparr>, new_node)
                 else (case parse_arraylh_loop u p2 True (st\<lparr>linenum := ln2\<rparr>) of
                         (r, st', rest) \<Rightarrow> (r, st', CN '''' (var_copy v) array_ele None (Some rest)))
             | _ \<Rightarrow> (None, st\<lparr>linenum := ln2\<rparr>, new_node)))"
  by pat_completeness auto
termination
proof (relation "measure (\<lambda>(u, p, c, st). length p)", goal_cases)
  case (2 u p common_need st p1 ln1 p2 y ln2 out v)
  then have js: "jumpspace p (linenum st) = (p1, ln1)"
    and fv: "find_valid_array_value u (if common_need then tl p1 else p1) ln1 = (p2, ln2, Str v)"
    by simp_all
  from js length_jumpspace [of p "linenum st"] have "length p1 \<le> length p" by simp
  with find_valid_array_value_shorter [OF fv] show ?case
    by (auto split: if_splits)
qed simp

declare parse_arraylh_loop.simps [simp del]

definition parse_arraylh :: "ub \<Rightarrow> string \<Rightarrow> pst \<Rightarrow> string option \<times> pst \<times> CN_S" where
  "parse_arraylh u p st = parse_arraylh_loop u p False (st\<lparr>level := level st + 1\<rparr>)"

lemma parse_arraylh_loop_shorter:
  "parse_arraylh_loop u p c st = (Some q, st', n) \<Longrightarrow> length q \<le> length p"
proof (induction u p c st arbitrary: q st' n rule: parse_arraylh_loop.induct)
  case (1 u p c st)
  obtain p1 ln1 where js: "jumpspace p (linenum st) = (p1, ln1)" by fastforce
  then have p1: "length p1 \<le> length p" using length_jumpspace [of p "linenum st"] by simp
  obtain p2 ln2 out where
    fv: "find_valid_array_value u (if c then tl p1 else p1) ln1 = (p2, ln2, out)"
    by (metis prod_cases3)
  show ?case
  proof (cases "p = [] \<or> p1 = [] \<or> deref p1 = CHR '']'' \<or> (c \<and> deref p1 \<noteq> CHR '','')")
    case True
    with "1.prems" js p1 show ?thesis
      by (subst (asm) parse_arraylh_loop.simps) (auto split: if_splits)
  next
    case False
    with "1.prems" js fv obtain v r st1 rest where out: "out = Str v" "p2 \<noteq> []"
      and rec: "parse_arraylh_loop u p2 True (st\<lparr>linenum := ln2\<rparr>) = (r, st1, rest)" "r = Some q"
      by (subst (asm) parse_arraylh_loop.simps) (auto split: outp.splits if_splits prod.splits)
    have "length q \<le> length p2"
      using "1.IH" [OF _ js [symmetric] _ _ _ fv [symmetric] refl out(1) out(2)] False rec
      by simp
    with find_valid_array_value_shorter [OF fv [unfolded out]] p1 show ?thesis
      by (auto split: if_splits)
  qed
qed

lemma parse_arraylh_shorter: "parse_arraylh u p st = (Some q, st', n) \<Longrightarrow> length q \<le> length p"
  unfolding parse_arraylh_def by (rule parse_arraylh_loop_shorter)

text \<open>
  One iteration of the loops of \<^verbatim>\<open>parse_smodlh\<close> and \<^verbatim>\<open>parse_main\<close> scans an item: it ends the
  function (\<open>Stop\<close>, with the returned pointer and the node as it is then), or finds the head of a
  sub-module, of an array or of a \<^verbatim>\<open>proc\<close> block (with the pointer behind the bracket), or a
  whole \<open>name value;\<close>. The loops then recurse on what the item calls for.
\<close>

datatype item =
    Stop "string option" pst CN_S
  | Sub string string pst
  | Arr string string pst
  | Proc string string pst
  | Val string string string pst

definition after_bracket :: "string \<Rightarrow> int \<Rightarrow> pst \<Rightarrow> string \<times> pst" where
  "after_bracket p ln st = (case jumpspace p ln of (q, ln') \<Rightarrow> (tl q, st\<lparr>linenum := ln'\<rparr>))"

definition value_item :: "ub \<Rightarrow> string \<Rightarrow> string \<Rightarrow> int \<Rightarrow> pst \<Rightarrow> item" where
  "value_item u name p ln st =
     (case find_valid_value u p ln of (q, ln', vout) \<Rightarrow>
        (case vout of
           Str v \<Rightarrow> if q = [] then Stop None (st\<lparr>linenum := ln'\<rparr>) (CN (name_copy name) '''' char_t None None)
                    else Val name v q (st\<lparr>linenum := ln'\<rparr>)
         | _ \<Rightarrow> Stop None (st\<lparr>linenum := ln'\<rparr>) (CN (name_copy name) '''' char_t None None)))"

definition smodlh_item :: "ub \<Rightarrow> string \<Rightarrow> pst \<Rightarrow> item" where
  "smodlh_item u p st =
     (if p = [] then Stop (Some p) st new_node
      else case jumpspace p (linenum st) of (p1, ln1) \<Rightarrow>
        if p1 = [] then Stop None (st\<lparr>linenum := ln1\<rparr>) new_node
        else if deref p1 = CHR ''}''
             then Stop (Some (tl p1)) (st\<lparr>linenum := ln1, level := level st - 1\<rparr>) new_node
        else case find_valid_name u p1 ln1 of (p2, ln2, out) \<Rightarrow>
          (case out of
             Str name \<Rightarrow>
               if p2 = [] then Stop None (st\<lparr>linenum := ln2\<rparr>) new_node
               else (case is_sub_node p2 ln2 of (sub, ln3) \<Rightarrow>
                 if sub then (case after_bracket p2 ln3 st of (q, st') \<Rightarrow> Sub name q st')
                 else (case is_array_node p2 ln3 of (arr, ln4) \<Rightarrow>
                   if arr then (case after_bracket p2 ln4 st of (q, st') \<Rightarrow> Arr name q st')
                   else if check_keyword name = char_t then value_item u name p2 ln4 st
                   else Stop None (st\<lparr>linenum := ln4\<rparr>) (CN '''' '''' (check_keyword name) None None)))
           | _ \<Rightarrow> Stop None (st\<lparr>linenum := ln2\<rparr>) new_node))"

lemma length_after_bracket:
  assumes "p \<noteq> []" "after_bracket p ln st = (q, st')"
  shows "length q < length p"
proof -
  obtain r ln' where r: "jumpspace p ln = (r, ln')" by fastforce
  with assms have "q = tl r" by (simp add: after_bracket_def)
  with assms r length_jumpspace [of p ln] show ?thesis by (cases r) auto
qed

lemma value_item_shorter: "value_item u name p ln st = Val n v q st' \<Longrightarrow> length q < length p"
  by (auto simp: value_item_def split: prod.splits outp.splits if_splits
      dest: find_valid_value_shorter)

lemma value_item_kinds [simp]:
  "value_item u name p ln st \<noteq> Sub n q st'" "value_item u name p ln st \<noteq> Arr n q st'"
  "value_item u name p ln st \<noteq> Proc n q st'"
  by (auto simp: value_item_def split: prod.splits outp.splits if_splits)

lemma smodlh_item_shorter:
  "smodlh_item u p st = Sub n q st' \<Longrightarrow> length q < length p"
  "smodlh_item u p st = Arr n q st' \<Longrightarrow> length q < length p"
  "smodlh_item u p st = Val n v q st' \<Longrightarrow> length q < length p"
  "smodlh_item u p st = Stop (Some q) st' nd \<Longrightarrow> length q \<le> length p"
proof -
  obtain p1 ln1 where js: "jumpspace p (linenum st) = (p1, ln1)" by fastforce
  then have p1: "length p1 \<le> length p" using length_jumpspace [of p "linenum st"] by simp
  obtain p2 ln2 out where fv: "find_valid_name u p1 ln1 = (p2, ln2, out)" by (metis prod_cases3)
  have p2: "out = Str nm \<Longrightarrow> length p2 < length p1" for nm
    using find_valid_name_shorter fv by simp
  note defs = smodlh_item_def js fv
  show "smodlh_item u p st = Sub n q st' \<Longrightarrow> length q < length p"
    using p1 p2 length_after_bracket [of p2 _ st q st']
    by (fastforce simp: defs split: if_splits prod.splits outp.splits)
  show "smodlh_item u p st = Arr n q st' \<Longrightarrow> length q < length p"
    using p1 p2 length_after_bracket [of p2 _ st q st']
    by (fastforce simp: defs split: if_splits prod.splits outp.splits)
  show "smodlh_item u p st = Val n v q st' \<Longrightarrow> length q < length p"
    using p1 p2 value_item_shorter [of u _ p2 _ st n v q st']
    by (fastforce simp: defs split: if_splits prod.splits outp.splits)
  show "smodlh_item u p st = Stop (Some q) st' nd \<Longrightarrow> length q \<le> length p"
    using p1 by (auto simp: defs value_item_def split: if_splits prod.splits outp.splits)
qed

function parse_smodlh_loop :: "ub \<Rightarrow> string \<Rightarrow> pst \<Rightarrow> string option \<times> pst \<times> CN_S" where
  "parse_smodlh_loop u p st =
     (case smodlh_item u p st of
        Stop r st' nd \<Rightarrow> (r, st', nd)
      | Proc name q st' \<Rightarrow> (None, st', new_node)
      | Val name v q st' \<Rightarrow>
          (case parse_smodlh_loop u q st' of (r, st'', rest) \<Rightarrow>
             (r, st'', CN (name_copy name) (var_copy v) char_t None (Some rest)))
      | Arr name q st' \<Rightarrow>
          (case parse_arraylh u q st' of (r, st1, sn) \<Rightarrow>
             (case r of
                None \<Rightarrow> (None, st1, CN (name_copy name) '''' array_t (Some sn) (Some new_node))
              | Some p' \<Rightarrow>
                  (case parse_smodlh_loop u p' st1 of (r', st2, rest) \<Rightarrow>
                     (r', st2, CN (name_copy name) '''' array_t (Some sn) (Some rest)))))
      | Sub name q st' \<Rightarrow>
          (case parse_smodlh_loop u q (st'\<lparr>level := level st' + 1\<rparr>) of (r, st1, sn) \<Rightarrow>
             (case r of
                None \<Rightarrow> (None, st1, CN (name_copy name) '''' subnode_t (Some sn) (Some new_node))
              | Some p' \<Rightarrow>
                  (case parse_smodlh_loop u p' st1 of (r', st2, rest) \<Rightarrow>
                     (r', st2, CN (name_copy name) '''' subnode_t (Some sn) (Some rest))))))"
  by pat_completeness auto

lemma parse_smodlh_loop_shorter_dom:
  assumes "parse_smodlh_loop_dom (u, p, st)" "parse_smodlh_loop u p st = (Some q, st', n)"
  shows "length q \<le> length p"
  using assms
proof (induction u p st arbitrary: q st' n rule: parse_smodlh_loop.pinduct)
  case (1 u p st)
  show ?case
  proof (cases "smodlh_item u p st")
    case (Stop r st1 nd)
    with 1 show ?thesis by (auto simp: parse_smodlh_loop.psimps dest: smodlh_item_shorter(4))
  next
    case (Sub nm s st1)
    obtain r st2 sn where rec: "parse_smodlh_loop u s (st1\<lparr>level := level st1 + 1\<rparr>) = (r, st2, sn)"
      by (metis prod_cases3)
    with 1 Sub obtain p' where r: "r = Some p'"
      by (cases r) (auto simp: parse_smodlh_loop.psimps)
    obtain r3 st3 n3 where rec2: "parse_smodlh_loop u p' st2 = (r3, st3, n3)" by (metis prod_cases3)
    have "length p' \<le> length s"
      using "1.IH"(1) [OF Sub] rec r by simp
    moreover have "length q \<le> length p'"
      using "1.IH"(2) [OF Sub rec [symmetric] refl r] "1.prems" "1.hyps" Sub rec rec2 r
      by (simp add: parse_smodlh_loop.psimps)
    ultimately show ?thesis using smodlh_item_shorter(1) [OF Sub] by simp
  next
    case (Arr nm s st1)
    obtain r st2 sn where rec: "parse_arraylh u s st1 = (r, st2, sn)" by (metis prod_cases3)
    with 1 Arr obtain p' where r: "r = Some p'"
      by (cases r) (auto simp: parse_smodlh_loop.psimps)
    obtain r3 st3 n3 where rec2: "parse_smodlh_loop u p' st2 = (r3, st3, n3)" by (metis prod_cases3)
    have "length q \<le> length p'"
      using "1.IH"(3) [OF Arr rec [symmetric] refl r] "1.prems" "1.hyps" Arr rec rec2 r
      by (simp add: parse_smodlh_loop.psimps)
    then show ?thesis
      using smodlh_item_shorter(2) [OF Arr] parse_arraylh_shorter [OF rec [unfolded r]] by simp
  next
    case (Val nm v s st1)
    obtain r3 st3 n3 where rec: "parse_smodlh_loop u s st1 = (r3, st3, n3)" by (metis prod_cases3)
    have "length q \<le> length s"
      using "1.IH"(4) [OF Val] "1.prems" "1.hyps" Val rec
      by (simp add: parse_smodlh_loop.psimps)
    then show ?thesis using smodlh_item_shorter(3) [OF Val] by simp
  next
    case (Proc nm s st1)
    with 1 show ?thesis by (simp add: parse_smodlh_loop.psimps)
  qed
qed

lemma parse_smodlh_loop_total: "All parse_smodlh_loop_dom"
proof (relation "measure (\<lambda>(u, p, st). length p)", goal_cases)
  case 1
  show ?case by simp
next
  case (2 u p st n q st')
  then show ?case using smodlh_item_shorter(1) by simp
next
  case (3 u p st n q st' r y st1 sn p')
  then have "length p' \<le> length q"
    using parse_smodlh_loop_shorter_dom [of u q "st'\<lparr>level := level st' + 1\<rparr>" p' st1 sn] by simp
  with 3(1) show ?case using smodlh_item_shorter(1) [of u p st n q st'] by simp
next
  case (4 u p st n q st' r y st1 sn p')
  then have "length p' \<le> length q"
    using parse_arraylh_shorter [of u q st' p' st1 sn] by simp
  with 4(1) show ?case using smodlh_item_shorter(2) [of u p st n q st'] by simp
next
  case (5 u p st n v q st')
  then show ?case using smodlh_item_shorter(3) by simp
qed

termination parse_smodlh_loop
  by (rule parse_smodlh_loop_total)

declare parse_smodlh_loop.simps [simp del]

lemma parse_smodlh_loop_shorter:
  "parse_smodlh_loop u p st = (Some q, st', n) \<Longrightarrow> length q \<le> length p"
  using parse_smodlh_loop_shorter_dom [OF parse_smodlh_loop_total [THEN spec]] .

definition parse_smodlh :: "ub \<Rightarrow> string \<Rightarrow> pst \<Rightarrow> string option \<times> pst \<times> CN_S" where
  "parse_smodlh u p st = parse_smodlh_loop u p (st\<lparr>level := level st + 1\<rparr>)"

lemma parse_smodlh_shorter: "parse_smodlh u p st = (Some q, st', n) \<Longrightarrow> length q \<le> length p"
  unfolding parse_smodlh_def by (rule parse_smodlh_loop_shorter)

text \<open>The \<^verbatim>\<open>case proc_mod_t\<close> of \<^verbatim>\<open>parse_main\<close>, up to the opening brace.\<close>

definition proc_item :: "ub \<Rightarrow> string \<Rightarrow> int \<Rightarrow> pst \<Rightarrow> item" where
  "proc_item u p ln st =
     (case find_valid_name u p ln of (p1, ln1, out) \<Rightarrow>
        (case out of
           Str mod_name \<Rightarrow>
             if p1 = [] then Stop None (st\<lparr>linenum := ln1\<rparr>) (CN '''' '''' proc_mod_t None None)
             else (case jumpspace p1 ln1 of (p2, ln2) \<Rightarrow>
               if deref p2 \<noteq> CHR ''{''
               then Stop None (st\<lparr>linenum := ln2\<rparr>)
                      (CN (name_copy mod_name) '''' proc_mod_t (Some new_node) None)
               else Proc mod_name (tl p2) (st\<lparr>linenum := ln2\<rparr>))
         | _ \<Rightarrow> Stop None (st\<lparr>linenum := ln1\<rparr>) (CN '''' '''' proc_mod_t None None)))"

definition main_item :: "ub \<Rightarrow> string \<Rightarrow> pst \<Rightarrow> item" where
  "main_item u p st =
     (if p = [] then Stop (Some p) st new_node
      else case find_valid_name u p (linenum st) of (p1, ln1, out) \<Rightarrow>
        if (case out of Unset \<Rightarrow> name_null u p | Null \<Rightarrow> True | Str _ \<Rightarrow> False)
        then Stop None (st\<lparr>linenum := ln1\<rparr>) new_node
        else if p1 = [] then Stop (Some p1) (st\<lparr>linenum := ln1\<rparr>) new_node
        else case out of
               Str name \<Rightarrow>
                 (case is_sub_node p1 ln1 of (sub, ln2) \<Rightarrow>
                  if sub then (case after_bracket p1 ln2 st of (q, st') \<Rightarrow> Sub name q st')
                  else (case is_array_node p1 ln2 of (arr, ln3) \<Rightarrow>
                    if arr then (case after_bracket p1 ln3 st of (q, st') \<Rightarrow> Arr name q st')
                    else case check_keyword name of
                        char_t \<Rightarrow> value_item u name p1 ln3 st
                      | proc_mod_t \<Rightarrow> proc_item u p1 ln3 st
                      | k \<Rightarrow> Stop None (st\<lparr>linenum := ln3\<rparr>) (CN '''' '''' k None None)))
             | _ \<Rightarrow> Stop None (st\<lparr>linenum := ln1\<rparr>) new_node)"

lemma proc_item_shorter: "proc_item u p ln st = Proc n q st' \<Longrightarrow> length q < length p"
proof -
  assume a: "proc_item u p ln st = Proc n q st'"
  then obtain p1 ln1 p2 ln2 where f: "find_valid_name u p ln = (p1, ln1, Str n)"
    and j: "jumpspace p1 ln1 = (p2, ln2)" "q = tl p2"
    by (auto simp: proc_item_def split: prod.splits outp.splits if_splits)
  with find_valid_name_shorter [OF f] length_jumpspace [of p1 ln1] show ?thesis by simp
qed

lemma proc_item_kinds [simp]:
  "proc_item u p ln st \<noteq> Sub n q st'" "proc_item u p ln st \<noteq> Arr n q st'"
  "proc_item u p ln st \<noteq> Val n v q st'" "value_item u name p ln st \<noteq> Proc n q st'"
  by (auto simp: proc_item_def value_item_def split: prod.splits outp.splits if_splits)

lemma main_item_shorter:
  "main_item u p st = Sub n q st' \<Longrightarrow> length q < length p"
  "main_item u p st = Arr n q st' \<Longrightarrow> length q < length p"
  "main_item u p st = Proc n q st' \<Longrightarrow> length q < length p"
  "main_item u p st = Val n v q st' \<Longrightarrow> length q < length p"
proof -
  obtain p1 ln1 out where fv: "find_valid_name u p (linenum st) = (p1, ln1, out)"
    by (metis prod_cases3)
  have p1: "out = Str nm \<Longrightarrow> length p1 < length p" for nm
    using find_valid_name_shorter fv by simp
  note defs = main_item_def fv
  show "main_item u p st = Sub n q st' \<Longrightarrow> length q < length p"
    using p1 length_after_bracket [of p1 _ st q st']
    by (fastforce simp: defs split: if_splits prod.splits outp.splits CNT_E.splits)
  show "main_item u p st = Arr n q st' \<Longrightarrow> length q < length p"
    using p1 length_after_bracket [of p1 _ st q st']
    by (fastforce simp: defs split: if_splits prod.splits outp.splits CNT_E.splits)
  show "main_item u p st = Proc n q st' \<Longrightarrow> length q < length p"
    using p1 proc_item_shorter [of u p1 _ st n q st']
    by (fastforce simp: defs split: if_splits prod.splits outp.splits CNT_E.splits)
  show "main_item u p st = Val n v q st' \<Longrightarrow> length q < length p"
    using p1 value_item_shorter [of u _ p1 _ st n v q st']
    by (fastforce simp: defs split: if_splits prod.splits outp.splits CNT_E.splits)
qed

function parse_main :: "ub \<Rightarrow> string \<Rightarrow> pst \<Rightarrow> string option \<times> pst \<times> CN_S" where
  "parse_main u p st =
     (case main_item u p st of
        Stop r st' nd \<Rightarrow> (r, st', nd)
      | Val name v q st' \<Rightarrow>
          (case parse_main u q st' of (r, st'', rest) \<Rightarrow>
             (r, st'', CN (name_copy name) (var_copy v) char_t None (Some rest)))
      | Arr name q st' \<Rightarrow>
          (case parse_arraylh u q st' of (r, st1, sn) \<Rightarrow>
             (case r of
                None \<Rightarrow> (None, st1, CN (name_copy name) '''' array_t (Some sn) (Some new_node))
              | Some p' \<Rightarrow>
                  (case parse_main u p' st1 of (r', st2, rest) \<Rightarrow>
                     (r', st2, CN (name_copy name) '''' array_t (Some sn) (Some rest)))))
      | Proc name q st' \<Rightarrow>
          (case parse_smodlh u q st' of (r, st1, sn) \<Rightarrow>
             (case r of
                None \<Rightarrow> (None, st1, CN (name_copy name) '''' proc_mod_t (Some sn) (Some new_node))
              | Some p' \<Rightarrow>
                  (case parse_main u p' st1 of (r', st2, rest) \<Rightarrow>
                     (r', st2, CN (name_copy name) '''' proc_mod_t (Some sn) (Some rest)))))
      | Sub name q st' \<Rightarrow>
          (case parse_smodlh u q st' of (r, st1, sn) \<Rightarrow>
             (case r of
                None \<Rightarrow> (None, st1, CN (name_copy name) '''' subnode_t (Some sn) (Some new_node))
              | Some p' \<Rightarrow>
                  (case parse_main u p' st1 of (r', st2, rest) \<Rightarrow>
                     (r', st2, CN (name_copy name) '''' subnode_t (Some sn) (Some rest))))))"
  by pat_completeness auto
termination
proof (relation "measure (\<lambda>(u, p, st). length p)", goal_cases)
  case 1
  show ?case by simp
next
  case (2 u p st n q st' r y st1 sn p')
  then have "length p' \<le> length q" using parse_smodlh_shorter [of u q st' p' st1 sn] by simp
  with 2(1) show ?case using main_item_shorter(1) [of u p st n q st'] by simp
next
  case (3 u p st n q st' r y st1 sn p')
  then have "length p' \<le> length q" using parse_arraylh_shorter [of u q st' p' st1 sn] by simp
  with 3(1) show ?case using main_item_shorter(2) [of u p st n q st'] by simp
next
  case (4 u p st n q st' r y st1 sn p')
  then have "length p' \<le> length q" using parse_smodlh_shorter [of u q st' p' st1 sn] by simp
  with 4(1) show ?case using main_item_shorter(3) [of u p st n q st'] by simp
next
  case (5 u p st n v q st')
  then show ?case using main_item_shorter(4) by simp
qed

declare parse_main.simps [simp del]

text \<open>
  \<^verbatim>\<open>parse\<close> after \<^verbatim>\<open>readfile\<close> has set \<open>linenum\<close> to 1, \<open>level\<close> to 0 and \<^verbatim>\<open>isparsed\<close> to false: the
  return value and the tree below the given head node.
\<close>

definition parse :: "ub \<Rightarrow> string \<Rightarrow> int \<times> CN_S" where
  "parse u buf =
     (case parse_main u buf \<lparr>linenum = 1, level = 0\<rparr> of (p, st, mch) \<Rightarrow>
        (if p = Some [] \<and> level st = 0 then 0 else -1, mch))"

section \<open>Reading the file\<close>

text \<open>
  \<^verbatim>\<open>readfile\<close>. The results of the successive calls of \<^verbatim>\<open>read\<close> are an argument: \<open>None\<close> is an error,
  \<open>Some []\<close> the end of the file, and no more than \<open>remain\<close> bytes are returned. \<open>cells\<close> is the
  allocated block; \<^verbatim>\<open>realloc\<close> asks for \<open>buflen + 1024\<close> bytes each time, since \<^verbatim>\<open>buflen\<close> is never
  updated, and the cells it adds are given by \<open>junk\<close>. A store outside the block is \<open>Overflow\<close>.
\<close>

datatype rd_result = Overflow | ReadError | Done "char list" nat

definition overwrite :: "char list \<Rightarrow> nat \<Rightarrow> char list \<Rightarrow> char list" where
  "overwrite cells i bs = take i cells @ bs @ drop (i + length bs) cells"

definition realloc :: "(nat \<Rightarrow> char) \<Rightarrow> char list \<Rightarrow> nat \<Rightarrow> char list" where
  "realloc junk cells n = take n cells @ map junk [length cells..<n]"

fun readfile_loop ::
  "(nat \<Rightarrow> char) \<Rightarrow> nat \<Rightarrow> char list \<Rightarrow> nat \<Rightarrow> nat \<Rightarrow> char list option list \<Rightarrow> rd_result" where
  "readfile_loop junk buflen cells tot remain [] = Done cells tot"
| "readfile_loop junk buflen cells tot remain (None # rs) = ReadError"
| "readfile_loop junk buflen cells tot remain (Some bs # rs) =
     (if bs = [] then Done cells tot
      else if remain < length bs \<or> length cells < tot + length bs then Overflow
      else let cells1 = overwrite cells tot bs in
        if remain - length bs = 0 then
          let cells2 = realloc junk cells1 (buflen + 1024) in
          if length cells2 < tot + 1024 + 1024 then Overflow
          else readfile_loop junk buflen (overwrite cells2 (tot + 1024) (replicate 1024 NUL))
                 (tot + length bs) 1024 rs
        else readfile_loop junk buflen cells1 (tot + length bs) (remain - length bs) rs)"

definition readfile :: "(nat \<Rightarrow> char) \<Rightarrow> nat \<Rightarrow> char list \<Rightarrow> char list option list \<Rightarrow> rd_result" where
  "readfile junk buflen cells rs = readfile_loop junk buflen cells 0 1024 rs"

text \<open>
  \<^verbatim>\<open>readconf\<close>: \<open>opened\<close> and \<open>allocated\<close> say whether \<^verbatim>\<open>open\<close> and \<^verbatim>\<open>malloc\<close> succeed. The code clears
  the block before it tests the pointer, so a failed allocation is a store through \<^verbatim>\<open>NULL\<close>. The
  result \<open>Inr (buf, end)\<close> is a successful read.
\<close>

definition readconf ::
  "bool \<Rightarrow> bool \<Rightarrow> (nat \<Rightarrow> char) \<Rightarrow> char list option list \<Rightarrow> int + (char list \<times> nat) option" where
  "readconf opened allocated junk rs =
     (if \<not> opened then Inl (-1)
      else if \<not> allocated then Inr None
      else case readfile junk (1024 * 256) (replicate (1024 * 256) NUL) rs of
             Overflow \<Rightarrow> Inr None
           | ReadError \<Rightarrow> Inl (-1)
           | Done cells tot \<Rightarrow> Inr (Some (cells, tot)))"

section \<open>Look-ups\<close>

fun get_proc_mod :: "CN_S option \<Rightarrow> CN_S option" where
  "get_proc_mod None = None"
| "get_proc_mod (Some (CN m v t s n)) =
     (if t = proc_mod_t then Some (CN m v t s n) else get_proc_mod n)"

fun get_value_from_node :: "CN_S option \<Rightarrow> string \<Rightarrow> string option" where
  "get_value_from_node None vn = None"
| "get_value_from_node (Some (CN m v t s n)) vn =
     (if t = char_t \<and> STRMATCH vn m then Some v else get_value_from_node n vn)"

fun get_submod_from_node :: "CN_S option \<Rightarrow> string \<Rightarrow> CN_S option" where
  "get_submod_from_node None mn = None"
| "get_submod_from_node (Some (CN m v t s n)) mn =
     (if t = subnode_t \<and> STRMATCH mn m then s else get_submod_from_node n mn)"

fun get_array_from_node :: "CN_S option \<Rightarrow> string \<Rightarrow> CN_S option" where
  "get_array_from_node None mn = None"
| "get_array_from_node (Some (CN m v t s n)) mn =
     (if t = array_t \<and> STRMATCH mn m then Some (CN m v t s n) else get_array_from_node n mn)"

text \<open>The two array accessors walk the elements; \<open>None\<close> is the read through a null \<^verbatim>\<open>psub\<close>.\<close>

fun count_array_ele :: "CN_S option \<Rightarrow> int option" where
  "count_array_ele None = None"
| "count_array_ele (Some (CN m v t s n)) =
     (if t = array_ele then map_option (\<lambda>k. k + 1) (count_array_ele n) else Some 0)"

definition get_size_from_array :: "CN_S option \<Rightarrow> int option" where
  "get_size_from_array i_mc =
     (case i_mc of None \<Rightarrow> Some 0
      | Some mc \<Rightarrow> if ntype mc = array_t then count_array_ele (smodlh mc) else Some 0)"

fun array_ele_at :: "CN_S option \<Rightarrow> int \<Rightarrow> int \<Rightarrow> string option option" where
  "array_ele_at None index inpos = None"
| "array_ele_at (Some (CN m v t s n)) index inpos =
     (if t = array_ele then (if index = inpos then Some (Some v) else array_ele_at n index (inpos + 1))
      else Some None)"

definition get_value_from_array_by_index :: "CN_S option \<Rightarrow> int \<Rightarrow> string option option" where
  "get_value_from_array_by_index i_mc index =
     (case i_mc of None \<Rightarrow> Some None
      | Some mc \<Rightarrow> if ntype mc = array_t then array_ele_at (smodlh mc) index 0 else Some None)"

text \<open>\<^verbatim>\<open>delete_node\<close> and \<^verbatim>\<open>destroy\<close>: the nodes freed, in the order in which they are.\<close>

fun delete_node :: "CN_S option \<Rightarrow> CN_S list" where
  "delete_node None = []"
| "delete_node (Some (CN m v t s n)) = delete_node s @ delete_node n @ [CN m v t s n]"

definition destroy :: "CN_S option \<Rightarrow> CN_S list" where
  "destroy i_head = delete_node i_head"

end
