(* ===== verification/Pconf_Roundtrip.thy ===== *)
theory Pconf_Roundtrip
  imports Pconf
begin

text \<open>
  Properties of the configuration reader: an abstract syntax of configuration files with its
  concrete rendering, and the proofs that the parser of \<^verbatim>\<open>pconf.cpp\<close> recovers the abstract syntax
  from the rendering, that brackets are balanced in whatever it accepts, that the look-ups read
  back what the file says, and how far the file buffer is safe.
\<close>

section \<open>Scanning\<close>

definition blank :: "char \<Rightarrow> bool" where
  "blank c \<longleftrightarrow> c = CHR '' '' \<or> c = CHR 0x09 \<or> c = CHR 0x0D \<or> c = NL"

lemma blank_simps [simp]: "blank CHR '' ''" "blank NL"
  by (simp_all add: blank_def)

text \<open>\<open>jumpspace\<close> stops only at the end or at a character that is neither blank nor \<^verbatim>\<open>#\<close>.\<close>

lemma jumpspace_stops:
  "jumpspace p ln = (q, ln') \<Longrightarrow> q = [] \<or> \<not> blank (hd q) \<and> hd q \<noteq> CHR ''#''"
proof (induction p ln arbitrary: q ln' rule: jumpspace.induct)
  case (2 ch p ln)
  obtain r lnr where r: "jumpcomment (ch # p) ln = (r, lnr)" by fastforce
  show ?case
    using 2 r by (cases "ch = CHR ''#''") (auto simp: blank_def split: if_splits)
qed simp

lemma jumpspace_blanks:
  assumes "\<forall>c \<in> set ws. blank c" "\<not> blank c" "c \<noteq> CHR ''#''"
  shows "\<exists>ln'. jumpspace (ws @ c # p) ln = (c # p, ln')"
  using assms
  by (induction ws arbitrary: ln) (auto simp: blank_def)

lemma jumpspace_self [simp]:
  "\<not> blank c \<Longrightarrow> c \<noteq> CHR ''#'' \<Longrightarrow> jumpspace (c # p) ln = (c # p, ln)"
  by (auto simp: blank_def)

lemma jumpspace_all_blank:
  "\<forall>c \<in> set ws. blank c \<Longrightarrow> \<exists>ln'. jumpspace ws ln = ([], ln')"
  by (induction ws arbitrary: ln) (auto simp: blank_def)

section \<open>Abstract syntax\<close>

text \<open>
  A configuration file: a chain of entries, each with the chain behind it. \<open>ProcM\<close> is allowed at
  the top level only.
\<close>

datatype conf =
    End
  | KV string string conf
  | ArrM string "string list" conf
  | SubM string conf conf
  | ProcM string conf conf

fun render_vals :: "string list \<Rightarrow> string" where
  "render_vals [] = ''''"
| "render_vals [v] = v"
| "render_vals (v # vs) = v @ '','' @ render_vals vs"

fun render :: "conf \<Rightarrow> string" where
  "render End = ''''"
| "render (KV n v c) = n @ '' '' @ v @ '';'' @ [NL] @ render c"
| "render (ArrM n vs c) = n @ '' ['' @ render_vals vs @ '']'' @ [NL] @ render c"
| "render (SubM n b c) = n @ '' {'' @ [NL] @ render b @ ''}'' @ [NL] @ render c"
| "render (ProcM n b c) = ''proc '' @ n @ '' {'' @ [NL] @ render b @ ''}'' @ [NL] @ render c"

fun arr_nodes :: "string list \<Rightarrow> CN_S" where
  "arr_nodes [] = new_node"
| "arr_nodes (v # vs) = CN '''' v array_ele None (Some (arr_nodes vs))"

text \<open>The nodes of a chain of entries, linked in front of the node \<open>t\<close>.\<close>

fun tree_onto :: "conf \<Rightarrow> CN_S \<Rightarrow> CN_S" where
  "tree_onto End t = t"
| "tree_onto (KV n v c) t = CN n v char_t None (Some (tree_onto c t))"
| "tree_onto (ArrM n vs c) t = CN n '''' array_t (Some (arr_nodes vs)) (Some (tree_onto c t))"
| "tree_onto (SubM n b c) t
     = CN n '''' subnode_t (Some (tree_onto b new_node)) (Some (tree_onto c t))"
| "tree_onto (ProcM n b c) t
     = CN n '''' proc_mod_t (Some (tree_onto b new_node)) (Some (tree_onto c t))"

definition tree_of :: "conf \<Rightarrow> CN_S" where
  "tree_of c = tree_onto c new_node"

definition name_ok :: "string \<Rightarrow> bool" where
  "name_ok n \<longleftrightarrow> n \<noteq> [] \<and> length n < 64
     \<and> (\<forall>c \<in> set n. of_char c < (128::nat) \<and> bvalidname ! of_char c)"

definition value_ok :: "string \<Rightarrow> bool" where
  "value_ok v \<longleftrightarrow> v \<noteq> [] \<and> length v < 128 \<and> hd v \<noteq> CHR ''#'' \<and> hd v \<noteq> CHR ''{''
     \<and> (\<forall>c \<in> set v. of_char c < (128::nat) \<and> bvalidvalue ! of_char c)"

text \<open>\<open>conf_ok toplev c\<close>: the names and values are within the reader's alphabet and sizes.\<close>

fun conf_ok :: "bool \<Rightarrow> conf \<Rightarrow> bool" where
  "conf_ok toplev End = True"
| "conf_ok toplev (KV n v c) = (name_ok n \<and> n \<noteq> ''proc'' \<and> value_ok v \<and> conf_ok toplev c)"
| "conf_ok toplev (ArrM n vs c) = (name_ok n \<and> (\<forall>v \<in> set vs. value_ok v) \<and> conf_ok toplev c)"
| "conf_ok toplev (SubM n b c) = (name_ok n \<and> conf_ok False b \<and> conf_ok toplev c)"
| "conf_ok toplev (ProcM n b c) = (toplev \<and> name_ok n \<and> conf_ok False b \<and> conf_ok toplev c)"

section \<open>Names and values\<close>

lemma special_not_name [simp]:
  "\<not> validname u CHR '' ''" "\<not> validname u NL" "\<not> validname u CHR ''#''" "\<not> validname u CHR ''{''"
  "\<not> validname u CHR ''}''" "\<not> validname u CHR ''[''" "\<not> validname u CHR 0x09"
  "\<not> validname u CHR 0x0D" "\<not> validname u NUL"
  by (simp_all add: validname_def bvalidname_def)

lemma special_not_value [simp]:
  "\<not> validvalue u CHR '' ''" "\<not> validvalue u NL" "\<not> validvalue u CHR '';''"
  "\<not> validvalue u CHR '',''" "\<not> validvalue u CHR ''[''" "\<not> validvalue u CHR '']''"
  "\<not> validvalue u CHR 0x09" "\<not> validvalue u CHR 0x0D" "\<not> validvalue u NUL"
  by (simp_all add: validvalue_def bvalidvalue_def)

lemma validname_not_blank: "validname u c \<Longrightarrow> \<not> blank c \<and> c \<noteq> CHR ''#''"
  by (auto simp: blank_def)

lemma validvalue_not_blank: "validvalue u c \<Longrightarrow> \<not> blank c"
  by (auto simp: blank_def)

lemma name_ok_valid: "name_ok n \<Longrightarrow> c \<in> set n \<Longrightarrow> validname u c"
  by (simp add: name_ok_def validname_def)

lemma value_ok_valid: "value_ok v \<Longrightarrow> c \<in> set v \<Longrightarrow> validvalue u c"
  by (simp add: value_ok_def validvalue_def)

lemma name_ok_Cons: "name_ok n \<Longrightarrow> \<exists>c cs. n = c # cs"
  by (cases n) (auto simp: name_ok_def)

lemma value_ok_Cons:
  "value_ok v \<Longrightarrow> \<exists>c cs. v = c # cs \<and> c \<noteq> CHR ''#'' \<and> c \<noteq> CHR ''{'' \<and> validvalue u c"
  by (cases v) (auto simp: value_ok_def validvalue_def)

lemma name_copy_ok: "name_ok n \<Longrightarrow> name_copy n = n"
  unfolding name_copy_def
  by (rule bounded_copy_all)
     (auto simp: name_ok_def CONF_NAMEL_def bvalidname_def dest: bspec [where x = NUL])

lemma var_copy_ok: "value_ok v \<Longrightarrow> var_copy v = v"
  unfolding var_copy_def
  by (rule bounded_copy_all)
     (auto simp: value_ok_def CONF_VARL_def bvalidvalue_def dest: bspec [where x = NUL])

lemma check_keyword_eq: "check_keyword n = (if n = ''proc'' then proc_mod_t else char_t)"
  by (simp add: check_keyword_def keyword_list_def cnt_of_nat_def)

lemma find_valid_name_ok:
  assumes "\<forall>c \<in> set ws. blank c" "name_ok n" "\<not> validname u d"
  shows "\<exists>ln'. find_valid_name u (ws @ n @ d # p) ln = (d # p, ln', Str n)"
proof -
  obtain c cs where n: "n = c # cs" using name_ok_Cons [OF assms(2)] by blast
  then have c: "validname u c" using name_ok_valid [OF assms(2)] by simp
  obtain ln' where "jumpspace (ws @ n @ d # p) ln = (n @ d # p, ln')"
    using jumpspace_blanks [OF assms(1), of c] validname_not_blank [OF c] n by auto
  moreover have "takeWhile (validname u) (n @ d # p) = n" "dropWhile (validname u) (n @ d # p) = d # p"
    using name_ok_valid [OF assms(2)] assms(3)
    by (auto intro!: takeWhile_append_stop dropWhile_append_stop)
  ultimately show ?thesis
    using c n by (auto simp: find_valid_name_def)
qed

lemma find_valid_value_ok:
  assumes "value_ok v"
  shows "find_valid_value u (CHR '' '' # v @ CHR '';'' # p) ln = (p, ln, Str v)"
proof -
  obtain c cs where v: "v = c # cs" "c \<noteq> CHR ''#''" "validvalue u c"
    using value_ok_Cons [OF assms] by blast
  then have js: "jumpspace (CHR '' '' # v @ CHR '';'' # p) ln = (v @ CHR '';'' # p, ln)"
    using validvalue_not_blank by auto
  have "takeWhile (validvalue u) (v @ CHR '';'' # p) = v"
    "dropWhile (validvalue u) (v @ CHR '';'' # p) = CHR '';'' # p"
    using value_ok_valid [OF assms]
    by (auto intro!: takeWhile_append_stop dropWhile_append_stop)
  then show ?thesis
    using v js by (simp add: find_valid_value_def)
qed

lemma find_valid_array_value_ok:
  assumes "value_ok v" "d = CHR '','' \<or> d = CHR '']''"
  shows "find_valid_array_value u (v @ d # p) ln = (d # p, ln, Str v)"
proof -
  obtain c cs where v: "v = c # cs" "c \<noteq> CHR ''#''" "validvalue u c"
    using value_ok_Cons [OF assms(1)] by blast
  then have js: "jumpspace (v @ d # p) ln = (v @ d # p, ln)"
    using validvalue_not_blank by auto
  have "takeWhile (validvalue u) (v @ d # p) = v" "dropWhile (validvalue u) (v @ d # p) = d # p"
    using value_ok_valid [OF assms(1)] assms(2)
    by (auto intro!: takeWhile_append_stop dropWhile_append_stop)
  moreover have "jumpspace (d # p) ln = (d # p, ln)"
    using assms(2) by auto
  ultimately show ?thesis
    using v js by (simp add: find_valid_array_value_def)
qed

section \<open>The parser inverts the rendering\<close>

lemma parse_arraylh_loop_tail:
  assumes "\<forall>v \<in> set vs. value_ok v"
  shows "parse_arraylh_loop u (concat (map (\<lambda>v. CHR '','' # v) vs) @ CHR '']'' # p) True st
    = (Some p, st\<lparr>level := level st - 1\<rparr>, arr_nodes vs)"
  using assms
proof (induction vs)
  case Nil
  then show ?case by (simp add: parse_arraylh_loop.simps [of u "CHR '']'' # p"])
next
  case (Cons v vs)
  let ?rest = "concat (map (\<lambda>v. CHR '','' # v) vs) @ CHR '']'' # p"
  obtain d q where rest: "?rest = d # q" "d = CHR '','' \<or> d = CHR '']''"
    by (cases vs) auto
  have "find_valid_array_value u (v @ d # q) (linenum st) = (d # q, linenum st, Str v)"
    using Cons.prems rest(2) by (intro find_valid_array_value_ok) auto
  with Cons rest show ?case
    by (subst parse_arraylh_loop.simps) (simp add: var_copy_ok)
qed

lemma render_vals_Cons:
  "render_vals (v # vs) = v @ concat (map (\<lambda>v. CHR '','' # v) vs)"
  by (induction vs arbitrary: v) auto

lemma parse_arraylh_ok:
  assumes "\<forall>v \<in> set vs. value_ok v"
  shows "parse_arraylh u (render_vals vs @ CHR '']'' # p) st = (Some p, st, arr_nodes vs)"
proof (cases vs)
  case Nil
  then show ?thesis
    by (simp add: parse_arraylh_def parse_arraylh_loop.simps [of u "CHR '']'' # p"])
next
  case (Cons v ws)
  let ?st = "st\<lparr>level := level st + 1\<rparr>"
  let ?rest = "concat (map (\<lambda>v. CHR '','' # v) ws) @ CHR '']'' # p"
  obtain d q where rest: "?rest = d # q" "d = CHR '','' \<or> d = CHR '']''"
    by (cases ws) auto
  have v: "value_ok v" using assms Cons by simp
  obtain c cs where c: "v = c # cs" "c \<noteq> CHR ''#''" "validvalue u c"
    using value_ok_Cons [OF v] by blast
  have "find_valid_array_value u (v @ d # q) (linenum st) = (d # q, linenum st, Str v)"
    using v rest(2) by (intro find_valid_array_value_ok) auto
  moreover have "c \<noteq> CHR '']''" using c by auto
  moreover have "jumpspace (v @ d # q) (linenum st) = (v @ d # q, linenum st)"
    using c validvalue_not_blank by auto
  moreover have "parse_arraylh_loop u (d # q) True ?st = (Some p, st, arr_nodes ws)"
    using parse_arraylh_loop_tail [of ws u p ?st] assms Cons by (simp flip: rest(1))
  ultimately have "parse_arraylh_loop u (v @ d # q) False ?st = (Some p, st, arr_nodes vs)"
    using c(1) Cons v by (subst parse_arraylh_loop.simps) (simp add: var_copy_ok)
  then show ?thesis
    unfolding parse_arraylh_def Cons render_vals_Cons append_assoc rest(1) by (simp add: Cons)
qed

text \<open>The head of an entry is scanned the same way inside a block and at the top level.\<close>

lemma is_sub_node_ok:
  "is_sub_node (CHR '' '' # CHR ''{'' # p) ln = (True, ln)"
  "c \<noteq> CHR ''{'' \<Longrightarrow> \<not> blank c \<Longrightarrow> c \<noteq> CHR ''#'' \<Longrightarrow> is_sub_node (CHR '' '' # c # p) ln = (False, ln)"
  by (simp_all add: is_sub_node_def blank_def)

lemma is_array_node_ok:
  "is_array_node (CHR '' '' # CHR ''['' # p) ln = (True, ln)"
  "c \<noteq> CHR ''['' \<Longrightarrow> \<not> blank c \<Longrightarrow> c \<noteq> CHR ''#'' \<Longrightarrow> is_array_node (CHR '' '' # c # p) ln = (False, ln)"
  by (simp_all add: is_array_node_def blank_def)

lemma after_bracket_ok:
  "after_bracket (CHR '' '' # CHR ''{'' # p) ln st = (p, st\<lparr>linenum := ln\<rparr>)"
  "after_bracket (CHR '' '' # CHR ''['' # p) ln st = (p, st\<lparr>linenum := ln\<rparr>)"
  by (simp_all add: after_bracket_def)

lemma value_item_ok:
  "value_ok v \<Longrightarrow> p \<noteq> [] \<Longrightarrow>
   value_item u n (CHR '' '' # v @ CHR '';'' # p) ln st = Val n v p (st\<lparr>linenum := ln\<rparr>)"
  by (simp add: value_item_def find_valid_value_ok)

lemma smodlh_item_head:
  assumes "\<forall>c \<in> set ws. blank c" "name_ok n"
  shows "\<exists>ln p1. jumpspace (ws @ n @ CHR '' '' # p) (linenum st) = (p1, ln) \<and> p1 \<noteq> []
     \<and> deref p1 \<noteq> CHR ''}'' \<and> find_valid_name u p1 ln = (CHR '' '' # p, ln, Str n)"
proof -
  obtain c cs where n: "n = c # cs" using name_ok_Cons [OF assms(2)] by blast
  then have c: "validname u c" using name_ok_valid [OF assms(2)] by simp
  obtain ln where js: "jumpspace (ws @ n @ CHR '' '' # p) (linenum st) = (n @ CHR '' '' # p, ln)"
    using jumpspace_blanks [OF assms(1), of c] validname_not_blank [OF c] n by auto
  have "jumpspace (n @ CHR '' '' # p) ln = (n @ CHR '' '' # p, ln)"
    using n validname_not_blank [OF c] by (auto simp: blank_def)
  moreover obtain ln' where
    "find_valid_name u (n @ CHR '' '' # p) ln = (CHR '' '' # p, ln', Str n)"
    using find_valid_name_ok [of "[]" n u "CHR '' ''" p ln] assms(2) by auto
  ultimately have "find_valid_name u (n @ CHR '' '' # p) ln = (CHR '' '' # p, ln, Str n)"
    by (auto simp: find_valid_name_def split: if_splits)
  with js n c show ?thesis by auto
qed

lemma smodlh_item_ok:
  assumes "\<forall>c \<in> set ws. blank c" "name_ok n"
  shows "\<exists>ln. smodlh_item u (ws @ n @ '' {'' @ p) st = Sub n p (st\<lparr>linenum := ln\<rparr>)"
    and "\<exists>ln. smodlh_item u (ws @ n @ '' ['' @ p) st = Arr n p (st\<lparr>linenum := ln\<rparr>)"
    and "n \<noteq> ''proc'' \<Longrightarrow> value_ok v \<Longrightarrow> p \<noteq> [] \<Longrightarrow>
       \<exists>ln. smodlh_item u (ws @ n @ '' '' @ v @ '';'' @ p) st = Val n v p (st\<lparr>linenum := ln\<rparr>)"
proof -
  have ne: "ws @ n @ s \<noteq> []" for s using assms(2) by (simp add: name_ok_def)
  show "\<exists>ln. smodlh_item u (ws @ n @ '' {'' @ p) st = Sub n p (st\<lparr>linenum := ln\<rparr>)"
    using smodlh_item_head [OF assms, of "CHR ''{'' # p" st u] ne [of "'' {'' @ p"]
    by (auto simp: smodlh_item_def is_sub_node_ok after_bracket_ok)
  show "\<exists>ln. smodlh_item u (ws @ n @ '' ['' @ p) st = Arr n p (st\<lparr>linenum := ln\<rparr>)"
    using smodlh_item_head [OF assms, of "CHR ''['' # p" st u] ne [of "'' ['' @ p"]
    by (auto simp: smodlh_item_def is_sub_node_ok is_array_node_ok after_bracket_ok blank_def)
  assume v: "n \<noteq> ''proc''" "value_ok v" "p \<noteq> []"
  obtain c cs where c: "v = c # cs" "c \<noteq> CHR ''#''" "c \<noteq> CHR ''{''" "validvalue u c"
    using value_ok_Cons [OF v(2)] by blast
  then have nb: "\<not> blank c" "c \<noteq> CHR ''[''" using validvalue_not_blank by auto
  show "\<exists>ln. smodlh_item u (ws @ n @ '' '' @ v @ '';'' @ p) st = Val n v p (st\<lparr>linenum := ln\<rparr>)"
    using smodlh_item_head [OF assms, of "v @ CHR '';'' # p" st u] ne [of "'' '' @ v @ '';'' @ p"]
      v value_item_ok [OF v(2,3), of u n _ st] c nb
    by (auto simp: smodlh_item_def is_sub_node_ok is_array_node_ok check_keyword_eq)
qed

lemma smodlh_item_close:
  assumes "\<forall>c \<in> set ws. blank c"
  shows "\<exists>ln. smodlh_item u (ws @ CHR ''}'' # p) st
          = Stop (Some p) (st\<lparr>linenum := ln, level := level st - 1\<rparr>) new_node"
proof -
  have "\<not> blank CHR ''}''" by (simp add: blank_def)
  then obtain ln where "jumpspace (ws @ CHR ''}'' # p) (linenum st) = (CHR ''}'' # p, ln)"
    using jumpspace_blanks [OF assms, of "CHR ''}''" p "linenum st"] by auto
  then have "smodlh_item u (ws @ CHR ''}'' # p) st
      = Stop (Some p) (st\<lparr>linenum := ln, level := level st - 1\<rparr>) new_node"
    by (simp add: smodlh_item_def)
  then show ?thesis ..
qed

text \<open>
  The block parser consumes a rendered chain entry by entry and then goes on with what follows
  it: with the blanks it started at when the chain is empty, and else with the last line feed.
\<close>

abbreviation left_over :: "conf \<Rightarrow> string \<Rightarrow> string" where
  "left_over c ws \<equiv> (if c = End then ws else [NL])"

lemma smodlh_loop_close:
  assumes "\<forall>c \<in> set ws. blank c"
  shows "\<exists>ln. parse_smodlh_loop u (ws @ CHR ''}'' # p) st
          = (Some p, st\<lparr>linenum := ln, level := level st - 1\<rparr>, new_node)"
  using smodlh_item_close [OF assms, of u p st]
  by (auto simp: parse_smodlh_loop.simps [of u "ws @ CHR ''}'' # p"])

lemma parse_smodlh_loop_run:
  assumes "conf_ok False c" "\<forall>x \<in> set ws. blank x"
  shows "\<exists>ln. parse_smodlh_loop u (ws @ render c @ rest) st
    = (case parse_smodlh_loop u (left_over c ws @ rest) (st\<lparr>linenum := ln\<rparr>) of
         (r, st', t) \<Rightarrow> (r, st', tree_onto c t))"
  using assms
proof (induction c arbitrary: ws rest st)
  case End
  have "parse_smodlh_loop u (ws @ rest) st = (case parse_smodlh_loop u (ws @ rest)
      (st\<lparr>linenum := linenum st\<rparr>) of (r, st', t) \<Rightarrow> (r, st', t))" by simp
  then show ?case by (simp, intro exI [of _ "linenum st"]) simp
next
  case (KV n v c)
  let ?q = "NL # render c @ rest"
  obtain ln where it: "smodlh_item u (ws @ n @ '' '' @ v @ '';'' @ ?q) st = Val n v ?q (st\<lparr>linenum := ln\<rparr>)"
    using KV.prems smodlh_item_ok(3) [of ws n v ?q u st] by auto
  obtain ln' where "parse_smodlh_loop u ([NL] @ render c @ rest) (st\<lparr>linenum := ln\<rparr>)
      = (case parse_smodlh_loop u ([NL] @ rest) (st\<lparr>linenum := ln'\<rparr>) of
         (r, st', t) \<Rightarrow> (r, st', tree_onto c t))"
    using KV.IH [of "[NL]" rest "st\<lparr>linenum := ln\<rparr>"] KV.prems by auto
  with it KV.prems show ?case
    by (subst parse_smodlh_loop.simps)
       (auto simp: name_copy_ok var_copy_ok split: prod.splits intro!: exI [of _ ln'])
next
  case (ArrM n vs c)
  let ?q = "render_vals vs @ CHR '']'' # NL # render c @ rest"
  obtain ln where it: "smodlh_item u (ws @ n @ '' ['' @ ?q) st = Arr n ?q (st\<lparr>linenum := ln\<rparr>)"
    using ArrM.prems smodlh_item_ok(2) [of ws n u ?q st] by auto
  obtain ln' where "parse_smodlh_loop u ([NL] @ render c @ rest) (st\<lparr>linenum := ln\<rparr>)
      = (case parse_smodlh_loop u ([NL] @ rest) (st\<lparr>linenum := ln'\<rparr>) of
         (r, st', t) \<Rightarrow> (r, st', tree_onto c t))"
    using ArrM.IH [of "[NL]" rest "st\<lparr>linenum := ln\<rparr>"] ArrM.prems by auto
  with it ArrM.prems show ?case
    by (subst parse_smodlh_loop.simps)
       (auto simp: name_copy_ok parse_arraylh_ok split: prod.splits intro!: exI [of _ ln'])
next
  case (SubM n b c)
  let ?q = "NL # render c @ rest"
  let ?p = "NL # render b @ CHR ''}'' # ?q"
  obtain ln where it: "smodlh_item u (ws @ n @ '' {'' @ ?p) st = Sub n ?p (st\<lparr>linenum := ln\<rparr>)"
    using SubM.prems smodlh_item_ok(1) [of ws n u ?p st] by auto
  let ?st = "st\<lparr>linenum := ln, level := level st + 1\<rparr>"
  obtain ln0 where run: "parse_smodlh_loop u ?p ?st
      = (case parse_smodlh_loop u (left_over b [NL] @ CHR ''}'' # ?q) (?st\<lparr>linenum := ln0\<rparr>) of
          (r, st', t) \<Rightarrow> (r, st', tree_onto b t))"
    using SubM.IH(1) [of "[NL]" "CHR ''}'' # ?q" ?st] SubM.prems(1) by auto
  obtain ln1 where "parse_smodlh_loop u (left_over b [NL] @ CHR ''}'' # ?q) (?st\<lparr>linenum := ln0\<rparr>)
      = (Some ?q, st\<lparr>linenum := ln1\<rparr>, new_node)"
    using smodlh_loop_close [of "left_over b [NL]" u ?q "?st\<lparr>linenum := ln0\<rparr>"] by auto
  with run have inner: "parse_smodlh_loop u ?p ?st = (Some ?q, st\<lparr>linenum := ln1\<rparr>, tree_onto b new_node)"
    by simp
  obtain ln2 where "parse_smodlh_loop u ([NL] @ render c @ rest) (st\<lparr>linenum := ln1\<rparr>)
      = (case parse_smodlh_loop u ([NL] @ rest) (st\<lparr>linenum := ln2\<rparr>) of
         (r, st', t) \<Rightarrow> (r, st', tree_onto c t))"
    using SubM.IH(2) [of "[NL]" rest "st\<lparr>linenum := ln1\<rparr>"] SubM.prems by auto
  with it inner SubM.prems show ?case
    by (subst parse_smodlh_loop.simps)
       (auto simp: name_copy_ok split: prod.splits intro!: exI [of _ ln2])
next
  case (ProcM n b c)
  then show ?case by simp
qed

lemma parse_smodlh_ok:
  assumes "conf_ok False c"
  shows "\<exists>ln. parse_smodlh u (NL # render c @ CHR ''}'' # p) st
          = (Some p, st\<lparr>linenum := ln\<rparr>, tree_of c)"
proof -
  let ?st = "st\<lparr>level := level st + 1\<rparr>"
  obtain ln where "parse_smodlh u (NL # render c @ CHR ''}'' # p) st
      = (case parse_smodlh_loop u (left_over c [NL] @ CHR ''}'' # p) (?st\<lparr>linenum := ln\<rparr>) of
          (r, st', t) \<Rightarrow> (r, st', tree_onto c t))"
    using parse_smodlh_loop_run [OF assms, of "[NL]" u "CHR ''}'' # p" ?st]
    by (auto simp: parse_smodlh_def)
  with smodlh_loop_close [of "left_over c [NL]" u p "?st\<lparr>linenum := ln\<rparr>"] show ?thesis
    by (auto simp: tree_of_def)
qed

lemma main_item_ok:
  assumes "\<forall>c \<in> set ws. blank c" "name_ok n"
  shows "\<exists>ln. main_item u (ws @ n @ '' {'' @ p) st = Sub n p (st\<lparr>linenum := ln\<rparr>)"
    and "\<exists>ln. main_item u (ws @ n @ '' ['' @ p) st = Arr n p (st\<lparr>linenum := ln\<rparr>)"
    and "n \<noteq> ''proc'' \<Longrightarrow> value_ok v \<Longrightarrow> p \<noteq> [] \<Longrightarrow>
       \<exists>ln. main_item u (ws @ n @ '' '' @ v @ '';'' @ p) st = Val n v p (st\<lparr>linenum := ln\<rparr>)"
    and "\<exists>ln. main_item u (ws @ ''proc '' @ n @ '' {'' @ p) st = Proc n p (st\<lparr>linenum := ln\<rparr>)"
proof -
  have ne: "ws @ n @ s \<noteq> []" for s using assms(2) by (simp add: name_ok_def)
  have head: "\<exists>ln. find_valid_name u (ws @ m @ CHR '' '' # q) (linenum st) = (CHR '' '' # q, ln, Str m)"
    if "name_ok m" for m q
    using find_valid_name_ok [OF assms(1) that, of u "CHR '' ''" q "linenum st"] by simp
  show "\<exists>ln. main_item u (ws @ n @ '' {'' @ p) st = Sub n p (st\<lparr>linenum := ln\<rparr>)"
    using head [OF assms(2), of "CHR ''{'' # p"] ne [of "'' {'' @ p"]
    by (auto simp: main_item_def is_sub_node_ok after_bracket_ok)
  show "\<exists>ln. main_item u (ws @ n @ '' ['' @ p) st = Arr n p (st\<lparr>linenum := ln\<rparr>)"
    using head [OF assms(2), of "CHR ''['' # p"] ne [of "'' ['' @ p"]
    by (auto simp: main_item_def is_sub_node_ok is_array_node_ok after_bracket_ok blank_def)
  show "\<exists>ln. main_item u (ws @ n @ '' '' @ v @ '';'' @ p) st = Val n v p (st\<lparr>linenum := ln\<rparr>)"
    if v: "n \<noteq> ''proc''" "value_ok v" "p \<noteq> []"
  proof -
    obtain c cs where c: "v = c # cs" "c \<noteq> CHR ''#''" "c \<noteq> CHR ''{''" "validvalue u c"
      using value_ok_Cons [OF v(2)] by blast
    then have nb: "\<not> blank c" "c \<noteq> CHR ''[''" using validvalue_not_blank by auto
    show ?thesis
      using head [OF assms(2), of "v @ CHR '';'' # p"] ne [of "'' '' @ v @ '';'' @ p"]
        v value_item_ok [OF v(2,3), of u n _ st] c nb
      by (auto simp: main_item_def is_sub_node_ok is_array_node_ok check_keyword_eq)
  qed
  have proc: "name_ok ''proc''" by (simp add: name_ok_def bvalidname_def)
  obtain c cs where c: "n = c # cs" "validname u c"
    using name_ok_Cons [OF assms(2)] name_ok_valid [OF assms(2)] by fastforce
  have nb: "\<not> blank c" "c \<noteq> CHR ''#''" "c \<noteq> CHR ''{''" "c \<noteq> CHR ''[''"
    using validname_not_blank [OF c(2)] c(2) by auto
  obtain ln where h: "find_valid_name u (ws @ ''proc'' @ CHR '' '' # n @ '' {'' @ p) (linenum st)
      = (CHR '' '' # n @ '' {'' @ p, ln, Str ''proc'')"
    using head [OF proc] by blast
  obtain ln2 where "find_valid_name u ([CHR '' ''] @ n @ CHR '' '' # CHR ''{'' # p) ln
      = (CHR '' '' # CHR ''{'' # p, ln2, Str n)"
    using find_valid_name_ok [of "[CHR '' '']" n u "CHR '' ''" "CHR ''{'' # p" ln] assms(2) by auto
  then have "proc_item u (CHR '' '' # n @ '' {'' @ p) ln st = Proc n p (st\<lparr>linenum := ln2\<rparr>)"
    by (simp add: proc_item_def)
  moreover have "main_item u (ws @ ''proc '' @ n @ '' {'' @ p) st
      = proc_item u (CHR '' '' # n @ '' {'' @ p) ln st"
    using h c nb by (simp add: main_item_def is_sub_node_ok is_array_node_ok check_keyword_eq)
  ultimately show "\<exists>ln. main_item u (ws @ ''proc '' @ n @ '' {'' @ p) st = Proc n p (st\<lparr>linenum := ln\<rparr>)"
    by auto
qed

lemma main_item_end:
  assumes "\<forall>c \<in> set ws. blank c" "ws \<noteq> [] \<longrightarrow> \<not> name_null u ws"
  shows "\<exists>ln. main_item u ws st = Stop (Some []) (st\<lparr>linenum := ln\<rparr>) new_node"
proof -
  obtain ln where "jumpspace ws (linenum st) = ([], ln)"
    using jumpspace_all_blank [OF assms(1)] by blast
  then have "main_item u ws st = Stop (Some [])
      (st\<lparr>linenum := if ws = [] then linenum st else ln\<rparr>) new_node"
    using assms(2) by (auto simp: main_item_def find_valid_name_def)
  then show ?thesis ..
qed

text \<open>The top level consumes a rendered chain in the same way.\<close>

lemma parse_main_run:
  assumes "conf_ok True c" "\<forall>x \<in> set ws. blank x"
  shows "\<exists>ln. parse_main u (ws @ render c @ rest) st
    = (case parse_main u (left_over c ws @ rest) (st\<lparr>linenum := ln\<rparr>) of
         (r, st', t) \<Rightarrow> (r, st', tree_onto c t))"
  using assms
proof (induction c arbitrary: ws st)
  case End
  have "parse_main u (ws @ rest) st = (case parse_main u (ws @ rest)
      (st\<lparr>linenum := linenum st\<rparr>) of (r, st', t) \<Rightarrow> (r, st', t))" by simp
  then show ?case by (simp, intro exI [of _ "linenum st"]) simp
next
  case (KV n v c)
  let ?q = "NL # render c @ rest"
  obtain ln where it: "main_item u (ws @ n @ '' '' @ v @ '';'' @ ?q) st = Val n v ?q (st\<lparr>linenum := ln\<rparr>)"
    using KV.prems main_item_ok(3) [of ws n v ?q u st] by auto
  obtain ln' where "parse_main u ([NL] @ render c @ rest) (st\<lparr>linenum := ln\<rparr>)
      = (case parse_main u ([NL] @ rest) (st\<lparr>linenum := ln'\<rparr>) of
         (r, st', t) \<Rightarrow> (r, st', tree_onto c t))"
    using KV.IH [of "[NL]" "st\<lparr>linenum := ln\<rparr>"] KV.prems by auto
  with it KV.prems show ?case
    by (subst parse_main.simps)
       (auto simp: name_copy_ok var_copy_ok split: prod.splits intro!: exI [of _ ln'])
next
  case (ArrM n vs c)
  let ?q = "render_vals vs @ CHR '']'' # NL # render c @ rest"
  obtain ln where it: "main_item u (ws @ n @ '' ['' @ ?q) st = Arr n ?q (st\<lparr>linenum := ln\<rparr>)"
    using ArrM.prems main_item_ok(2) [of ws n u ?q st] by auto
  obtain ln' where "parse_main u ([NL] @ render c @ rest) (st\<lparr>linenum := ln\<rparr>)
      = (case parse_main u ([NL] @ rest) (st\<lparr>linenum := ln'\<rparr>) of
         (r, st', t) \<Rightarrow> (r, st', tree_onto c t))"
    using ArrM.IH [of "[NL]" "st\<lparr>linenum := ln\<rparr>"] ArrM.prems by auto
  with it ArrM.prems show ?case
    by (subst parse_main.simps)
       (auto simp: name_copy_ok parse_arraylh_ok split: prod.splits intro!: exI [of _ ln'])
next
  case (SubM n b c)
  let ?q = "NL # render c @ rest"
  let ?p = "NL # render b @ CHR ''}'' # ?q"
  obtain ln where it: "main_item u (ws @ n @ '' {'' @ ?p) st = Sub n ?p (st\<lparr>linenum := ln\<rparr>)"
    using SubM.prems main_item_ok(1) [of ws n u ?p st] by auto
  obtain ln1 where "parse_smodlh u ?p (st\<lparr>linenum := ln\<rparr>) = (Some ?q, st\<lparr>linenum := ln1\<rparr>, tree_of b)"
    using parse_smodlh_ok [of b u ?q "st\<lparr>linenum := ln\<rparr>"] SubM.prems by auto
  moreover obtain ln2 where "parse_main u ([NL] @ render c @ rest) (st\<lparr>linenum := ln1\<rparr>)
      = (case parse_main u ([NL] @ rest) (st\<lparr>linenum := ln2\<rparr>) of
         (r, st', t) \<Rightarrow> (r, st', tree_onto c t))"
    using SubM.IH(2) [of "[NL]" "st\<lparr>linenum := ln1\<rparr>"] SubM.prems by auto
  ultimately show ?case
    using it SubM.prems by (subst parse_main.simps)
      (auto simp: name_copy_ok tree_of_def split: prod.splits intro!: exI [of _ ln2])
next
  case (ProcM n b c)
  let ?q = "NL # render c @ rest"
  let ?p = "NL # render b @ CHR ''}'' # ?q"
  obtain ln where it: "main_item u (ws @ ''proc '' @ n @ '' {'' @ ?p) st = Proc n ?p (st\<lparr>linenum := ln\<rparr>)"
    using ProcM.prems main_item_ok(4) [of ws n u ?p st] by auto
  obtain ln1 where "parse_smodlh u ?p (st\<lparr>linenum := ln\<rparr>) = (Some ?q, st\<lparr>linenum := ln1\<rparr>, tree_of b)"
    using parse_smodlh_ok [of b u ?q "st\<lparr>linenum := ln\<rparr>"] ProcM.prems by auto
  moreover obtain ln2 where "parse_main u ([NL] @ render c @ rest) (st\<lparr>linenum := ln1\<rparr>)
      = (case parse_main u ([NL] @ rest) (st\<lparr>linenum := ln2\<rparr>) of
         (r, st', t) \<Rightarrow> (r, st', tree_onto c t))"
    using ProcM.IH(2) [of "[NL]" "st\<lparr>linenum := ln1\<rparr>"] ProcM.prems by auto
  ultimately show ?case
    using it ProcM.prems by (subst parse_main.simps)
      (auto simp: name_copy_ok tree_of_def split: prod.splits intro!: exI [of _ ln2])
qed

section \<open>Main properties of the parser\<close>

text \<open>A value of the undetermined inputs, for the concrete instances.\<close>

definition ub0 :: ub where
  "ub0 = \<lparr>tab_name = (\<lambda>_. False), tab_value = (\<lambda>_. False), name_null = (\<lambda>_. False)\<rparr>"

lemma parse_main_end:
  assumes "\<forall>c \<in> set ws. blank c" "ws \<noteq> [] \<longrightarrow> \<not> name_null u ws"
  shows "\<exists>ln. parse_main u ws st = (Some [], st\<lparr>linenum := ln\<rparr>, new_node)"
  using main_item_end [OF assms, of st] by (auto simp: parse_main.simps [of u ws])

lemma parse_main_render:
  assumes "conf_ok True c" "\<not> name_null u [NL]"
  shows "\<exists>ln. parse_main u (render c) st = (Some [], st\<lparr>linenum := ln\<rparr>, tree_of c)"
proof -
  obtain ln where run: "parse_main u (render c) st
      = (case parse_main u (left_over c []) (st\<lparr>linenum := ln\<rparr>) of
           (r, st', t) \<Rightarrow> (r, st', tree_onto c t))"
    using parse_main_run [OF assms(1), of "[]" u "[]" st] by auto
  have "\<forall>c \<in> set (left_over c []). blank c" "left_over c [] \<noteq> [] \<longrightarrow> \<not> name_null u (left_over c [])"
    using assms(2) by auto
  from parse_main_end [OF this, of "st\<lparr>linenum := ln\<rparr>"] run show ?thesis
    by (auto simp: tree_of_def)
qed

text \<open>
  C3. Round trip of the configuration reader: for every configuration \<open>c\<close> whose names and values
  are within the reader's alphabet and field sizes, with nested blocks, arrays and \<^verbatim>\<open>proc\<close> modules
  to any depth, \<^verbatim>\<open>pconf::parse\<close> applied to the rendering of \<open>c\<close> returns 0 and builds exactly the
  tree of \<open>c\<close>. The hypothesis on \<open>name_null\<close> says that the uninitialised \<^verbatim>\<open>name\<close> of \<^verbatim>\<open>parse_main\<close>
  is not \<^verbatim>\<open>NULL\<close> when only the last line feed is left.
\<close>

theorem parse_render:
  assumes "conf_ok True c" "\<not> name_null u [NL]"
  shows "parse u (render c) = (0, tree_of c)"
  using parse_main_render [OF assms, of "\<lparr>linenum = 1, level = 0\<rparr>"] by (auto simp: parse_def)

definition sample_conf :: conf where
  "sample_conf = KV ''daemon'' ''on'' (ArrM ''ports'' [''80'', ''443'']
     (ProcM ''rec'' (SubM ''db'' (KV ''host'' ''127.0.0.1'' End) (KV ''n'' ''4'' End)) End))"

lemma sample_conf_ok: "conf_ok True sample_conf"
  by (simp add: sample_conf_def name_ok_def value_ok_def bvalidname_def bvalidvalue_def)

theorem parse_render_witness:
  "parse ub0 (render sample_conf) = (0, tree_of sample_conf)"
  by (rule parse_render [OF sample_conf_ok]) (simp add: ub0_def)

text \<open>The entries of one level of a configuration, and the look-ups on them.\<close>

fun conf_value :: "conf \<Rightarrow> string \<Rightarrow> string option" where
  "conf_value End k = None"
| "conf_value (KV n v c) k = (if n = k then Some v else conf_value c k)"
| "conf_value (ArrM n vs c) k = conf_value c k"
| "conf_value (SubM n b c) k = conf_value c k"
| "conf_value (ProcM n b c) k = conf_value c k"

fun conf_array :: "conf \<Rightarrow> string \<Rightarrow> string list option" where
  "conf_array End k = None"
| "conf_array (KV n v c) k = conf_array c k"
| "conf_array (ArrM n vs c) k = (if n = k then Some vs else conf_array c k)"
| "conf_array (SubM n b c) k = conf_array c k"
| "conf_array (ProcM n b c) k = conf_array c k"

fun conf_submod :: "conf \<Rightarrow> string \<Rightarrow> conf option" where
  "conf_submod End k = None"
| "conf_submod (KV n v c) k = conf_submod c k"
| "conf_submod (ArrM n vs c) k = conf_submod c k"
| "conf_submod (SubM n b c) k = (if n = k then Some b else conf_submod c k)"
| "conf_submod (ProcM n b c) k = conf_submod c k"


lemma name_ok_cstr: "name_ok n \<Longrightarrow> cstr n = n"
  by (rule cstr_id) (auto simp: name_ok_def bvalidname_def dest: bspec [where x = NUL])

lemma get_value_tree:
  "conf_ok b c \<Longrightarrow> NUL \<notin> set k \<Longrightarrow> get_value_from_node (Some (tree_of c)) k = conf_value c k"
  unfolding tree_of_def by (induction c) (auto simp: new_node_def name_ok_cstr cstr_id)

lemma get_submod_tree:
  "conf_ok b c \<Longrightarrow> NUL \<notin> set k \<Longrightarrow>
   get_submod_from_node (Some (tree_of c)) k = map_option tree_of (conf_submod c k)"
  unfolding tree_of_def by (induction c) (auto simp: new_node_def name_ok_cstr cstr_id)

lemma get_array_tree:
  "conf_ok b c \<Longrightarrow> NUL \<notin> set k \<Longrightarrow>
   (case conf_array c k of
     None \<Rightarrow> get_array_from_node (Some (tree_of c)) k = None
   | Some vs \<Rightarrow> \<exists>t. get_array_from_node (Some (tree_of c)) k
                  = Some (CN k '''' array_t (Some (arr_nodes vs)) t))"
  unfolding tree_of_def
  by (induction c) (auto simp: new_node_def name_ok_cstr cstr_id split: option.splits)

lemma count_arr_nodes: "count_array_ele (Some (arr_nodes vs)) = Some (int (length vs))"
  by (induction vs) (auto simp: new_node_def)

lemma array_ele_at_arr_nodes:
  "array_ele_at (Some (arr_nodes vs)) i j
     = Some (if j \<le> i \<and> i < j + int (length vs) then Some (vs ! nat (i - j)) else None)"
proof (induction vs arbitrary: j)
  case (Cons v vs)
  have "vs ! nat (i - (j + 1)) = (v # vs) ! nat (i - j)" if "j + 1 \<le> i"
  proof -
    have "nat (i - j) = Suc (nat (i - (j + 1)))" using that by simp
    then show ?thesis by simp
  qed
  then show ?case using Cons [of "j + 1"] by auto
qed (simp add: new_node_def)

text \<open>
  C4. Insert/look-up for configuration files: after a rendered configuration is parsed, each
  look-up returns what the file says at that level. \<^verbatim>\<open>get_value_from_node\<close> gives the first entry
  with the name, \<^verbatim>\<open>get_submod_from_node\<close> the parsed block with the name, and an array found by
  \<^verbatim>\<open>get_array_from_node\<close> has the size of the list in the file and its values at exactly the
  indices 0 to size - 1, with \<^verbatim>\<open>NULL\<close> at every other index.
\<close>

theorem parsed_lookups:
  assumes "conf_ok True c" "\<not> name_null u [NL]" "NUL \<notin> set k"
  shows "\<exists>t. parse u (render c) = (0, t)
    \<and> get_value_from_node (Some t) k = conf_value c k
    \<and> get_submod_from_node (Some t) k = map_option tree_of (conf_submod c k)
    \<and> (case conf_array c k of
         None \<Rightarrow> get_array_from_node (Some t) k = None
       | Some vs \<Rightarrow> \<exists>a. get_array_from_node (Some t) k = Some a
           \<and> get_size_from_array (Some a) = Some (int (length vs))
           \<and> get_value_from_array_by_index (Some a) i
               = Some (if 0 \<le> i \<and> i < int (length vs) then Some (vs ! nat i) else None))"
  using get_array_tree [OF assms(1,3)] get_value_tree [OF assms(1,3)]
    get_submod_tree [OF assms(1,3)]
    parse_main_render [OF assms(1,2), of "\<lparr>linenum = 1, level = 0\<rparr>"]
  by (auto simp: parse_def get_size_from_array_def count_arr_nodes
      get_value_from_array_by_index_def array_ele_at_arr_nodes split: option.splits)

theorem parsed_lookups_witness:
  "\<exists>t a. parse ub0 (render sample_conf) = (0, t)
    \<and> get_array_from_node (Some t) ''ports'' = Some a
    \<and> get_size_from_array (Some a) = Some 2
    \<and> get_value_from_array_by_index (Some a) 1 = Some (Some ''443'')"
  using parsed_lookups [OF sample_conf_ok, of ub0 "''ports''" 1]
  by (auto simp: ub0_def sample_conf_def)

section \<open>Well-formedness of whatever is parsed\<close>

text \<open>A chain of array elements closed by an empty node, and the invariant of every parsed tree.\<close>

fun arr_chain :: "CN_S \<Rightarrow> bool" where
  "arr_chain (CN m v t s n) = (s = None \<and> length v < 128
     \<and> (t = empty_t \<and> n = None
        \<or> t = array_ele \<and> (case n of None \<Rightarrow> False | Some r \<Rightarrow> arr_chain r)))"

fun wf_node :: "CN_S \<Rightarrow> bool" where
  "wf_node (CN m v t s n) = (length m < 64 \<and> length v < 128
     \<and> (case s of None \<Rightarrow> t \<noteq> array_t \<and> t \<noteq> subnode_t
        | Some b \<Rightarrow> if t = array_t then arr_chain b else (t = subnode_t \<or> t = proc_mod_t) \<and> wf_node b)
     \<and> (case n of None \<Rightarrow> True | Some r \<Rightarrow> wf_node r))"

lemma arr_chain_new_node [simp]: "arr_chain new_node" and wf_new_node [simp]: "wf_node new_node"
  by (simp_all add: new_node_def)

lemma copies_fit [simp]: "length (name_copy s) < 64" "length (var_copy s) < 128"
  using length_bounded_copy [of CONF_NAMEL s "int (length s)"]
    length_bounded_copy [of CONF_VARL s "int (length s)"]
  by (simp_all add: name_copy_def var_copy_def CONF_NAMEL_def CONF_VARL_def)

lemma parse_arraylh_loop_wf:
  "parse_arraylh_loop u p c st = (r, st', n) \<Longrightarrow> arr_chain n"
proof (induction u p c st arbitrary: r st' n rule: parse_arraylh_loop.induct)
  case (1 u p c st)
  obtain p1 ln1 where js: "jumpspace p (linenum st) = (p1, ln1)" by fastforce
  obtain p2 ln2 out where
    fv: "find_valid_array_value u (if c then tl p1 else p1) ln1 = (p2, ln2, out)"
    by (metis prod_cases3)
  obtain r' st1 rest where
    rec: "parse_arraylh_loop u p2 True (st\<lparr>linenum := ln2\<rparr>) = (r', st1, rest)" by (metis prod_cases3)
  have "arr_chain rest" if "p \<noteq> []" "p1 \<noteq> []" "deref p1 \<noteq> CHR '']''"
    "\<not> (c \<and> deref p1 \<noteq> CHR '','')" "out = Str v" "p2 \<noteq> []" for v
    using "1.IH" [OF that(1) js [symmetric] that(2,3,4) fv [symmetric] refl that(5,6)] rec by simp
  then show ?case
    using "1.prems" js fv rec
    by (subst (asm) parse_arraylh_loop.simps) (auto split: if_splits outp.splits)
qed

lemma parse_arraylh_wf: "parse_arraylh u p st = (r, st', n) \<Longrightarrow> arr_chain n"
  unfolding parse_arraylh_def by (rule parse_arraylh_loop_wf)

lemma check_keyword_kinds [simp]: "check_keyword n \<noteq> array_t" "check_keyword n \<noteq> subnode_t"
  by (simp_all add: check_keyword_eq)

lemma item_stop_wf:
  "smodlh_item u p st = Stop r st' nd \<Longrightarrow> wf_node nd"
  "main_item u p st = Stop r st' nd \<Longrightarrow> wf_node nd"
  by (auto simp: smodlh_item_def main_item_def value_item_def proc_item_def check_keyword_eq
      split: if_splits prod.splits outp.splits)

lemma parse_smodlh_loop_wf:
  "parse_smodlh_loop u p st = (r, st', n) \<Longrightarrow> wf_node n"
proof (induction u p st arbitrary: r st' n rule: parse_smodlh_loop.induct)
  case (1 u p st)
  show ?case
  proof (cases "smodlh_item u p st")
    case (Sub nm s st1)
    show ?thesis
      using "1.IH"(1) [OF Sub] "1.IH"(2) [OF Sub _ refl] "1.prems" Sub
      by (subst (asm) parse_smodlh_loop.simps) (auto split: prod.splits option.splits)
  next
    case (Arr nm s st1)
    show ?thesis
      using "1.IH"(3) [OF Arr _ refl] "1.prems" Arr parse_arraylh_wf [of u s st1]
      by (subst (asm) parse_smodlh_loop.simps) (auto split: prod.splits option.splits)
  next
    case (Val nm v s st1)
    show ?thesis
      using "1.IH"(4) [OF Val] "1.prems" Val
      by (subst (asm) parse_smodlh_loop.simps) (auto split: prod.splits)
  qed (use "1.prems" in \<open>auto simp: parse_smodlh_loop.simps [of u p st] dest: item_stop_wf\<close>)
qed

lemma parse_smodlh_wf: "parse_smodlh u p st = (r, st', n) \<Longrightarrow> wf_node n"
  unfolding parse_smodlh_def by (rule parse_smodlh_loop_wf)

lemma parse_main_wf: "parse_main u p st = (r, st', n) \<Longrightarrow> wf_node n"
proof (induction u p st arbitrary: r st' n rule: parse_main.induct)
  case (1 u p st)
  show ?case
  proof (cases "main_item u p st")
    case (Sub nm s st1)
    show ?thesis
      using "1.IH"(1) [OF Sub _ refl] "1.prems" Sub parse_smodlh_wf [of u s st1]
      by (subst (asm) parse_main.simps) (auto split: prod.splits option.splits)
  next
    case (Arr nm s st1)
    show ?thesis
      using "1.IH"(2) [OF Arr _ refl] "1.prems" Arr parse_arraylh_wf [of u s st1]
      by (subst (asm) parse_main.simps) (auto split: prod.splits option.splits)
  next
    case (Proc nm s st1)
    show ?thesis
      using "1.IH"(3) [OF Proc _ refl] "1.prems" Proc parse_smodlh_wf [of u s st1]
      by (subst (asm) parse_main.simps) (auto split: prod.splits option.splits)
  next
    case (Val nm v s st1)
    show ?thesis
      using "1.IH"(4) [OF Val] "1.prems" Val
      by (subst (asm) parse_main.simps) (auto split: prod.splits)
  qed (use "1.prems" in \<open>auto simp: parse_main.simps [of u p st] dest: item_stop_wf\<close>)
qed

text \<open>The nodes a client can reach from the head of a tree.\<close>

inductive node_reach :: "CN_S \<Rightarrow> CN_S \<Rightarrow> bool" for t where
  head: "node_reach t t"
| follow_nxt: "node_reach t x \<Longrightarrow> nxt x = Some y \<Longrightarrow> node_reach t y"
| follow_smodlh: "node_reach t x \<Longrightarrow> smodlh x = Some y \<Longrightarrow> node_reach t y"

lemma node_reach_wf: "node_reach t x \<Longrightarrow> wf_node t \<Longrightarrow> wf_node x \<or> arr_chain x"
proof (induction rule: node_reach.induct)
  case (follow_nxt x y)
  then show ?case by (cases x) (auto split: option.splits)
next
  case (follow_smodlh x y)
  then show ?case by (cases x) (auto split: if_splits)
qed simp

lemma get_array_wf:
  "wf_node x \<or> arr_chain x \<Longrightarrow> get_array_from_node (Some x) k = Some a \<Longrightarrow>
   ntype a = array_t \<and> (\<exists>b. smodlh a = Some b \<and> arr_chain b)"
proof (induction "Some x" k arbitrary: x rule: get_array_from_node.induct)
  case (2 m v t s n mn)
  show ?case
  proof (cases "t = array_t \<and> STRMATCH mn m")
    case True
    with 2 show ?thesis by (auto split: option.splits)
  next
    case False
    then obtain y where "n = Some y" "get_array_from_node (Some y) mn = Some a"
      using 2(3) by (cases n) auto
    then show ?thesis using 2(1) [OF False] 2(2) by (auto split: option.splits)
  qed
qed

lemma arr_chain_walk:
  "arr_chain b \<Longrightarrow> \<exists>n \<ge> 0. count_array_ele (Some b) = Some n \<and>
     (\<forall>i. (\<exists>v. array_ele_at (Some b) i j = Some (Some v) \<and> length v < 128) \<and> j \<le> i \<and> i < j + n
        \<or> array_ele_at (Some b) i j = Some None \<and> \<not> (j \<le> i \<and> i < j + n))"
proof (induction b arbitrary: j rule: arr_chain.induct)
  case (1 m v t s n)
  show ?case
  proof (cases "t = array_ele")
    case True
    then obtain r where r: "n = Some r" "arr_chain r" using 1 by (auto split: option.splits)
    obtain k where k: "k \<ge> 0" "count_array_ele (Some r) = Some k"
      "\<forall>i. (\<exists>v. array_ele_at (Some r) i (j + 1) = Some (Some v) \<and> length v < 128)
          \<and> j + 1 \<le> i \<and> i < (j + 1) + k
        \<or> array_ele_at (Some r) i (j + 1) = Some None \<and> \<not> (j + 1 \<le> i \<and> i < (j + 1) + k)"
      using 1(1) [OF r] by blast
    show ?thesis
    proof (intro exI [of _ "k + 1"] conjI allI)
      fix i
      show "(\<exists>v'. array_ele_at (Some (CN m v t s n)) i j = Some (Some v') \<and> length v' < 128)
          \<and> j \<le> i \<and> i < j + (k + 1)
        \<or> array_ele_at (Some (CN m v t s n)) i j = Some None \<and> \<not> (j \<le> i \<and> i < j + (k + 1))"
        using k(1) k(3) [rule_format, of i] r True 1(2) by (cases "i = j") auto
    qed (use k r True in auto)
  next
    case False
    then show ?thesis using 1 by auto
  qed
qed

text \<open>
  C5. Memory safety of the array accessors on every input: whatever bytes are parsed, with
  whatever result, in every array found from any node of the resulting tree
  \<^verbatim>\<open>get_size_from_array\<close> and \<^verbatim>\<open>get_value_from_array_by_index\<close> never read through a null pointer,
  the size is not negative, exactly the indices from 0 to size - 1 give a value, and each value
  fits its 128-byte field.
\<close>

theorem array_access_safe:
  assumes "parse u buf = (rc, t)" "node_reach t m" "get_array_from_node (Some m) k = Some a"
  shows "\<exists>n \<ge> 0. get_size_from_array (Some a) = Some n \<and>
     (\<forall>i. (\<exists>v. get_value_from_array_by_index (Some a) i = Some (Some v) \<and> length v < 128)
            \<and> 0 \<le> i \<and> i < n
        \<or> get_value_from_array_by_index (Some a) i = Some None \<and> \<not> (0 \<le> i \<and> i < n))"
proof -
  have "wf_node t"
    using assms(1) parse_main_wf by (auto simp: parse_def split: prod.splits)
  then obtain b where "ntype a = array_t" "smodlh a = Some b" "arr_chain b"
    using get_array_wf [OF node_reach_wf [OF assms(2)] assms(3)] by blast
  then show ?thesis
    using arr_chain_walk [of b 0]
    by (simp add: get_size_from_array_def get_value_from_array_by_index_def)
qed

theorem array_access_safe_witness:
  "\<exists>t a. parse ub0 ''a [1,2] b [3'' = (-1, t) \<and> get_array_from_node (Some t) ''a'' = Some a
     \<and> (\<exists>n \<ge> 0. get_size_from_array (Some a) = Some n)"
proof -
  let ?e = "\<lambda>v r. CN '''' v array_ele None (Some r)"
  let ?b = "CN ''b'' '''' array_t (Some new_node) (Some new_node)"
  let ?a = "CN ''a'' '''' array_t (Some (?e ''1'' (?e ''2'' new_node))) (Some ?b)"
  have p: "parse ub0 ''a [1,2] b [3'' = (-1, ?a)" by code_simp
  have g: "get_array_from_node (Some ?a) ''a'' = Some ?a" by simp
  show ?thesis
    using array_access_safe [OF p node_reach.head g] p g by blast
qed

section \<open>Rejected files\<close>

lemma parse_run:
  assumes "conf_ok True c" "\<forall>x \<in> set (left_over c []). blank x \<Longrightarrow>
     \<forall>ln. fst (parse_main u (left_over c [] @ rest) \<lparr>linenum = ln, level = 0\<rparr>) = None"
  shows "fst (parse u (render c @ rest)) = -1"
proof -
  let ?st = "\<lparr>linenum = 1, level = 0\<rparr>"
  obtain ln where run: "parse_main u (render c @ rest) ?st
      = (case parse_main u (left_over c [] @ rest) (?st\<lparr>linenum := ln\<rparr>) of
           (r, st', t) \<Rightarrow> (r, st', tree_onto c t))"
    using parse_main_run [OF assms(1), of "[]" u rest ?st] by auto
  have "\<forall>x \<in> set (left_over c []). blank x" by simp
  from assms(2) [OF this]
  have "fst (parse_main u (left_over c [] @ rest) \<lparr>linenum = ln, level = 0\<rparr>) = None" by blast
  then obtain st' t where "parse_main u (left_over c [] @ rest) \<lparr>linenum = ln, level = 0\<rparr> = (None, st', t)"
    by (metis prod.collapse)
  with run show ?thesis by (simp add: parse_def)
qed

lemma smodlh_loop_unclosed:
  assumes "conf_ok False b"
  shows "fst (parse_smodlh u (NL # render b) st) = None"
proof -
  let ?st = "st\<lparr>level := level st + 1\<rparr>"
  obtain ln where run: "parse_smodlh u (NL # render b) st
      = (case parse_smodlh_loop u [NL] (?st\<lparr>linenum := ln\<rparr>) of (r, st', t) \<Rightarrow> (r, st', tree_onto b t))"
    using parse_smodlh_loop_run [OF assms, of "[NL]" u "[]" ?st] by (auto simp: parse_smodlh_def)
  have "smodlh_item u [NL] s = Stop None (s\<lparr>linenum := linenum s + 1\<rparr>) new_node" for s
    by (simp add: smodlh_item_def)
  then show ?thesis
    unfolding run by (simp add: parse_smodlh_loop.simps [of u "[NL]"])
qed

text \<open>
  C6. A block that is never closed is an error: a well-formed configuration followed by a
  sub-module whose closing brace is missing makes \<^verbatim>\<open>pconf::parse\<close> return -1, whatever the body.
\<close>

theorem unclosed_block_rejected:
  assumes "conf_ok True c" "name_ok n" "conf_ok False b"
  shows "fst (parse u (render c @ n @ '' {'' @ [NL] @ render b)) = -1"
proof (rule parse_run [OF assms(1)], intro allI)
  fix ln
  let ?ws = "left_over c []" and ?st = "\<lparr>linenum = ln, level = 0\<rparr>"
  assume "\<forall>x \<in> set ?ws. blank x"
  then obtain ln' where
    "main_item u (?ws @ n @ '' {'' @ [NL] @ render b) ?st = Sub n ([NL] @ render b) (?st\<lparr>linenum := ln'\<rparr>)"
    using main_item_ok(1) [of ?ws n u "[NL] @ render b" ?st] assms(2) by blast
  then show "fst (parse_main u (?ws @ n @ '' {'' @ [NL] @ render b) ?st) = None"
    using smodlh_loop_unclosed [OF assms(3), of u "?st\<lparr>linenum := ln'\<rparr>"]
    by (subst parse_main.simps) (auto split: prod.splits)
qed

theorem unclosed_block_rejected_witness:
  "fst (parse ub0 (render sample_conf @ ''db'' @ '' {'' @ [NL] @ render (KV ''n'' ''4'' End))) = -1"
  by (rule unclosed_block_rejected [OF sample_conf_ok])
     (simp_all add: name_ok_def value_ok_def bvalidname_def bvalidvalue_def)

text \<open>
  A file whose last byte is the semicolon of a top-level entry is rejected: the test
  \<^verbatim>\<open>p >= end\<close> behind \<^verbatim>\<open>find_valid_value\<close> takes the end of a complete entry for a missing value,
  although the same file with one more line feed is accepted.
\<close>

theorem final_semicolon_rejected:
  assumes "conf_ok True c" "name_ok n" "n \<noteq> ''proc''" "value_ok v"
  shows "fst (parse u (render c @ n @ '' '' @ v @ '';'')) = -1
    \<and> (\<not> name_null u [NL] \<longrightarrow> fst (parse u ((n @ '' '' @ v @ '';'') @ [NL])) = 0)"
proof (intro conjI impI)
  show "fst (parse u (render c @ n @ '' '' @ v @ '';'')) = -1"
  proof (rule parse_run [OF assms(1)], intro allI)
    fix ln
    let ?ws = "left_over c []" and ?st = "\<lparr>linenum = ln, level = 0\<rparr>"
    assume ws: "\<forall>x \<in> set ?ws. blank x"
    obtain d ds where d: "v = d # ds" "d \<noteq> CHR ''#''" "d \<noteq> CHR ''{''" "validvalue u d"
      using value_ok_Cons [OF assms(4)] by blast
    then have nb: "\<not> blank d" "d \<noteq> CHR ''[''" using validvalue_not_blank by auto
    obtain ln' where f: "find_valid_name u (?ws @ n @ CHR '' '' # v @ '';'') ln
        = (CHR '' '' # v @ '';'', ln', Str n)"
      using find_valid_name_ok [OF ws assms(2), of u "CHR '' ''" "v @ '';''" ln] by auto
    have "value_item u n (CHR '' '' # v @ '';'') k ?st
        = Stop None (?st\<lparr>linenum := k\<rparr>) (CN (name_copy n) '''' char_t None None)" for k
      using find_valid_value_ok [OF assms(4), of u "[]" k] by (simp add: value_item_def)
    moreover have "main_item u (?ws @ n @ '' '' @ v @ '';'') ?st
        = value_item u n (CHR '' '' # v @ '';'') ln' ?st"
      using f d nb assms(2,3)
      by (simp add: main_item_def is_sub_node_ok is_array_node_ok check_keyword_eq name_ok_def)
    ultimately show "fst (parse_main u (?ws @ n @ '' '' @ v @ '';'') ?st) = None"
      by (subst parse_main.simps) simp
  qed
next
  assume "\<not> name_null u [NL]"
  then show "fst (parse u ((n @ '' '' @ v @ '';'') @ [NL])) = 0"
    using parse_main_render [of "KV n v End" u "\<lparr>linenum = 1, level = 0\<rparr>"] assms(2,3,4)
    by (auto simp: parse_def)
qed

theorem final_semicolon_rejected_witness:
  "fst (parse ub0 (render End @ ''a'' @ '' '' @ ''1'' @ '';'')) = -1
   \<and> fst (parse ub0 ((''a'' @ '' '' @ ''1'' @ '';'') @ [NL])) = 0"
  using final_semicolon_rejected [of End "''a''" "''1''" ub0]
  by (simp add: name_ok_def value_ok_def bvalidname_def bvalidvalue_def ub0_def)

text \<open>
  The verdict on a correct file depends on an uninitialised variable: when only blanks are
  left, \<^verbatim>\<open>find_valid_name\<close> returns without writing \<^verbatim>\<open>name\<close>, and \<^verbatim>\<open>parse_main\<close> then compares the
  uninitialised pointer with \<^verbatim>\<open>NULL\<close>. A non-empty well-formed file is accepted exactly when that
  pointer happens not to be null.
\<close>

theorem uninitialised_name_decides:
  assumes "conf_ok True c" "c \<noteq> End"
  shows "fst (parse u (render c)) = (if name_null u [NL] then -1 else 0)"
proof (cases "name_null u [NL]")
  case True
  have "main_item u [NL] st = Stop None (st\<lparr>linenum := linenum st + 1\<rparr>) new_node" for st
    using True by (simp add: main_item_def find_valid_name_def)
  then have "fst (parse_main u ([NL] @ []) st) = None" for st
    by (simp add: parse_main.simps [of u "[NL]"])
  then show ?thesis
    using parse_run [OF assms(1), of u "[]"] assms(2) True by simp
next
  case False
  then show ?thesis
    using parse_main_render [OF assms(1) False, of "\<lparr>linenum = 1, level = 0\<rparr>"]
    by (auto simp: parse_def)
qed

theorem uninitialised_name_decides_witness:
  "fst (parse (ub0\<lparr>name_null := \<lambda>_. True\<rparr>) (render sample_conf)) = -1
   \<and> fst (parse ub0 (render sample_conf)) = 0"
  using uninitialised_name_decides [OF sample_conf_ok, of "ub0\<lparr>name_null := \<lambda>_. True\<rparr>"]
    uninitialised_name_decides [OF sample_conf_ok, of ub0]
  by (simp add: ub0_def sample_conf_def)

section \<open>The file buffer\<close>

text \<open>What \<^verbatim>\<open>read\<close> may return: non-empty pieces, none longer than the space asked for.\<close>

fun reads_ok :: "nat \<Rightarrow> char list list \<Rightarrow> bool" where
  "reads_ok remain [] = True"
| "reads_ok remain (b # bs) = (b \<noteq> [] \<and> length b \<le> remain
     \<and> reads_ok (if length b = remain then 1024 else remain - length b) bs)"

definition buf_inv :: "char list \<Rightarrow> nat \<Rightarrow> nat \<Rightarrow> char list \<Rightarrow> bool" where
  "buf_inv cells tot remain dat \<longleftrightarrow> length dat = tot \<and> take tot cells = dat
     \<and> (length cells = 262144 \<or> length cells = 263168)
     \<and> (\<forall>i. tot \<le> i \<and> i < 262144 \<longrightarrow> cells ! i = NUL)
     \<and> 0 < remain \<and> remain \<le> 1024 \<and> (tot + remain) mod 1024 = 0"

lemma nth_overwrite:
  "i + length bs \<le> length cells \<Longrightarrow> j < length cells \<Longrightarrow>
   overwrite cells i bs ! j = (if i \<le> j \<and> j < i + length bs then bs ! (j - i) else cells ! j)"
  by (auto simp: overwrite_def nth_append)

lemma length_overwrite [simp]:
  "i + length bs \<le> length cells \<Longrightarrow> length (overwrite cells i bs) = length cells"
  by (simp add: overwrite_def)

lemma take_overwrite:
  "i + length bs \<le> length cells \<Longrightarrow> take (i + length bs) (overwrite cells i bs) = take i cells @ bs"
  by (simp add: overwrite_def)

lemma take_overwrite_before:
  "n \<le> i \<Longrightarrow> i \<le> length cells \<Longrightarrow> take n (overwrite cells i bs) = take n cells"
  by (simp add: overwrite_def min_absorb1)

lemma buf_inv_write:
  assumes "buf_inv cells tot remain dat" "length bs < remain" "tot + length bs \<le> length cells"
  shows "buf_inv (overwrite cells tot bs) (tot + length bs) (remain - length bs) (dat @ bs)"
  using assms by (auto simp: buf_inv_def take_overwrite nth_overwrite)

lemma length_realloc [simp]: "length (realloc junk cells n) = n"
  by (simp add: realloc_def)

lemma realloc_keeps:
  "length cells \<le> n \<Longrightarrow> i < length cells \<Longrightarrow> realloc junk cells n ! i = cells ! i"
  "length cells \<le> n \<Longrightarrow> k \<le> length cells \<Longrightarrow> take k (realloc junk cells n) = take k cells"
  by (simp_all add: realloc_def nth_append)

lemma buf_inv_grow:
  fixes junk :: "nat \<Rightarrow> char"
  assumes "buf_inv cells tot remain dat" "length bs = remain" "tot + length bs < 262144"
  defines "cells2 \<equiv> realloc junk (overwrite cells tot bs) 263168"
  shows "tot + 2048 \<le> length cells2"
    and "buf_inv (overwrite cells2 (tot + 1024) (replicate 1024 NUL)) (tot + length bs) 1024 (dat @ bs)"
proof -
  have len: "length (overwrite cells tot bs) = length cells" "length cells \<le> 263168"
    "262144 \<le> length cells" using assms by (auto simp: buf_inv_def)
  have m: "(tot + length bs) mod 1024 = 0" using assms(1,2) by (simp add: buf_inv_def)
  then obtain q where "tot + length bs = 1024 * q" by (auto simp: mod_eq_0_iff_dvd dvd_def)
  then have le: "tot + length bs \<le> 261120" using assms(3) by simp
  then show fits: "tot + 2048 \<le> length cells2"
    using assms(1,2) by (simp add: cells2_def buf_inv_def)
  have tot: "tot + length bs \<le> tot + 1024" using assms(1,2) by (simp add: buf_inv_def)
  have "take (tot + length bs) (overwrite cells tot bs) = dat @ bs"
    using assms(1) le len take_overwrite [of tot bs cells] by (simp add: buf_inv_def)
  then have "take (tot + length bs) (overwrite cells2 (tot + 1024) (replicate 1024 NUL)) = dat @ bs"
    using len le tot fits by (simp add: take_overwrite_before cells2_def realloc_keeps)
  moreover have "overwrite cells2 (tot + 1024) (replicate 1024 NUL) ! i = NUL"
    if "tot + length bs \<le> i" "i < 262144" for i
    using that assms(1,2) len fits
    by (auto simp: nth_overwrite cells2_def realloc_keeps buf_inv_def)
  ultimately show "buf_inv (overwrite cells2 (tot + 1024) (replicate 1024 NUL))
      (tot + length bs) 1024 (dat @ bs)"
    using m fits assms(1) by (auto simp: buf_inv_def cells2_def)
qed

lemma readfile_loop_safe:
  assumes "buf_inv cells tot remain dat" "reads_ok remain bs" "tot + length (concat bs) < 262144"
  shows "\<exists>cells' remain'. readfile_loop junk 262144 cells tot remain (map Some bs)
     = Done cells' (tot + length (concat bs)) \<and> buf_inv cells' (tot + length (concat bs)) remain' (dat @ concat bs)"
  using assms
proof (induction bs arbitrary: cells tot remain dat)
  case (Cons b bs)
  then have b: "b \<noteq> []" "length b \<le> remain" by simp_all
  have fit: "tot + length b \<le> length cells" using Cons.prems by (auto simp: buf_inv_def)
  show ?case
  proof (cases "length b = remain")
    case True
    note g = buf_inv_grow [OF Cons.prems(1) True, of junk]
    have lt: "tot + length b < 262144" using Cons.prems(3) by simp
    show ?thesis
      using Cons.IH [OF g(2) [OF lt]] g(1) [OF lt] Cons.prems(2,3) True b fit
      by (simp add: add.assoc)
  next
    case False
    then have "length b < remain" using b by simp
    from Cons.IH [OF buf_inv_write [OF Cons.prems(1) this fit]] False Cons.prems(2,3) b fit
    show ?thesis by (simp add: add.assoc)
  qed
qed auto



lemma readfile_loop_overflow:
  assumes "length b = 1024" "buf_inv cells (k * 1024) 1024 dat \<or> k = 256 \<and> length cells = 263168"
    "k \<le> 256"
  shows "readfile_loop junk 262144 cells (k * 1024) 1024 (replicate (257 - k + n) (Some b)) = Overflow"
  using assms(2,3)
proof (induction "256 - k" arbitrary: k cells dat)
  case 0
  then have k: "k = 256" by simp
  show ?case
  proof (cases "length cells = 263168")
    case True
    then show ?thesis using k assms(1) by (auto simp: replicate_add)
  next
    case False
    then show ?thesis using 0 k assms(1) by (auto simp: buf_inv_def replicate_add)
  qed
next
  case (Suc d)
  then have inv: "buf_inv cells (k * 1024) 1024 dat" and k: "k \<le> 255" "256 - Suc k = d" by auto
  have rep: "replicate (257 - k + n) (Some b) = Some b # replicate (257 - Suc k + n) (Some b)"
    using k by (cases "257 - k") auto
  let ?c2 = "realloc junk (overwrite cells (k * 1024) b) 263168"
  let ?c3 = "overwrite ?c2 (k * 1024 + 1024) (replicate 1024 NUL)"
  have len: "length ?c3 = 263168" using k by simp
  have "buf_inv ?c3 (Suc k * 1024) 1024 (dat @ b) \<or> Suc k = 256 \<and> length ?c3 = 263168"
    using buf_inv_grow(2) [OF inv assms(1), of junk] k len assms(1)
    by (cases "k = 255") (auto simp: algebra_simps)
  then have "readfile_loop junk 262144 ?c3 (Suc k * 1024) 1024 (replicate (257 - Suc k + n) (Some b)) = Overflow"
    using Suc.hyps(1) [of "Suc k" ?c3 "dat @ b"] k by auto
  moreover have "k * 1024 + 1024 \<le> length cells" using inv k by (auto simp: buf_inv_def)
  ultimately show ?case
    unfolding rep using assms(1) k by (auto simp: algebra_simps)
qed

text \<open>
  The buffer overflows on longer files: \<^verbatim>\<open>buflen\<close> is never updated, so every
  \<^verbatim>\<open>realloc(buf, buflen+1024)\<close> asks for the same 257 K, and a file of at least 257 blocks of 1024
  bytes makes \<^verbatim>\<open>readfile\<close> write behind the block. This is the case for every content.
\<close>

theorem readconf_overflow:
  assumes "length b = 1024"
  shows "readconf True True junk (replicate (257 + n) (Some b)) = Inr None"
proof -
  have "buf_inv (replicate 262144 NUL) 0 1024 []" by (simp add: buf_inv_def)
  with readfile_loop_overflow [OF assms, of "replicate 262144 NUL" 0 "[]" junk n] show ?thesis
    by (simp add: readconf_def readfile_def)
qed

theorem readconf_overflow_witness:
  "readconf True True (\<lambda>_. NUL) (replicate (257 + 0) (Some (replicate 1024 CHR ''a''))) = Inr None"
  by (rule readconf_overflow) simp

end
