(* ===== verification/Scan.thy ===== *)
theory Scan
  imports P_String
begin

text \<open>
  The library functions that print and read decimal numbers in text: \<^verbatim>\<open>sprintf\<close>, \<^verbatim>\<open>sscanf\<close> with \<^verbatim>\<open>%d\<close>
  and \<^verbatim>\<open>atoi\<close>, and that reading gives back what was printed.
\<close>

text \<open>
  \<^verbatim>\<open>sprintf\<close> into an array of \<open>n\<close> cells; \<^verbatim>\<open>sscanf\<close> with \<^verbatim>\<open>%d\<close>: the number, cut to an \<^verbatim>\<open>int\<close>, and the
  rest of the text.
\<close>

definition sprintf :: "nat \<Rightarrow> string \<Rightarrow> string option" where
  "sprintf n s = (if length s < n then Some s else None)"

definition is_space :: "char \<Rightarrow> bool" where
  "is_space c \<longleftrightarrow> c \<in> {CHR '' '', CHR 0x09, CHR 0x0A, CHR 0x0B, CHR 0x0C, CHR 0x0D}"

definition dec_int :: "bool \<Rightarrow> string \<Rightarrow> int" where
  "dec_int neg ds = sint (word_of_int (if neg then - int (dec_value ds) else int (dec_value ds)) :: 32 word)"

definition scan_d :: "string \<Rightarrow> (int \<times> string) option" where
  "scan_d s =
     (let t = dropWhile is_space s;
          neg = (t \<noteq> [] \<and> hd t = CHR ''-'');
          u = (if t \<noteq> [] \<and> (hd t = CHR ''-'' \<or> hd t = CHR ''+'') then tl t else t);
          ds = takeWhile is_digit u
      in if ds = [] then None else Some (dec_int neg ds, dropWhile is_digit u))"

text \<open>The variable keeps the value \<open>old\<close> when there is no number.\<close>

definition scan_into :: "int \<Rightarrow> string \<Rightarrow> int" where
  "scan_into old s = (case scan_d s of None \<Rightarrow> old | Some (v, _) \<Rightarrow> v)"

definition atoi :: "string \<Rightarrow> int" where
  "atoi s = scan_into 0 s"

section \<open>Numbers in text\<close>

text \<open>\<^verbatim>\<open>%d\<close> read back what \<^verbatim>\<open>%d\<close> printed.\<close>

lemma nat_str_digits: "\<forall>c \<in> set (nat_str n). is_digit c"
  by (induction n rule: nat_str.induct) (subst nat_str.simps, auto simp: is_digit_def)

lemma nat_str_not_Nil [simp]: "nat_str n \<noteq> []"
  by (subst nat_str.simps) simp

lemma nat_str_length: "n < 10 ^ Suc k \<Longrightarrow> length (nat_str n) \<le> Suc k"
proof (induction k arbitrary: n)
  case 0
  then show ?case by (subst nat_str.simps) simp
next
  case (Suc k)
  show ?case
  proof (cases "n < 10")
    case True
    then show ?thesis by (subst nat_str.simps) simp
  next
    case False
    have "n div 10 < 10 ^ Suc k" using Suc.prems by (simp add: less_mult_imp_div_less mult.commute)
    then show ?thesis using Suc.IH False by (subst nat_str.simps) simp
  qed
qed

lemma dec_value_snoc: "dec_value (ds @ [c]) = dec_value ds * 10 + (of_char c - 48)"
  by (simp add: dec_value_def)

lemma dec_value_nat_str [simp]: "dec_value (nat_str n) = n"
proof (induction n rule: nat_str.induct)
  case (1 n)
  show ?case
  proof (cases "n < 10")
    case True
    then show ?thesis by (subst nat_str.simps) (simp add: dec_value_def)
  next
    case False
    with 1 show ?thesis by (subst nat_str.simps) (simp add: dec_value_snoc)
  qed
qed

lemma digit_not_special: "is_digit c \<Longrightarrow> \<not> is_space c \<and> c \<noteq> CHR ''-'' \<and> c \<noteq> CHR ''+'' \<and> c \<noteq> CHR '','' \<and> c \<noteq> CHR ''(''"
  by (auto simp: is_digit_def is_space_def)

lemma hd_nat_str: "is_digit (hd (nat_str n))"
  using nat_str_digits [of n] by (simp add: Ball_def)

lemma scan_d_dec_str:
  assumes "- (2 ^ 31) \<le> i" "i < 2 ^ 31" "rest = [] \<or> \<not> is_digit (hd rest)"
  shows "scan_d (dec_str i @ rest) = Some (i, rest)"
proof -
  define n where "n = nat \<bar>i\<bar>"
  have d: "\<forall>c \<in> set (nat_str n). is_digit c" by (rule nat_str_digits)
  have t: "takeWhile is_digit (nat_str n @ rest) = nat_str n"
    using assms(3) d by (cases rest) (auto simp: takeWhile_append)
  have r: "dropWhile is_digit (nat_str n @ rest) = rest"
    using assms(3) d by (rule dropWhile_append_stop [rotated])
  have h: "hd (nat_str n @ rest) = hd (nat_str n)" by simp
  have w: "sint (word_of_int i :: 32 word) = i"
    using assms(1,2) by (simp add: signed_of_int signed_take_bit_int_eq_self)
  show ?thesis
  proof (cases "i < 0")
    case True
    then have "dec_str i = CHR ''-'' # nat_str n" by (simp add: dec_str_def n_def)
    then show ?thesis using t r w True by (simp add: scan_d_def is_space_def Let_def dec_int_def n_def)
  next
    case False
    then have "dec_str i = nat_str n" by (simp add: dec_str_def n_def)
    moreover have "dropWhile is_space (nat_str n @ rest) = nat_str n @ rest"
      using digit_not_special [OF hd_nat_str [of n]] by (cases "nat_str n") auto
    ultimately show ?thesis
      using t r w False digit_not_special [OF hd_nat_str [of n]] by (simp add: scan_d_def Let_def dec_int_def n_def)
  qed
qed

end
