(* ===== verification/Record_Control.thy ===== *)
theory Record_Control
  imports Process_System Pconf_Roundtrip Scan
begin

text \<open>
  The HTTP front end of \<^verbatim>\<open>src/src/app/record_control.cpp\<close>: the start-up from the configuration tree,
  the routing table of \<^verbatim>\<open>exec\<close> and the handlers. A request is the C string at the start of the input
  buffer (\<open>None\<close> when there is no buffer), a reply is the status, the reason and the body that the
  handler sends. \<open>None\<close> as the result of a handler is a handler that does not return, either by an
  exception of the JSON reader that nothing catches or below \<^verbatim>\<open>create_m3u8\<close>.
\<close>

record app_data =
  ad_host :: string
  ad_port :: string
  ad_root_path :: string

record reply =
  rp_code :: int
  rp_reason :: string
  rp_body :: string

text \<open>\<^verbatim>\<open>CRecordCtl::init\<close>; \<open>None\<close> is \<^verbatim>\<open>exit(0)\<close>.\<close>

definition ctl_init :: "CN_S option \<Rightarrow> app_data option" where
  "ctl_init mod_tree =
     (case get_value_from_node mod_tree ''port'' of None \<Rightarrow> None
      | Some port \<Rightarrow>
        (case get_value_from_node mod_tree ''root'' of None \<Rightarrow> None
         | Some root_path \<Rightarrow>
           (case get_value_from_node mod_tree ''host'' of None \<Rightarrow> None
            | Some host \<Rightarrow> Some \<lparr>ad_host = host, ad_port = port, ad_root_path = root_path\<rparr>)))"

datatype handler = Start_record | Stop_record | Create_record | Remove_record

text \<open>The callbacks that \<^verbatim>\<open>CRecordCtl::exec\<close> registers.\<close>

definition ctl_routes :: "(string \<times> handler) list" where
  "ctl_routes =
     [(''/api/r3/start'', Start_record),
      (''/api/r3/stop'', Stop_record),
      (''/api/r3/create'', Create_record),
      (''/api/r3/delete'', Remove_record)]"

text \<open>
  \<^verbatim>\<open>exec\<close>: \<open>evhttp_start\<close> tells whether the address and port could be bound, with the port cut to 16 bits as the
  library declares it; \<open>None\<close> is \<^verbatim>\<open>exit(0)\<close>. The result is the table the event loop then works with. \<^verbatim>\<open>stop\<close> breaks that loop.
\<close>

definition ctl_exec :: "(string \<Rightarrow> 16 word \<Rightarrow> bool) \<Rightarrow> app_data \<Rightarrow> (string \<times> handler) list option" where
  "ctl_exec evhttp_start data =
     (if \<not> evhttp_start ''0.0.0.0'' (word_of_int (atoi (ad_port data))) then None else Some ctl_routes)"

definition ctl_stop :: "('w \<Rightarrow> 'w) \<Rightarrow> 'w \<Rightarrow> int \<times> 'w" where
  "ctl_stop event_loopbreak w = (0, event_loopbreak w)"

definition quot :: string where "quot = [CHR 0x22]"

text \<open>The two shapes of body that the handlers build.\<close>

definition error_body :: "string \<Rightarrow> string \<Rightarrow> string" where
  "error_body code txt = ''{'' @ quot @ ''error_code'' @ quot @ '':'' @ code @ '','' @ quot
     @ ''error_text'' @ quot @ '':'' @ quot @ txt @ quot @ ''}''"

definition ret_body :: "string \<Rightarrow> string \<Rightarrow> string" where
  "ret_body code rest = ''{'' @ quot @ ''ret'' @ quot @ '':'' @ code @ '','' @ quot
     @ ''msg'' @ quot @ '':'' @ quot @ rest"

definition input_no_match :: "int \<Rightarrow> reply" where
  "input_no_match r = \<lparr>rp_code = 400, rp_reason = ''paramter not match'',
     rp_body = error_body (snprintf 256 (dec_str r)) ''input not match''\<rparr>"

definition http_body_null :: reply where
  "http_body_null = \<lparr>rp_code = 400, rp_reason = ''http body null'',
     rp_body = error_body (snprintf 256 (dec_str 400)) ''http post body null''\<rparr>"

text \<open>\<^verbatim>\<open>path.rfind("/")\<close> and \<^verbatim>\<open>substr(0, pos)\<close>: the path up to its last slash.\<close>

definition up_to_last_slash :: "string \<Rightarrow> string" where
  "up_to_last_slash path =
     (if CHR ''/'' \<in> set path then rev (tl (dropWhile (\<lambda>c. c \<noteq> CHR ''/'') (rev path))) else path)"

definition create_record ::
  "('w, 'c, 'k, 'j, 'z) env_scheme \<Rightarrow> app_data \<Rightarrow> string option \<Rightarrow> ('w, reply option) state" where
  "create_record E data body =
     (case body of None \<Rightarrow> ret (Some http_body_null)
      | Some b \<Rightarrow>
        (case json_parse E b of None \<Rightarrow> ret (Some (input_no_match 0))
         | Some root \<Rightarrow>
           (case json_str E root ''path'' of None \<Rightarrow> ret None
            | Some path \<Rightarrow>
              (case json_str E root ''streamcode'' of None \<Rightarrow> ret None
               | Some streamcode \<Rightarrow>
                 do { made \<leftarrow> create_m3u8 E \<lparr>mp_path = snprintf 256
                        (ad_root_path data @ cstr (up_to_last_slash path) @ ''/''),
                        mp_sid = streamcode, mp_file_path = ''''\<rparr>;
                      ret (map_option (\<lambda>(r, param).
                        if r = ec REC_ERROR_CREATE_M3U8_FILE
                        then \<lparr>rp_code = 400, rp_reason = ''paramter not match'',
                              rp_body = ret_body (snprintf 256 (dec_str r)) (''create task failed'' @ quot @ ''}'')\<rparr>
                        else \<lparr>rp_code = 200, rp_reason = ''OK'',
                              rp_body = ret_body ''0'' (''create task start'' @ quot @ '','' @ quot @ ''path'' @ quot
                                @ '':'' @ quot @ cstr (mp_file_path param) @ quot @ ''}'')\<rparr>) made) }))))"

definition remove_record :: "string option \<Rightarrow> unit" where
  "remove_record body = ()"

definition start_record ::
  "('w, 'c, 'k, 'j, 'z) env_scheme \<Rightarrow> app_data \<Rightarrow> string option \<Rightarrow> pm \<Rightarrow> reply option \<times> pm" where
  "start_record E data body pm =
     (case body of None \<Rightarrow> (Some http_body_null, pm)
      | Some b \<Rightarrow>
        (case json_parse E b of None \<Rightarrow> (Some (input_no_match 0), pm)
         | Some root \<Rightarrow>
           (case json_str E root ''src'' of None \<Rightarrow> (None, pm)
            | Some src \<Rightarrow>
              (case json_str E root ''path'' of None \<Rightarrow> (None, pm)
               | Some path \<Rightarrow>
                 (case json_str E root ''streamcode'' of None \<Rightarrow> (None, pm)
                  | Some streamcode \<Rightarrow>
                    (case json_str E root ''type'' of None \<Rightarrow> (None, pm)
                     | Some typ \<Rightarrow>
                       (case put_data ((fresh_info E)\<lparr>pi_src_url := src,
                                pi_m3u8_path := snprintf 256 (ad_root_path data @ cstr path),
                                pi_sid := streamcode, pi_type := typ, pi_status := ''active'',
                                pi_host := ad_host data\<rparr>) pm of
                          (r, pm') \<Rightarrow>
                            if r = ec REC_ERROR_STREAM_EXIST
                            then (Some \<lparr>rp_code = 403, rp_reason = ''stream exist'',
                                    rp_body = error_body (snprintf 256 (dec_str r)) ''stream exist''\<rparr>, pm')
                            else (Some \<lparr>rp_code = 200, rp_reason = ''OK'',
                                    rp_body = error_body ''0'' ''SUCCESS''\<rparr>, pm'))))))))"

definition stop_record ::
  "('w, 'c, 'k, 'j, 'z) env_scheme \<Rightarrow> pm \<Rightarrow> string option \<Rightarrow> ('w, reply option) state" where
  "stop_record E pm body =
     (case body of None \<Rightarrow> ret (Some http_body_null)
      | Some b \<Rightarrow>
        (case json_parse E b of None \<Rightarrow> ret (Some (input_no_match 0))
         | Some root \<Rightarrow>
           (case json_str E root ''src'' of None \<Rightarrow> ret None
            | Some src \<Rightarrow>
              (case json_str E root ''streamcode'' of None \<Rightarrow> ret None
               | Some streamcode \<Rightarrow>
                 do { r \<leftarrow> kill_process E pm ((fresh_info E)\<lparr>pi_src_url := src, pi_sid := streamcode\<rparr>);
                      ret (Some (if r = ec REC_ERROR_STREAM_NOT_EXIST
                        then \<lparr>rp_code = 404, rp_reason = ''stream not exist'',
                              rp_body = error_body (snprintf 256 (dec_str r)) ''stream not exist''\<rparr>
                        else \<lparr>rp_code = 200, rp_reason = ''OK'', rp_body = error_body ''0'' ''SUCCESS''\<rparr>)) }))))"

section \<open>Properties\<close>


definition body_of :: "bson \<Rightarrow> string" where
  "body_of d = bson_as_json mem_env d"

lemma mem_json: "json_parse mem_env (body_of d) = Some d"
  by (simp add: body_of_def mem_env_def)

definition app0 :: app_data where
  "app0 = \<lparr>ad_host = ''h'', ad_port = ''80'', ad_root_path = ''/data''\<rparr>"


lemma stop_record_run:
  assumes "laws E H docs self" "db_inv (docs w)"
    "json_parse E b = Some root" "json_str E root ''src'' = Some src"
    "json_str E root ''streamcode'' = Some sid"
  shows "\<exists>rp w'. run_state (stop_record E pm (Some b)) w = (Some rp, w')
    \<and> (if registered (cstr sid) (docs w) then rp_code rp = 200 \<and> \<not> registered (cstr sid) (docs w')
       else rp_code rp = 404 \<and> docs w' = docs w)"
proof -
  let ?p = "(fresh_info E)\<lparr>pi_src_url := src, pi_sid := sid\<rparr>"
  show ?thesis
  proof (cases "registered (cstr sid) (docs w)")
    case True
    then obtain d w1 where d: "d \<in># docs w" "sid_is (cstr sid) d" "docs w1 = docs w - {#d#}"
      and run: "run_state (kill_process E pm ?p) w
        = (0, snd (run_state (e_kill E (pi_pid (info_of d)) SIGINT) w1))"
      using kill_cases [OF assms(1,2), of ?p pm] by auto
    have w': "docs (snd (run_state (e_kill E n SIGINT) w1)) = docs w - {#d#}" for n
      using os_keeps(4) [OF assms(1)] d(3) by (simp add: keeps_def)
    obtain D where D: "docs w = add_mset d D" using d(1) by (rule mset_add)
    have "size (filter_mset (sid_is (cstr sid)) (docs w)) \<le> 1" using assms(2) by (simp add: db_inv_def)
    then have "filter_mset (sid_is (cstr sid)) (docs w - {#d#}) = {#}" unfolding D using d(2) by simp
    then show ?thesis
      using True assms(3-5) run w' by (simp add: stop_record_def)
  next
    case False
    then show ?thesis
      using kill_cases [OF assms(1,2), of ?p pm] assms(3-5) by (auto simp: stop_record_def)
  qed
qed

text \<open>
  C18. The stop interface tells the truth: for a body with its two string fields, \<^verbatim>\<open>stop_record\<close>
  replies 200 exactly when the stream has a record, and then the stream has no record any more; it
  replies 404 exactly when there is none, and then no record changes. A body that is not JSON is
  answered with 400 and changes nothing.
\<close>

theorem stop_record_spec:
  assumes "laws E H docs self" "db_inv (docs w)"
    "json_parse E b = Some root" "json_str E root ''src'' = Some src"
    "json_str E root ''streamcode'' = Some sid"
  shows "\<exists>rp w'. run_state (stop_record E pm (Some b)) w = (Some rp, w')
    \<and> (if registered (cstr sid) (docs w) then rp_code rp = 200 \<and> \<not> registered (cstr sid) (docs w')
       else rp_code rp = 404 \<and> docs w' = docs w)"
  by (rule stop_record_run [OF assms])

theorem stop_record_spec_witness:
  "\<exists>rp w'. run_state (stop_record mem_env pm0 (Some (body_of
        [(''src'', BUtf8 ''rtmp://a''), (''streamcode'', BUtf8 ''cam'')]))) mem1 = (Some rp, w')
    \<and> rp_code rp = 200 \<and> \<not> registered ''cam'' (mset (m_docs w'))"
proof -
  let ?d = "[(''src'', BUtf8 ''rtmp://a''), (''streamcode'', BUtf8 ''cam'')]"
  have "json_str mem_env ?d ''src'' = Some ''rtmp://a''" "json_str mem_env ?d ''streamcode'' = Some ''cam''"
    by (simp_all add: mem_env_def)
  moreover have "registered ''cam'' (mset (m_docs mem1))" by (simp add: mem1_def cam_def cstr_def)
  moreover have "cstr ''cam'' = ''cam''" by (simp add: cstr_def)
  ultimately show ?thesis
    using stop_record_spec [OF mem_env_laws mem1_inv mem_json, of ?d "''rtmp://a''" "''cam''" pm0] by auto
qed


section \<open>The port\<close>

text \<open>The server binds the number that is written, modulo 65536: \<^verbatim>\<open>70000\<close> is port 4464.\<close>

lemma ctl_exec_port:
  assumes "ad_port data = dec_str n" "0 \<le> n" "n < 2 ^ 31"
  shows "ctl_exec start data = (if start ''0.0.0.0'' (word_of_int (n mod 65536)) then Some ctl_routes else None)"
proof -
  have "atoi (dec_str n) = n" using scan_d_dec_str [of n "[]"] assms(2,3) by (simp add: atoi_def scan_into_def)
  moreover have "(word_of_int n :: 16 word) = word_of_int (n mod 65536)"
    by (simp add: word_of_int_eq_iff take_bit_eq_mod)
  ultimately show ?thesis using assms(1) by (simp add: ctl_exec_def)
qed

end
