(* ===== verification/Pconf_Types.thy ===== *)
theory Pconf_Types
  imports Pconf_Roundtrip
begin

text \<open>
  A type system for the trees of the configuration reader: which kinds of node may stand in which list, and
  what hangs below them. Every tree of an accepted file is well typed, and the look-ups lead from
  well-typed lists to well-typed lists.
\<close>

section \<open>Typing\<close>

text \<open>The list of the file itself, of a block between braces, and of an array.\<close>

datatype ctx = Top | Block | Elements

inductive typed :: "ctx \<Rightarrow> CN_S \<Rightarrow> bool" where
  t_end: "typed c (CN '''' '''' empty_t None None)"
| t_char: "c \<noteq> Elements \<Longrightarrow> length m < 64 \<Longrightarrow> length v < 128 \<Longrightarrow> typed c r \<Longrightarrow> typed c (CN m v char_t None (Some r))"
| t_sub: "c \<noteq> Elements \<Longrightarrow> length m < 64 \<Longrightarrow> typed Block b \<Longrightarrow> typed c r \<Longrightarrow> typed c (CN m '''' subnode_t (Some b) (Some r))"
| t_arr: "c \<noteq> Elements \<Longrightarrow> length m < 64 \<Longrightarrow> typed Elements b \<Longrightarrow> typed c r \<Longrightarrow> typed c (CN m '''' array_t (Some b) (Some r))"
| t_proc: "length m < 64 \<Longrightarrow> typed Block b \<Longrightarrow> typed Top r \<Longrightarrow> typed Top (CN m '''' proc_mod_t (Some b) (Some r))"
| t_ele: "length v < 128 \<Longrightarrow> typed Elements r \<Longrightarrow> typed Elements (CN '''' v array_ele None (Some r))"

inductive_cases typedE: "typed c (CN m v t s n)"

lemma typed_new_node [simp]: "typed c new_node"
  by (simp add: new_node_def t_end)

section \<open>The parser builds well-typed lists\<close>

lemma parse_arraylh_loop_typed:
  "parse_arraylh_loop u p c st = (Some q, st', n) \<Longrightarrow> typed Elements n"
proof (induction u p c st arbitrary: q st' n rule: parse_arraylh_loop.induct)
  case (1 u p c st)
  obtain p1 ln1 where js: "jumpspace p (linenum st) = (p1, ln1)" by fastforce
  obtain p2 ln2 out where
    fv: "find_valid_array_value u (if c then tl p1 else p1) ln1 = (p2, ln2, out)"
    by (metis prod_cases3)
  obtain r' st1 rest where
    rec: "parse_arraylh_loop u p2 True (st\<lparr>linenum := ln2\<rparr>) = (r', st1, rest)" by (metis prod_cases3)
  have "typed Elements rest" if "p \<noteq> []" "p1 \<noteq> []" "deref p1 \<noteq> CHR '']''"
    "\<not> (c \<and> deref p1 \<noteq> CHR '','')" "out = Str v" "p2 \<noteq> []" "r' = Some q" for v
    using "1.IH" [OF that(1) js [symmetric] that(2,3,4) fv [symmetric] refl that(5,6)] rec that(7) by simp
  then show ?case
    using "1.prems" js fv rec
    by (subst (asm) parse_arraylh_loop.simps) (auto split: if_splits outp.splits intro: t_ele)
qed

lemma parse_arraylh_typed: "parse_arraylh u p st = (Some q, st', n) \<Longrightarrow> typed Elements n"
  unfolding parse_arraylh_def by (rule parse_arraylh_loop_typed)

text \<open>A list that ends without an error ends in an empty node.\<close>

lemma item_stop_typed:
  "smodlh_item u p st = Stop (Some q) st' nd \<Longrightarrow> nd = new_node"
  "main_item u p st = Stop (Some q) st' nd \<Longrightarrow> nd = new_node"
  by (auto simp: smodlh_item_def main_item_def value_item_def proc_item_def check_keyword_eq
      split: if_splits prod.splits outp.splits)

lemma parse_smodlh_loop_typed:
  "parse_smodlh_loop u p st = (Some q, st', n) \<Longrightarrow> typed Block n"
proof (induction u p st arbitrary: q st' n rule: parse_smodlh_loop.induct)
  case (1 u p st)
  show ?case
  proof (cases "smodlh_item u p st")
    case (Sub nm s st1)
    show ?thesis
      using "1.IH"(1) [OF Sub] "1.IH"(2) [OF Sub _ refl] "1.prems" Sub
      by (subst (asm) parse_smodlh_loop.simps) (auto split: prod.splits option.splits intro: t_sub)
  next
    case (Arr nm s st1)
    show ?thesis
      using "1.IH"(3) [OF Arr _ refl] "1.prems" Arr parse_arraylh_typed [of u s st1]
      by (subst (asm) parse_smodlh_loop.simps) (auto split: prod.splits option.splits intro: t_arr)
  next
    case (Val nm v s st1)
    show ?thesis
      using "1.IH"(4) [OF Val] "1.prems" Val
      by (subst (asm) parse_smodlh_loop.simps) (auto split: prod.splits intro: t_char)
  qed (use "1.prems" in \<open>auto simp: parse_smodlh_loop.simps [of u p st] dest: item_stop_typed\<close>)
qed

lemma parse_smodlh_typed: "parse_smodlh u p st = (Some q, st', n) \<Longrightarrow> typed Block n"
  unfolding parse_smodlh_def by (rule parse_smodlh_loop_typed)

lemma parse_main_typed: "parse_main u p st = (Some q, st', n) \<Longrightarrow> typed Top n"
proof (induction u p st arbitrary: q st' n rule: parse_main.induct)
  case (1 u p st)
  show ?case
  proof (cases "main_item u p st")
    case (Sub nm s st1)
    show ?thesis
      using "1.IH"(1) [OF Sub _ refl] "1.prems" Sub parse_smodlh_typed [of u s st1]
      by (subst (asm) parse_main.simps) (auto split: prod.splits option.splits intro: t_sub)
  next
    case (Arr nm s st1)
    show ?thesis
      using "1.IH"(2) [OF Arr _ refl] "1.prems" Arr parse_arraylh_typed [of u s st1]
      by (subst (asm) parse_main.simps) (auto split: prod.splits option.splits intro: t_arr)
  next
    case (Proc nm s st1)
    show ?thesis
      using "1.IH"(3) [OF Proc _ refl] "1.prems" Proc parse_smodlh_typed [of u s st1]
      by (subst (asm) parse_main.simps) (auto split: prod.splits option.splits intro: t_proc)
  next
    case (Val nm v s st1)
    show ?thesis
      using "1.IH"(4) [OF Val] "1.prems" Val
      by (subst (asm) parse_main.simps) (auto split: prod.splits intro: t_char)
  qed (use "1.prems" in \<open>auto simp: parse_main.simps [of u p st] dest: item_stop_typed\<close>)
qed

section \<open>Look-ups keep types\<close>

lemma typed_reach: "node_reach t x \<Longrightarrow> typed c t \<Longrightarrow> \<exists>c. typed c x"
proof (induction rule: node_reach.induct)
  case (follow_nxt x y)
  then obtain c where "typed c x" by blast
  then show ?case using follow_nxt(2) by (cases x) (auto elim: typedE)
next
  case (follow_smodlh x y)
  then obtain c where "typed c x" by blast
  then show ?case using follow_smodlh(2) by (cases x) (auto elim: typedE)
qed blast

lemma get_submod_typed: "typed c x \<Longrightarrow> get_submod_from_node (Some x) k = Some b \<Longrightarrow> typed Block b"
  by (induction rule: typed.induct) (auto split: if_splits)

lemma get_array_typed:
  "typed c x \<Longrightarrow> get_array_from_node (Some x) k = Some a \<Longrightarrow> ntype a = array_t \<and> (\<exists>b. smodlh a = Some b \<and> typed Elements b)"
  by (induction rule: typed.induct) (auto split: if_splits)

lemma get_proc_typed:
  "typed c x \<Longrightarrow> get_proc_mod (Some x) = Some a \<Longrightarrow> ntype a = proc_mod_t \<and> (\<exists>b. smodlh a = Some b \<and> typed Block b)"
  by (induction rule: typed.induct) auto

lemma get_value_typed: "typed c x \<Longrightarrow> get_value_from_node (Some x) k = Some v \<Longrightarrow> length v < 128"
  by (induction rule: typed.induct) (auto split: if_splits)

section \<open>Properties\<close>

text \<open>
  C36. The tree of every accepted file is well typed: whatever the bytes are, when \<^verbatim>\<open>parse\<close> returns 0 every list
  ends in an empty node, \<^verbatim>\<open>proc\<close> blocks stand only at the top, array elements only in arrays and nothing
  else there, values have nothing below them, and names and values fit their fields. From any node of the tree a
  look-up leads to a list of the type it promises: a sub-module or a \<^verbatim>\<open>proc\<close> block to a block, an array to elements.
\<close>

theorem parse_typed:
  assumes "parse u buf = (0, t)"
  shows "typed Top t \<and> (\<forall>m k. node_reach t m \<longrightarrow> (\<exists>c. typed c m)
    \<and> (\<forall>b. get_submod_from_node (Some m) k = Some b \<longrightarrow> typed Block b)
    \<and> (\<forall>a. get_array_from_node (Some m) k = Some a \<longrightarrow> (\<exists>b. smodlh a = Some b \<and> typed Elements b))
    \<and> (\<forall>a. get_proc_mod (Some m) = Some a \<longrightarrow> (\<exists>b. smodlh a = Some b \<and> typed Block b))
    \<and> (\<forall>v. get_value_from_node (Some m) k = Some v \<longrightarrow> length v < 128))"
proof -
  have t: "typed Top t"
    using assms parse_main_typed by (auto simp: parse_def split: prod.splits if_splits)
  have "(\<exists>c. typed c m) \<and> (\<forall>b. get_submod_from_node (Some m) k = Some b \<longrightarrow> typed Block b)
    \<and> (\<forall>a. get_array_from_node (Some m) k = Some a \<longrightarrow> (\<exists>b. smodlh a = Some b \<and> typed Elements b))
    \<and> (\<forall>a. get_proc_mod (Some m) = Some a \<longrightarrow> (\<exists>b. smodlh a = Some b \<and> typed Block b))
    \<and> (\<forall>v. get_value_from_node (Some m) k = Some v \<longrightarrow> length v < 128)" if m: "node_reach t m" for m k
  proof -
    obtain c where c: "typed c m" using typed_reach [OF m t] by blast
    then show ?thesis
      using get_submod_typed [OF c] get_array_typed [OF c] get_proc_typed [OF c] get_value_typed [OF c] by blast
  qed
  then show ?thesis using t by blast
qed

theorem parse_typed_witness:
  "\<exists>t b. parse ub0 (''m { a [1,2] }'' @ [NL]) = (0, t) \<and> typed Top t \<and> get_submod_from_node (Some t) ''m'' = Some b \<and> typed Block b"
proof -
  let ?e = "\<lambda>v r. CN '''' v array_ele None (Some r)"
  let ?a = "CN ''a'' '''' array_t (Some (?e ''1'' (?e ''2'' new_node))) (Some new_node)"
  let ?t = "CN ''m'' '''' subnode_t (Some ?a) (Some new_node)"
  have p: "parse ub0 (''m { a [1,2] }'' @ [NL]) = (0, ?t)" by code_simp
  have g: "get_submod_from_node (Some ?t) ''m'' = Some ?a" by simp
  show ?thesis using parse_typed [OF p] node_reach.head [of ?t] p g by blast
qed

end
