(* ===== verification/Fifo.thy ===== *)
theory Fifo
  imports Prelude
begin

text \<open>
  The contract of a first-in first-out queue, as the users of the task queue and of the request
  queue rely on it, and what follows from it for every sequence of operations.
\<close>

datatype 'a qop = Put 'a | Get

text \<open>
  Running a sequence of operations: the elements whose insertion succeeded, the elements that came
  out, and the state at the end.
\<close>

fun run_ops ::
  "('a \<Rightarrow> 's \<Rightarrow> bool \<times> 's) \<Rightarrow> ('s \<Rightarrow> 'a option \<times> 's) \<Rightarrow> 'a qop list \<Rightarrow> 's \<Rightarrow> 'a list \<times> 'a list \<times> 's" where
  "run_ops put get [] s = ([], [], s)"
| "run_ops put get (Put a # ops) s =
     (case put a s of (ok, s1) \<Rightarrow> case run_ops put get ops s1 of (acc, out, s2) \<Rightarrow>
        ((if ok then a # acc else acc), out, s2))"
| "run_ops put get (Get # ops) s =
     (case get s of (x, s1) \<Rightarrow> case run_ops put get ops s1 of (acc, out, s2) \<Rightarrow>
        (acc, (case x of None \<Rightarrow> out | Some a \<Rightarrow> a # out), s2))"

locale fifo =
  fixes inv :: "'s \<Rightarrow> bool"
    and items :: "'s \<Rightarrow> 'a list"
    and room :: "'s \<Rightarrow> bool"
    and put :: "'a \<Rightarrow> 's \<Rightarrow> bool \<times> 's"
    and get :: "'s \<Rightarrow> 'a option \<times> 's"
  assumes put_room: "inv s \<Longrightarrow> room s \<Longrightarrow> \<exists>s'. put a s = (True, s') \<and> inv s' \<and> items s' = items s @ [a]"
    and put_full: "inv s \<Longrightarrow> \<not> room s \<Longrightarrow> put a s = (False, s)"
    and get_empty: "inv s \<Longrightarrow> items s = [] \<Longrightarrow> get s = (None, s)"
    and get_some: "inv s \<Longrightarrow> items s = a # xs \<Longrightarrow> \<exists>s'. get s = (Some a, s') \<and> inv s' \<and> items s' = xs"
begin

lemma run_ops_order:
  "inv s \<Longrightarrow> run_ops put get ops s = (acc, out, s') \<Longrightarrow> inv s' \<and> items s @ acc = out @ items s'"
proof (induction ops arbitrary: s acc out s')
  case (Cons x ops)
  show ?case
  proof (cases x)
    case (Put a)
    show ?thesis
    proof (cases "room s")
      case True
      then obtain s1 where s1: "put a s = (True, s1)" "inv s1" "items s1 = items s @ [a]"
        using put_room [OF Cons.prems(1)] by blast
      obtain acc1 where "run_ops put get ops s1 = (acc1, out, s')" "acc = a # acc1"
        using Cons.prems(2) s1(1) Put by (auto split: prod.splits)
      with Cons.IH [OF s1(2)] s1(3) show ?thesis by fastforce
    next
      case False
      then have "run_ops put get ops s = (acc, out, s')"
        using put_full [OF Cons.prems(1)] Cons.prems(2) Put by (auto split: prod.splits)
      then show ?thesis using Cons by simp
    qed
  next
    case Get
    show ?thesis
    proof (cases "items s")
      case Nil
      then have "run_ops put get ops s = (acc, out, s')"
        using get_empty [OF Cons.prems(1)] Cons.prems(2) Get by (auto split: prod.splits)
      then show ?thesis using Cons by simp
    next
      case (Cons a xs)
      then obtain s1 where s1: "get s = (Some a, s1)" "inv s1" "items s1 = xs"
        using get_some [OF Cons.prems(1)] by blast
      obtain out1 where "run_ops put get ops s1 = (acc, out1, s')" "out = a # out1"
        using Cons.prems(2) s1(1) Get by (auto split: prod.splits)
      with Cons.IH [OF s1(2)] s1(3) Cons show ?thesis by fastforce
    qed
  qed
qed simp

end

end
