(* ===== verification/Task_Queue.thy ===== *)
theory Task_Queue
  imports Fifo
begin

text \<open>
  The task queue of \<^verbatim>\<open>src/src/datas/task_queue.h\<close>: a ring of \<open>m_size\<close> cells with free-running 32-bit
  indices that are reduced modulo \<open>m_size\<close> at each use. The operations of the single-producer
  class and of the multi-producer class are first modelled as called by one thread; the loops that
  wait for another thread are \<^theory_text>\<open>partial_function\<close>s, so that waiting for ever is \<open>None\<close>.
  The interleaving of several threads on the multi-producer class is a step function of a thread on
  the shared state.
\<close>

record 'a tq =
  m_rdindex :: "32 word"
  m_wrindex :: "32 word"
  m_max_rdindex :: "32 word"
  m_size :: int
  mp_elems :: "'a list"

definition CTask_queue :: "'a tq" where
  "CTask_queue = \<lparr>m_rdindex = 0, m_wrindex = 0, m_max_rdindex = 0, m_size = 0, mp_elems = []\<rparr>"

text \<open>\<open>zero\<close> is the element whose bytes are all 0, to which \<^verbatim>\<open>memset\<close> clears the cells.\<close>

definition queue_init :: "'a \<Rightarrow> int \<Rightarrow> 'a tq \<Rightarrow> int \<times> 'a tq" where
  "queue_init zero sz q = (SUCCESS, q\<lparr>m_size := sz, mp_elems := replicate (nat sz) zero\<rparr>)"

definition queue_resize :: "'a \<Rightarrow> int \<Rightarrow> 'a tq \<Rightarrow> int \<times> 'a tq" where
  "queue_resize zero sz q = (SUCCESS, q\<lparr>m_size := m_size q + sz,
     mp_elems := take (nat (m_size q)) (mp_elems q)
       @ replicate (nat (m_size q + sz) - nat (m_size q)) zero\<rparr>)"

text \<open>\<^verbatim>\<open>u32 % s32\<close>: the size is positive, so it is the remainder of the unsigned index.\<close>

definition slot :: "'a tq \<Rightarrow> 32 word \<Rightarrow> nat" where
  "slot q i = unat i mod nat (m_size q)"

definition is_empty :: "'a tq \<Rightarrow> 32 word \<Rightarrow> 32 word \<Rightarrow> bool" where
  "is_empty q max_rdindex rdindex \<longleftrightarrow> slot q rdindex = slot q max_rdindex"

definition is_full :: "'a tq \<Rightarrow> 32 word \<Rightarrow> 32 word \<Rightarrow> bool" where
  "is_full q wrindex rdindex \<longleftrightarrow> slot q (wrindex + 1) = slot q rdindex"

definition enqueue_single :: "'a \<Rightarrow> 'a tq \<Rightarrow> bool \<times> 'a tq" where
  "enqueue_single ele q =
     (let cur_wrindex = m_wrindex q; cur_rdindex = m_rdindex q in
      if is_full q cur_wrindex cur_rdindex then (False, q)
      else (True, q\<lparr>mp_elems := (mp_elems q)[slot q cur_wrindex := ele], m_wrindex := m_wrindex q + 1\<rparr>))"

text \<open>The dequeue of both classes; \<open>None\<close> in the pair is the return value \<^verbatim>\<open>false\<close>.\<close>

partial_function (option) dequeue_loop :: "'a tq \<Rightarrow> ('a option \<times> 'a tq) option" where
  "dequeue_loop q =
     (let cur_rdindex = m_rdindex q; cur_max_rdindex = m_wrindex q in
      if is_empty q cur_max_rdindex cur_rdindex then Some (None, q)
      else let ele = mp_elems q ! slot q cur_rdindex in
        case CAS (m_rdindex q) cur_rdindex (cur_rdindex + 1) of (ok, v) \<Rightarrow>
          if ok then Some (Some ele, q\<lparr>m_rdindex := v\<rparr>) else dequeue_loop q)"

partial_function (option) publish_loop :: "32 word \<Rightarrow> 'a tq \<Rightarrow> 'a tq option" where
  "publish_loop cur_wrindex q =
     (case CAS (m_max_rdindex q) cur_wrindex (cur_wrindex + 1) of (ok, v) \<Rightarrow>
        if ok then Some (q\<lparr>m_max_rdindex := v\<rparr>) else publish_loop cur_wrindex q)"

partial_function (option) enqueue_multi :: "'a \<Rightarrow> 'a tq \<Rightarrow> (bool \<times> 'a tq) option" where
  "enqueue_multi ele q =
     (let cur_wrindex = m_wrindex q; cur_rdindex = m_rdindex q in
      if is_full q cur_wrindex cur_rdindex then Some (False, q)
      else case CAS (m_wrindex q) cur_wrindex (cur_wrindex + 1) of (ok, v) \<Rightarrow>
        if \<not> ok then enqueue_multi ele q
        else let q1 = q\<lparr>m_wrindex := v, mp_elems := (mp_elems q)[slot q cur_wrindex := ele]\<rparr> in
          map_option (\<lambda>q2. (True, q2)) (publish_loop cur_wrindex q1))"

section \<open>One thread\<close>

text \<open>The compare-and-swap of a single thread succeeds at once.\<close>

definition dequeue :: "'a tq \<Rightarrow> 'a option \<times> 'a tq" where
  "dequeue q = (if is_empty q (m_wrindex q) (m_rdindex q) then (None, q)
     else (Some (mp_elems q ! slot q (m_rdindex q)), q\<lparr>m_rdindex := m_rdindex q + 1\<rparr>))"

lemma dequeue_loop_returns: "dequeue_loop q = Some (dequeue q)"
  by (subst dequeue_loop.simps) (simp add: Let_def CAS_def dequeue_def)

lemma publish_loop_returns:
  "m_max_rdindex q = w \<Longrightarrow> publish_loop w q = Some (q\<lparr>m_max_rdindex := w + 1\<rparr>)"
  by (subst publish_loop.simps) (simp add: CAS_def)

lemma publish_loop_stuck:
  assumes "m_max_rdindex q \<noteq> w"
  shows "publish_loop w q = None"
proof (rule ccontr)
  assume "publish_loop w q \<noteq> None"
  then obtain r where r: "publish_loop w q = Some r" by auto
  have "m_max_rdindex q = w"
    by (rule publish_loop.raw_induct [of "\<lambda>w q r. m_max_rdindex q = w", OF _ r])
       (auto simp: CAS_def split: if_splits)
  with assms show False ..
qed

text \<open>The state between calls: the indices enclose fewer than \<open>m_size\<close> elements.\<close>

definition tq_count :: "'a tq \<Rightarrow> nat" where
  "tq_count q = unat (m_wrindex q - m_rdindex q)"

definition tq_inv :: "'a tq \<Rightarrow> bool" where
  "tq_inv q \<longleftrightarrow> 0 < m_size q \<and> length (mp_elems q) = nat (m_size q) \<and> nat (m_size q) dvd 2 ^ 32
     \<and> tq_count q < nat (m_size q)"

definition tq_items :: "'a tq \<Rightarrow> 'a list" where
  "tq_items q = map (\<lambda>i. mp_elems q ! ((unat (m_rdindex q) + i) mod nat (m_size q))) [0..<tq_count q]"

definition tq_room :: "'a tq \<Rightarrow> bool" where
  "tq_room q \<longleftrightarrow> tq_count q + 1 < nat (m_size q)"

lemma unat_add_mod:
  fixes x y :: "32 word"
  assumes "n dvd 2 ^ 32"
  shows "unat (x + y) mod n = (unat x + unat y) mod n"
proof -
  have "unat (x + y) = (unat x + unat y) mod 2 ^ 32" by (simp add: unat_word_ariths(1))
  then show ?thesis using assms by (simp add: mod_mod_cancel)
qed

lemma slot_wr:
  assumes "nat (m_size q) dvd 2 ^ 32"
  shows "slot q (m_wrindex q) = (unat (m_rdindex q) + tq_count q) mod nat (m_size q)"
  using unat_add_mod [OF assms, of "m_rdindex q" "m_wrindex q - m_rdindex q"]
  by (simp add: slot_def tq_count_def)

lemma mod_shift_eq:
  fixes a c n :: nat
  assumes "c \<le> n" "0 < n"
  shows "(a + c) mod n = a mod n \<longleftrightarrow> c = 0 \<or> c = n"
proof -
  have "(a + c) mod n = a mod n \<longleftrightarrow> n dvd c"
    using mod_eq_dvd_iff_nat [of a "a + c" n] by simp
  also have "\<dots> \<longleftrightarrow> c = 0 \<or> c = n"
    using assms by (auto dest: dvd_imp_le)
  finally show ?thesis .
qed

lemma is_empty_count:
  assumes "tq_inv q"
  shows "is_empty q (m_wrindex q) (m_rdindex q) \<longleftrightarrow> tq_count q = 0"
  using assms slot_wr [of q] mod_shift_eq [of "tq_count q" "nat (m_size q)" "unat (m_rdindex q)"]
  by (auto simp: tq_inv_def is_empty_def slot_def)

lemma slot_wr_succ:
  assumes "nat (m_size q) dvd 2 ^ 32"
  shows "slot q (m_wrindex q + 1) = (unat (m_rdindex q) + (tq_count q + 1)) mod nat (m_size q)"
proof -
  have "slot q (m_wrindex q + 1) = (unat (m_wrindex q) + 1) mod nat (m_size q)"
    using unat_add_mod [OF assms, of "m_wrindex q" 1] by (simp add: slot_def)
  also have "\<dots> = (unat (m_rdindex q) + tq_count q + 1) mod nat (m_size q)"
    by (rule mod_add_cong) (use slot_wr [OF assms] in \<open>simp_all add: slot_def\<close>)
  finally show ?thesis by (simp add: add.assoc)
qed

lemma is_full_count:
  assumes "tq_inv q"
  shows "is_full q (m_wrindex q) (m_rdindex q) \<longleftrightarrow> \<not> tq_room q"
  using assms slot_wr_succ [of q] mod_shift_eq [of "tq_count q + 1" "nat (m_size q)" "unat (m_rdindex q)"]
  by (auto simp: tq_inv_def is_full_def tq_room_def slot_def)

lemma tq_count_succ:
  assumes "tq_inv q" "tq_room q"
  shows "unat (m_wrindex q + 1 - m_rdindex q) = tq_count q + 1"
proof -
  have "nat (m_size q) \<le> 2 ^ 32" using assms(1) by (auto simp: tq_inv_def intro: dvd_imp_le)
  then have "unat (m_wrindex q - m_rdindex q) + 1 < 2 ^ 32"
    using assms(2) by (simp add: tq_room_def tq_count_def)
  then have "unat ((m_wrindex q - m_rdindex q) + 1) = tq_count q + 1"
    by (simp add: tq_count_def unat_word_ariths(1))
  then show ?thesis by (simp add: algebra_simps)
qed

lemma enqueue_single_room:
  assumes "tq_inv q" "tq_room q"
  shows "\<exists>q'. enqueue_single a q = (True, q') \<and> tq_inv q' \<and> tq_items q' = tq_items q @ [a]"
proof -
  let ?n = "nat (m_size q)" and ?r = "unat (m_rdindex q)"
  let ?q = "q\<lparr>mp_elems := (mp_elems q)[slot q (m_wrindex q) := a], m_wrindex := m_wrindex q + 1\<rparr>"
  have n: "0 < ?n" "length (mp_elems q) = ?n" "?n dvd 2 ^ 32" using assms by (auto simp: tq_inv_def)
  have cnt: "tq_count ?q = tq_count q + 1" using tq_count_succ [OF assms] by (simp add: tq_count_def)
  have run: "enqueue_single a q = (True, ?q)"
    using is_full_count [OF assms(1)] assms(2) by (simp add: enqueue_single_def Let_def)
  have old: "(mp_elems q)[(?r + tq_count q) mod ?n := a] ! ((?r + i) mod ?n) = mp_elems q ! ((?r + i) mod ?n)"
    if "i < tq_count q" for i
  proof -
    have "(?r + i + (tq_count q - i)) mod ?n \<noteq> (?r + i) mod ?n"
      using mod_shift_eq [of "tq_count q - i" ?n "?r + i"] that assms(2) n by (auto simp: tq_room_def)
    then show ?thesis using that by simp
  qed
  have "tq_items ?q = tq_items q @ [a]"
    unfolding tq_items_def cnt using old n by (simp add: slot_wr [OF n(3)])
  moreover have "tq_inv ?q"
    using assms cnt by (simp add: tq_inv_def tq_room_def)
  ultimately show ?thesis using run by blast
qed

lemma dequeue_some:
  assumes "tq_inv q" "tq_items q = a # xs"
  shows "\<exists>q'. dequeue q = (Some a, q') \<and> tq_inv q' \<and> tq_items q' = xs"
proof -
  let ?n = "nat (m_size q)" and ?r = "unat (m_rdindex q)"
  let ?q = "q\<lparr>m_rdindex := m_rdindex q + 1\<rparr>"
  have n: "0 < ?n" "?n dvd 2 ^ 32" using assms by (auto simp: tq_inv_def)
  have pos: "0 < tq_count q" using assms(2) by (cases "tq_count q") (auto simp: tq_items_def)
  then have "m_wrindex q - m_rdindex q \<noteq> 0" by (auto simp: tq_count_def)
  then have "unat ((m_wrindex q - m_rdindex q) - 1) = tq_count q - 1"
    by (simp add: tq_count_def unat_minus_one)
  then have cnt: "tq_count ?q = tq_count q - 1"
    by (simp add: tq_count_def algebra_simps)
  have sh: "(unat (m_rdindex q + 1) + i) mod ?n = (?r + Suc i) mod ?n" for i
  proof -
    have "(unat (m_rdindex q + 1) + i) mod ?n = (?r + 1 + i) mod ?n"
      by (rule mod_add_cong) (use unat_add_mod [OF n(2), of "m_rdindex q" 1] in simp_all)
    then show ?thesis by simp
  qed
  obtain m where m: "tq_count q = Suc m" using pos by (cases "tq_count q") auto
  have "tq_items q = map (\<lambda>i. mp_elems q ! ((?r + i) mod ?n)) (0 # map Suc [0..<m])"
    unfolding tq_items_def m by (simp add: map_Suc_upt upt_conv_Cons del: upt_Suc)
  then have "a = mp_elems q ! (?r mod ?n)" "xs = map (\<lambda>i. mp_elems q ! ((?r + Suc i) mod ?n)) [0..<m]"
    using assms(2) by (simp_all add: comp_def)
  moreover have "tq_items ?q = map (\<lambda>i. mp_elems q ! ((?r + Suc i) mod ?n)) [0..<m]"
    by (simp add: tq_items_def cnt m sh)
  moreover have "tq_inv ?q" using assms(1) cnt pos by (auto simp: tq_inv_def)
  moreover have "dequeue q = (Some (mp_elems q ! (?r mod ?n)), ?q)"
    using is_empty_count [OF assms(1)] pos by (simp add: dequeue_def slot_def)
  ultimately show ?thesis by blast
qed

interpretation tq_single: fifo tq_inv tq_items tq_room enqueue_single dequeue
proof
  fix q :: "'a tq" and a
  show "tq_inv q \<Longrightarrow> tq_room q \<Longrightarrow>
      \<exists>q'. enqueue_single a q = (True, q') \<and> tq_inv q' \<and> tq_items q' = tq_items q @ [a]"
    by (rule enqueue_single_room)
  show "tq_inv q \<Longrightarrow> \<not> tq_room q \<Longrightarrow> enqueue_single a q = (False, q)"
    using is_full_count [of q] by (simp add: enqueue_single_def Let_def)
  show "tq_inv q \<Longrightarrow> tq_items q = [] \<Longrightarrow> dequeue q = (None, q)"
    using is_empty_count [of q] by (simp add: dequeue_def tq_items_def)
  fix xs
  show "tq_inv q \<Longrightarrow> tq_items q = a # xs \<Longrightarrow> \<exists>q'. dequeue q = (Some a, q') \<and> tq_inv q' \<and> tq_items q' = xs"
    by (rule dequeue_some)
qed

section \<open>Properties\<close>

text \<open>
  C19. The task queue is first-in first-out: for a queue whose size divides \<open>2^32\<close>, over every
  sequence of enqueue and dequeue calls, also when the 32-bit indices wrap around, what comes out
  followed by what is left is what was there followed by what was accepted, in the same order; the
  dequeue loop always returns, and there are never more than \<open>m_size - 1\<close> elements.
\<close>

theorem task_queue_fifo:
  assumes "tq_inv q" "run_ops enqueue_single (\<lambda>q. the (dequeue_loop q)) ops q = (acc, out, q')"
  shows "tq_inv q' \<and> tq_items q @ acc = out @ tq_items q' \<and> length (tq_items q') < nat (m_size q')
    \<and> dequeue_loop q' \<noteq> None"
proof -
  have "run_ops enqueue_single dequeue ops q = (acc, out, q')"
    using assms(2) by (simp add: dequeue_loop_returns)
  from tq_single.run_ops_order [OF assms(1) this] show ?thesis
    by (simp add: dequeue_loop_returns tq_items_def) (simp add: tq_inv_def)
qed

definition tq0 :: "int \<Rightarrow> int tq" where
  "tq0 n = snd (queue_init 0 n CTask_queue)"

lemma tq0_inv: "tq_inv (tq0 4)"
  by (simp add: tq0_def queue_init_def CTask_queue_def tq_inv_def tq_count_def)

theorem task_queue_fifo_witness:
  "\<exists>acc out q'. run_ops enqueue_single (\<lambda>q. the (dequeue_loop q)) [Put 1, Put 2, Get, Put 3] (tq0 4)
       = (acc, out, q') \<and> tq_items (tq0 4) @ acc = out @ tq_items q' \<and> length (tq_items q') < nat (m_size q')"
proof -
  obtain acc out q' where "run_ops enqueue_single (\<lambda>q. the (dequeue_loop q)) [Put 1, Put 2, Get, Put 3] (tq0 4)
      = (acc, out, q')" by (metis prod_cases3)
  with task_queue_fifo [OF tq0_inv this] show ?thesis by blast
qed

text \<open>One enqueue and one dequeue on an empty queue whose indices are below the wrap-around.\<close>

lemma round_below_wrap:
  assumes "m_rdindex q = of_nat k" "m_wrindex q = of_nat k" "k + 1 < 2 ^ 32" "1 < m_size q"
    "length (mp_elems q) = nat (m_size q)"
  shows "\<exists>es. length es = nat (m_size q) \<and>
     run_ops enqueue_single (\<lambda>q. the (dequeue_loop q)) (Put a # Get # ops) q
     = (case run_ops enqueue_single (\<lambda>q. the (dequeue_loop q)) ops
          (q\<lparr>m_rdindex := of_nat (Suc k), m_wrindex := of_nat (Suc k), mp_elems := es\<rparr>) of
          (acc, out, q') \<Rightarrow> (a # acc, a # out, q'))"
proof -
  let ?n = "nat (m_size q)"
  let ?es = "(mp_elems q)[k mod ?n := a]"
  let ?q1 = "q\<lparr>mp_elems := ?es, m_wrindex := of_nat k + 1\<rparr>"
  have k: "unat (of_nat k :: 32 word) = k" "unat (of_nat k + 1 :: 32 word) = Suc k"
    using assms(3) by (simp_all add: unat_of_nat unat_word_ariths(1))
  have ne: "Suc k mod ?n \<noteq> k mod ?n"
    using mod_shift_eq [of 1 ?n k] assms(4) by simp
  have "enqueue_single a q = (True, ?q1)"
    using assms(1,2) k ne by (simp add: enqueue_single_def Let_def is_full_def slot_def)
  moreover have "dequeue ?q1 = (Some a, ?q1\<lparr>m_rdindex := of_nat k + 1\<rparr>)"
    using assms k ne by (simp add: dequeue_def is_empty_def slot_def)
  moreover have "?q1\<lparr>m_rdindex := of_nat k + 1\<rparr>
      = q\<lparr>m_rdindex := of_nat (Suc k), m_wrindex := of_nat (Suc k), mp_elems := ?es\<rparr>"
    by simp
  ultimately show ?thesis
    using assms(5) by (intro exI [of _ ?es]) (simp add: dequeue_loop_returns split: prod.split)
qed

definition rounds :: "'a \<Rightarrow> nat \<Rightarrow> 'a qop list" where
  "rounds a k = concat (replicate k [Put a, Get])"

lemma rounds_below_wrap:
  assumes "m_rdindex q = of_nat j" "m_wrindex q = of_nat j" "j + k < 2 ^ 32" "1 < m_size q"
    "length (mp_elems q) = nat (m_size q)"
  shows "\<exists>es. length es = nat (m_size q) \<and> run_ops enqueue_single (\<lambda>q. the (dequeue_loop q)) (rounds a k) q
     = (replicate k a, replicate k a, q\<lparr>m_rdindex := of_nat (j + k), m_wrindex := of_nat (j + k), mp_elems := es\<rparr>)"
  using assms
proof (induction k arbitrary: q j)
  case 0
  then show ?case by (intro exI [of _ "mp_elems q"]) (simp add: rounds_def)
next
  case (Suc k)
  let ?q = "\<lambda>es. q\<lparr>m_rdindex := of_nat (Suc j), m_wrindex := of_nat (Suc j), mp_elems := es\<rparr>"
  have r: "rounds a (Suc k) = Put a # Get # rounds a k" by (simp add: rounds_def)
  obtain es where es: "length es = nat (m_size q)"
    "run_ops enqueue_single (\<lambda>q. the (dequeue_loop q)) (rounds a (Suc k)) q
     = (case run_ops enqueue_single (\<lambda>q. the (dequeue_loop q)) (rounds a k) (?q es) of
          (acc, out, q') \<Rightarrow> (a # acc, a # out, q'))"
    using round_below_wrap [of q j a "rounds a k"] Suc.prems unfolding r by auto
  obtain es' where "length es' = nat (m_size q)"
    "run_ops enqueue_single (\<lambda>q. the (dequeue_loop q)) (rounds a k) (?q es)
     = (replicate k a, replicate k a, (?q es)\<lparr>m_rdindex := of_nat (Suc j + k),
          m_wrindex := of_nat (Suc j + k), mp_elems := es'\<rparr>)"
    using Suc.IH [of "?q es" "Suc j"] Suc.prems es(1) by auto
  with es show ?case by (intro exI [of _ es']) simp
qed

text \<open>
  A queue of three cells stops for ever when its indices wrap: after \<open>2^32 - 1\<close> rounds of one
  enqueue and one dequeue on a new queue, both indices select cell 0 and so does index 0 behind the
  wrap-around, so the empty queue is taken for full. From then on every enqueue is refused and every
  dequeue reports an empty queue, whatever is tried.
\<close>

theorem index_wrap_stops_queue:
  "\<exists>q. run_ops enqueue_single (\<lambda>q. the (dequeue_loop q)) (rounds 7 (2 ^ 32 - 1)) (tq0 3)
       = (replicate (2 ^ 32 - 1) 7, replicate (2 ^ 32 - 1) 7, q)
     \<and> (\<forall>ops. run_ops enqueue_single (\<lambda>q. the (dequeue_loop q)) ops q = ([], [], q))"
proof -
  have init: "m_rdindex (tq0 3) = of_nat 0" "m_wrindex (tq0 3) = of_nat 0" "0 + (2 ^ 32 - 1) < (2 :: nat) ^ 32"
    "1 < m_size (tq0 3)" "length (mp_elems (tq0 3)) = nat (m_size (tq0 3))"
    by (simp_all add: tq0_def queue_init_def CTask_queue_def)
  let ?q = "\<lambda>es. (tq0 3)\<lparr>m_rdindex := of_nat (0 + (2 ^ 32 - 1)), m_wrindex := of_nat (0 + (2 ^ 32 - 1)),
      mp_elems := es\<rparr>"
  obtain es where run: "run_ops enqueue_single (\<lambda>q. the (dequeue_loop q)) (rounds 7 (2 ^ 32 - 1)) (tq0 3)
      = (replicate (2 ^ 32 - 1) 7, replicate (2 ^ 32 - 1) 7, ?q es)"
    using rounds_below_wrap [OF init, of 7] by blast
  have sz: "m_size (tq0 3) = 3" by (simp add: tq0_def queue_init_def)
  have last: "(of_nat (0 + (2 ^ 32 - 1)) :: 32 word) = - 1" by simp
  have u: "unat (- 1 :: 32 word) = 4294967295" by (simp add: unsigned_minus_1_eq_mask mask_eq_exp_minus_1)
  have "enqueue_single a (?q es) = (False, ?q es)" for a
    unfolding last by (simp add: enqueue_single_def Let_def is_full_def slot_def sz u)
  moreover have "dequeue (?q es) = (None, ?q es)"
    by (simp add: dequeue_def is_empty_def)
  ultimately have "run_ops enqueue_single (\<lambda>q. the (dequeue_loop q)) ops (?q es) = ([], [], ?q es)" for ops
  proof (induction ops)
    case (Cons x ops)
    then show ?case by (cases x) (simp_all add: dequeue_loop_returns)
  qed simp
  then show ?thesis using run by blast
qed

text \<open>
  Resizing keeps the contents only before the indices first pass the size: if all indices in
  use are at most \<open>m_size\<close>, \<^verbatim>\<open>queue_resize\<close> keeps the elements and their order.
\<close>

theorem resize_keeps_items:
  assumes "length (mp_elems q) = nat (m_size q)" "0 < m_size q" "0 \<le> k"
    "unat (m_rdindex q) + tq_count q \<le> nat (m_size q)"
  shows "tq_items (snd (queue_resize zero k q)) = tq_items q"
proof -
  let ?n = "nat (m_size q)" and ?r = "unat (m_rdindex q)" and ?q = "snd (queue_resize zero k q)"
  have q: "m_size ?q = m_size q + k" "m_rdindex ?q = m_rdindex q" "tq_count ?q = tq_count q"
    by (simp_all add: queue_resize_def tq_count_def)
  have "mp_elems ?q ! ((?r + i) mod nat (m_size q + k)) = mp_elems q ! ((?r + i) mod ?n)"
    if "i < tq_count q" for i
  proof -
    have "?r + i < ?n" "?r + i < nat (m_size q + k)" using that assms by auto
    then show ?thesis using assms(1) by (simp add: queue_resize_def nth_append)
  qed
  then show ?thesis by (simp add: tq_items_def q)
qed

theorem resize_keeps_items_witness:
  "tq_items (snd (queue_resize 0 4 (snd (enqueue_single 5 (tq0 4))))) = tq_items (snd (enqueue_single 5 (tq0 4)))"
proof -
  have "unat (1 :: 32 word) = 1" by simp
  then show ?thesis
    by (intro resize_keeps_items)
       (simp_all add: tq0_def queue_init_def CTask_queue_def enqueue_single_def Let_def is_full_def
         slot_def tq_count_def)
qed

text \<open>
  Resizing a queue whose indices have passed its size corrupts it: on a new queue of four
  cells, after three rounds and two more enqueues, \<^verbatim>\<open>queue_resize\<close> by four makes the second element
  come out as a cleared cell, because the free-running index now selects another cell.
\<close>

theorem resize_corrupts:
  "\<exists>q. run_ops enqueue_single (\<lambda>q. the (dequeue_loop q)) (rounds 7 3 @ [Put 8, Put 9]) (tq0 4)
       = ([7, 7, 7, 8, 9], [7, 7, 7], q)
     \<and> tq_items q = [8, 9]
     \<and> run_ops enqueue_single (\<lambda>q. the (dequeue_loop q)) [Get, Get] (snd (queue_resize 0 4 q))
       = ([], [8, 0], (snd (queue_resize 0 4 q))\<lparr>m_rdindex := 5\<rparr>)"
proof -
  let ?q = "\<lparr>m_rdindex = 3, m_wrindex = 5, m_max_rdindex = 0, m_size = 4, mp_elems = [9, 7, 7, 8]\<rparr> :: int tq"
  have d: "(\<lambda>q. the (dequeue_loop q)) = (dequeue :: int tq \<Rightarrow> _)"
    by (rule ext) (simp add: dequeue_loop_returns)
  have "run_ops enqueue_single dequeue (rounds 7 3 @ [Put 8, Put 9]) (tq0 4) = ([7, 7, 7, 8, 9], [7, 7, 7], ?q)"
    "tq_items ?q = [8, 9]"
    "run_ops enqueue_single dequeue [Get, Get] (snd (queue_resize 0 4 ?q))
       = ([], [8, 0], (snd (queue_resize 0 4 ?q))\<lparr>m_rdindex := 5\<rparr>)"
    by code_simp+
  then show ?thesis unfolding d by blast
qed

section \<open>Several producers\<close>

lemma enqueue_multi_eq:
  "enqueue_multi a q =
     (if is_full q (m_wrindex q) (m_rdindex q) then Some (False, q)
      else map_option (\<lambda>q2. (True, q2)) (publish_loop (m_wrindex q)
        (q\<lparr>m_wrindex := m_wrindex q + 1, mp_elems := (mp_elems q)[slot q (m_wrindex q) := a]\<rparr>)))"
  by (subst enqueue_multi.simps) (simp add: Let_def CAS_def)

text \<open>
  C23. The multi-producer enqueue agrees with the single-producer one when all earlier insertions
  are published, and else waits: called with \<open>m_max_rdindex = m_wrindex\<close> it returns, with the same
  result and the same queue as \<open>enqueue_single\<close>, and both indices advanced together; on a queue
  that is not full and in which another producer has claimed a cell without publishing it, it does
  not return on its own.
\<close>

theorem enqueue_multi_spec:
  "enqueue_multi a q =
     (if is_full q (m_wrindex q) (m_rdindex q) then Some (False, q)
      else if m_max_rdindex q = m_wrindex q
      then Some (True, (snd (enqueue_single a q))\<lparr>m_max_rdindex := m_wrindex q + 1\<rparr>)
      else None)"
  unfolding enqueue_multi_eq
  using publish_loop_stuck [of "q\<lparr>m_wrindex := m_wrindex q + 1, mp_elems := (mp_elems q)[slot q (m_wrindex q) := a]\<rparr>"
      "m_wrindex q"]
  by (simp add: publish_loop_returns enqueue_single_def Let_def)

text \<open>
  A thread on the multi-producer class: where it is in \<^verbatim>\<open>enqueue\<close> or \<^verbatim>\<open>dequeue\<close>, with the local
  variables that are live there. A step does one access to the shared state.
\<close>

datatype 'a pc =
    Enq_wr 'a
  | Enq_rd 'a "32 word"
  | Enq_cas 'a "32 word"
  | Enq_store 'a "32 word"
  | Enq_publish "32 word"
  | Enq_done bool
  | Deq_rd
  | Deq_wr "32 word"
  | Deq_load "32 word"
  | Deq_cas "32 word" 'a
  | Deq_done "'a option"

fun multi_step :: "'a pc \<Rightarrow> 'a tq \<Rightarrow> 'a pc \<times> 'a tq" where
  "multi_step (Enq_wr ele) q = (Enq_rd ele (m_wrindex q), q)"
| "multi_step (Enq_rd ele cur_wrindex) q =
     (if is_full q cur_wrindex (m_rdindex q) then (Enq_done False, q) else (Enq_cas ele cur_wrindex, q))"
| "multi_step (Enq_cas ele cur_wrindex) q =
     (case CAS (m_wrindex q) cur_wrindex (cur_wrindex + 1) of (ok, v) \<Rightarrow>
        if ok then (Enq_store ele cur_wrindex, q\<lparr>m_wrindex := v\<rparr>) else (Enq_wr ele, q))"
| "multi_step (Enq_store ele cur_wrindex) q =
     (Enq_publish cur_wrindex, q\<lparr>mp_elems := (mp_elems q)[slot q cur_wrindex := ele]\<rparr>)"
| "multi_step (Enq_publish cur_wrindex) q =
     (case CAS (m_max_rdindex q) cur_wrindex (cur_wrindex + 1) of (ok, v) \<Rightarrow>
        if ok then (Enq_done True, q\<lparr>m_max_rdindex := v\<rparr>) else (Enq_publish cur_wrindex, q))"
| "multi_step (Enq_done b) q = (Enq_done b, q)"
| "multi_step Deq_rd q = (Deq_wr (m_rdindex q), q)"
| "multi_step (Deq_wr cur_rdindex) q =
     (if is_empty q (m_wrindex q) cur_rdindex then (Deq_done None, q) else (Deq_load cur_rdindex, q))"
| "multi_step (Deq_load cur_rdindex) q = (Deq_cas cur_rdindex (mp_elems q ! slot q cur_rdindex), q)"
| "multi_step (Deq_cas cur_rdindex ele) q =
     (case CAS (m_rdindex q) cur_rdindex (cur_rdindex + 1) of (ok, v) \<Rightarrow>
        if ok then (Deq_done (Some ele), q\<lparr>m_rdindex := v\<rparr>) else (Deq_rd, q))"
| "multi_step (Deq_done x) q = (Deq_done x, q)"

text \<open>Two threads under a schedule: \<open>True\<close> lets the first one do a step.\<close>

fun two_threads :: "bool list \<Rightarrow> 'a pc \<Rightarrow> 'a pc \<Rightarrow> 'a tq \<Rightarrow> 'a pc \<times> 'a pc \<times> 'a tq" where
  "two_threads [] t1 t2 q = (t1, t2, q)"
| "two_threads (b # bs) t1 t2 q =
     (if b then case multi_step t1 q of (t1', q') \<Rightarrow> two_threads bs t1' t2 q'
      else case multi_step t2 q of (t2', q') \<Rightarrow> two_threads bs t1 t2' q')"

text \<open>
  The multi-producer dequeue can return a cell that was never written: it takes \<^verbatim>\<open>m_wrindex\<close>
  for the end of the readable elements, not \<^verbatim>\<open>m_max_rdindex\<close>, which the producers publish for this
  purpose. There is an interleaving of one enqueue of 5 and one dequeue on a new queue in which the
  dequeue returns the cleared cell 0, and the 5 stored afterwards is behind the read index.
\<close>

theorem dequeue_reads_unpublished:
  "\<exists>bs q. two_threads bs (Enq_wr 5) Deq_rd (tq0 4) = (Enq_done True, Deq_done (Some 0), q)
     \<and> m_rdindex q = m_wrindex q \<and> mp_elems q ! 0 = 5"
proof -
  let ?bs = "[True, True, True, False, False, False, False, True, True]"
  let ?q = "\<lparr>m_rdindex = 1, m_wrindex = 1, m_max_rdindex = 1, m_size = 4, mp_elems = [5, 0, 0, 0]\<rparr> :: int tq"
  have "two_threads ?bs (Enq_wr 5) Deq_rd (tq0 4) = (Enq_done True, Deq_done (Some 0), ?q)"
    by code_simp
  then show ?thesis by (intro exI [of _ ?bs] exI [of _ ?q]) simp
qed

end
