(* ===== verification/T_Dlist.thy ===== *)
theory T_Dlist
  imports Prelude "HOL-Library.Monad_Syntax"
begin

text \<open>
  The intrusive doubly linked list of \<^verbatim>\<open>src/src/datas/t_dlist.h\<close>, on an explicit store: nodes live
  at addresses, a read or a write through a null or dangling pointer is \<open>None\<close>. The representation
  relation \<open>dl_ok l xs\<close> says that the list object \<open>l\<close> holds the nodes \<open>xs\<close> in this order; the
  operations are shown to implement the operations on \<open>xs\<close>.
\<close>

type_synonym addr = nat

record 'a dnode =
  m_element :: 'a
  m_next :: "addr option"
  m_prev :: "addr option"

record 'a dl =
  dl_heap :: "addr \<rightharpoonup> 'a dnode"
  m_head :: "addr option"
  m_tail :: "addr option"
  m_num_nodes :: "32 word"

definition upd :: "addr option \<Rightarrow> ('a dnode \<Rightarrow> 'a dnode) \<Rightarrow> 'a dl \<Rightarrow> 'a dl option" where
  "upd p f l = (case p of None \<Rightarrow> None
     | Some a \<Rightarrow> (case dl_heap l a of None \<Rightarrow> None
         | Some nd \<Rightarrow> Some (l\<lparr>dl_heap := (dl_heap l)(a \<mapsto> f nd)\<rparr>)))"

definition fld :: "addr option \<Rightarrow> ('a dnode \<Rightarrow> 'b) \<Rightarrow> 'a dl \<Rightarrow> 'b option" where
  "fld p g l = (case p of None \<Rightarrow> None | Some a \<Rightarrow> map_option g (dl_heap l a))"

definition TDList_node :: "'a \<Rightarrow> 'a dnode" where
  "TDList_node element = \<lparr>m_element = element, m_next = None, m_prev = None\<rparr>"

definition TDList :: "(addr \<rightharpoonup> 'a dnode) \<Rightarrow> 'a dl" where
  "TDList h = \<lparr>dl_heap = h, m_head = None, m_tail = None, m_num_nodes = 0\<rparr>"

definition get_first :: "'a dl \<Rightarrow> addr option" where
  "get_first l = m_head l"

definition add_node_to_tail :: "addr \<Rightarrow> 'a dl \<Rightarrow> 'a dl option" where
  "add_node_to_tail node l =
     do { l1 \<leftarrow> (if m_tail l \<noteq> None then upd (m_tail l) (\<lambda>n. n\<lparr>m_next := Some node\<rparr>) l else Some l);
          l2 \<leftarrow> upd (Some node) (\<lambda>n. n\<lparr>m_prev := m_tail l1\<rparr>) l1;
          l3 \<leftarrow> upd (Some node) (\<lambda>n. n\<lparr>m_next := None\<rparr>) l2;
          let l4 = l3\<lparr>m_tail := Some node\<rparr> in
          let l5 = (if m_head l4 = None then l4\<lparr>m_head := Some node\<rparr> else l4) in
          Some (l5\<lparr>m_num_nodes := m_num_nodes l5 + 1\<rparr>) }"

definition add_node :: "addr \<Rightarrow> 'a dl \<Rightarrow> 'a dl option" where
  "add_node node l =
     do { l1 \<leftarrow> (if m_head l \<noteq> None then upd (m_head l) (\<lambda>n. n\<lparr>m_prev := Some node\<rparr>) l else Some l);
          l2 \<leftarrow> upd (Some node) (\<lambda>n. n\<lparr>m_prev := None\<rparr>) l1;
          l3 \<leftarrow> upd (Some node) (\<lambda>n. n\<lparr>m_next := m_head l2\<rparr>) l2;
          let l4 = l3\<lparr>m_head := Some node\<rparr> in
          let l5 = (if m_tail l4 = None then l4\<lparr>m_tail := Some node\<rparr> else l4) in
          Some (l5\<lparr>m_num_nodes := m_num_nodes l5 + 1\<rparr>) }"

definition remove_node :: "addr \<Rightarrow> 'a dl \<Rightarrow> 'a dl option" where
  "remove_node node l =
     do { nx \<leftarrow> fld (Some node) m_next l;
          pv \<leftarrow> fld (Some node) m_prev l;
          l1 \<leftarrow> (if m_head l = Some node then Some (l\<lparr>m_head := nx\<rparr>)
                 else upd pv (\<lambda>n. n\<lparr>m_next := nx\<rparr>) l);
          nx1 \<leftarrow> fld (Some node) m_next l1;
          pv1 \<leftarrow> fld (Some node) m_prev l1;
          l2 \<leftarrow> (if m_tail l1 = Some node then Some (l1\<lparr>m_tail := pv1\<rparr>)
                 else upd nx1 (\<lambda>n. n\<lparr>m_prev := pv1\<rparr>) l1);
          l3 \<leftarrow> upd (Some node) (\<lambda>n. n\<lparr>m_prev := None\<rparr>) l2;
          l4 \<leftarrow> upd (Some node) (\<lambda>n. n\<lparr>m_next := None\<rparr>) l3;
          Some (l4\<lparr>m_num_nodes := m_num_nodes l4 - 1\<rparr>) }"

text \<open>
  The iterators read \<^verbatim>\<open>m_next\<close> before they call the function, which may unlink and free the node.
  A list with a cycle makes them run for ever.
\<close>

partial_function (option) for_each_until ::
  "(addr \<Rightarrow> 'u \<Rightarrow> 'a dl \<Rightarrow> (bool \<times> 'u \<times> 'a dl) option) \<Rightarrow> addr option \<Rightarrow> 'u \<Rightarrow> 'a dl
   \<Rightarrow> (addr option \<times> 'u \<times> 'a dl) option" where
  "for_each_until do_func cur_element userdata l =
     (case cur_element of None \<Rightarrow> Some (None, userdata, l)
      | Some a \<Rightarrow>
          do { next_element \<leftarrow> fld (Some a) m_next l;
               (stop_iteration, userdata', l') \<leftarrow> do_func a userdata l;
               if stop_iteration then Some (Some a, userdata', l')
               else for_each_until do_func next_element userdata' l' })"

partial_function (option) for_each ::
  "(addr \<Rightarrow> 'a dl \<Rightarrow> 'a dl option) \<Rightarrow> addr option \<Rightarrow> 'a dl \<Rightarrow> 'a dl option" where
  "for_each do_func cur_element l =
     (case cur_element of None \<Rightarrow> Some l
      | Some a \<Rightarrow>
          do { next_element \<leftarrow> fld (Some a) m_next l;
               l' \<leftarrow> do_func a l;
               for_each do_func next_element l' })"

definition do_clear_list :: "addr \<Rightarrow> 'a dl \<Rightarrow> 'a dl option" where
  "do_clear_list node l =
     do { l1 \<leftarrow> remove_node node l; Some (l1\<lparr>dl_heap := (dl_heap l1)(node := None)\<rparr>) }"

definition clear_list :: "'a dl \<Rightarrow> 'a dl option" where
  "clear_list l = for_each do_clear_list (m_head l) l"

definition compare_index_to_zero :: "addr \<Rightarrow> int \<Rightarrow> 'a dl \<Rightarrow> (bool \<times> int \<times> 'a dl) option" where
  "compare_index_to_zero node val l = (if val = 0 then Some (True, val, l) else Some (False, val - 1, l))"

definition get_nth_node :: "int \<Rightarrow> 'a dl \<Rightarrow> addr option option" where
  "get_nth_node node_index l =
     map_option fst (for_each_until compare_index_to_zero (m_head l) node_index l)"

section \<open>Representation\<close>

fun first_or :: "'a list \<Rightarrow> 'a option \<Rightarrow> 'a option" where
  "first_or [] n = n"
| "first_or (x # xs) n = Some x"

fun last_or :: "'a option \<Rightarrow> 'a list \<Rightarrow> 'a option" where
  "last_or p [] = p"
| "last_or p (x # xs) = last_or (Some x) xs"

fun links :: "(addr \<rightharpoonup> 'a dnode) \<Rightarrow> addr option \<Rightarrow> addr list \<Rightarrow> addr option \<Rightarrow> bool" where
  "links h p [] n = True"
| "links h p (x # xs) n = ((\<exists>nd. h x = Some nd \<and> m_prev nd = p \<and> m_next nd = first_or xs n)
     \<and> links h (Some x) xs n)"

definition dl_ok :: "'a dl \<Rightarrow> addr list \<Rightarrow> bool" where
  "dl_ok l xs \<longleftrightarrow> distinct xs \<and> links (dl_heap l) None xs None
     \<and> m_head l = first_or xs None \<and> m_tail l = last_or None xs \<and> m_num_nodes l = of_nat (length xs)"

lemma first_or_append [simp]: "first_or (xs @ ys) n = first_or xs (first_or ys n)"
  by (cases xs) auto

lemma last_or_append [simp]: "last_or p (xs @ ys) = last_or (last_or p xs) ys"
  by (induction xs arbitrary: p) auto

lemma links_append [simp]:
  "links h p (xs @ ys) n \<longleftrightarrow> links h p xs (first_or ys n) \<and> links h (last_or p xs) ys n"
  by (induction xs arbitrary: p) auto

lemma links_frame [simp]: "a \<notin> set xs \<Longrightarrow> links (h(a := v)) p xs n = links h p xs n"
  by (induction xs arbitrary: p) auto

lemma last_or_Some: "last_or p xs = Some a \<Longrightarrow> xs = [] \<and> p = Some a \<or> (\<exists>ys. xs = ys @ [a])"
  by (cases xs rule: rev_cases) auto

lemma first_or_Some: "first_or xs n = Some a \<Longrightarrow> xs = [] \<and> n = Some a \<or> (\<exists>ys. xs = a # ys)"
  by (cases xs) auto

lemma last_or_None [simp]: "last_or None xs = None \<longleftrightarrow> xs = []"
  by (cases xs rule: rev_cases) auto

lemma first_or_None [simp]: "first_or xs None = None \<longleftrightarrow> xs = []"
  by (cases xs) auto

lemma ends_exist [simp]: "\<exists>y. last_or (Some x) ys = Some y" "\<exists>y. first_or ys (Some x) = Some y"
  by (cases ys rule: rev_cases, auto) (cases ys, auto)

lemma ends_in:
  "last_or (Some a) xs = Some b \<Longrightarrow> b \<in> set (a # xs)" "first_or xs (Some a) = Some b \<Longrightarrow> b \<in> set (a # xs)"
  by (cases xs rule: rev_cases, auto) (cases xs, auto)

lemma add_node_to_tail_ok:
  assumes "dl_ok l xs" "node \<notin> set xs" "dl_heap l node \<noteq> None"
  shows "\<exists>l'. add_node_to_tail node l = Some l' \<and> dl_ok l' (xs @ [node])"
proof (cases xs rule: rev_cases)
  case Nil
  with assms show ?thesis
    by (auto simp: add_node_to_tail_def upd_def dl_ok_def Let_def)
next
  case (snoc ys t)
  with assms show ?thesis
    by (auto simp: add_node_to_tail_def upd_def dl_ok_def Let_def)
qed

lemma add_node_ok:
  assumes "dl_ok l xs" "node \<notin> set xs" "dl_heap l node \<noteq> None"
  shows "\<exists>l'. add_node node l = Some l' \<and> dl_ok l' (node # xs)"
proof (cases xs)
  case Nil
  with assms show ?thesis
    by (auto simp: add_node_def upd_def dl_ok_def Let_def)
next
  case (Cons x ys)
  with assms show ?thesis
    by (auto simp: add_node_def upd_def dl_ok_def Let_def)
qed

lemma remove_node_ok:
  assumes "dl_ok l (ys @ node # zs)"
  shows "\<exists>l'. remove_node node l = Some l' \<and> dl_ok l' (ys @ zs)"
proof -
  obtain nd where nd: "dl_heap l node = Some nd" "m_prev nd = last_or None ys" "m_next nd = first_or zs None"
    using assms by (auto simp: dl_ok_def)
  show ?thesis
  proof (cases ys rule: rev_cases)
    case Nil
    then show ?thesis
      using assms nd by (cases zs) (auto simp: remove_node_def fld_def upd_def dl_ok_def dest!: ends_in)
  next
    case (snoc ys' p)
    then show ?thesis
      using assms nd by (cases zs) (auto simp: remove_node_def fld_def upd_def dl_ok_def dest!: ends_in)
  qed
qed

section \<open>Iterators\<close>

lemma do_clear_list_ok:
  assumes "dl_ok l (x # xs)"
  shows "\<exists>l'. do_clear_list x l = Some l' \<and> dl_ok l' xs \<and> dl_heap l' x = None
    \<and> (\<forall>a. a \<notin> set (x # xs) \<longrightarrow> dl_heap l' a = dl_heap l a)"
proof -
  obtain l1 where l1: "remove_node x l = Some l1" "dl_ok l1 xs"
    using remove_node_ok [of l "[]" x xs] assms by auto
  have "\<forall>a. a \<notin> set (x # xs) \<longrightarrow> dl_heap l1 a = dl_heap l a"
    using l1(1) assms
    by (cases xs) (auto simp: remove_node_def fld_def upd_def dl_ok_def split: if_splits option.splits
        Option.bind_splits)
  moreover have "x \<notin> set xs" using assms by (simp add: dl_ok_def)
  ultimately show ?thesis using l1 by (auto simp: do_clear_list_def dl_ok_def)
qed

lemma next_of_head:
  "dl_ok l (x # xs) \<Longrightarrow> fld (Some x) m_next l = Some (first_or xs None)"
  by (auto simp: dl_ok_def fld_def)

lemma clear_loop:
  "dl_ok l xs \<Longrightarrow> \<exists>l'. for_each do_clear_list (first_or xs None) l = Some l' \<and> dl_ok l' []
     \<and> (\<forall>a \<in> set xs. dl_heap l' a = None) \<and> (\<forall>a. a \<notin> set xs \<longrightarrow> dl_heap l' a = dl_heap l a)"
proof (induction xs arbitrary: l)
  case Nil
  then show ?case by (subst for_each.simps) simp
next
  case (Cons x xs)
  obtain l1 where l1: "do_clear_list x l = Some l1" "dl_ok l1 xs" "dl_heap l1 x = None"
    "\<forall>a. a \<notin> set (x # xs) \<longrightarrow> dl_heap l1 a = dl_heap l a"
    using do_clear_list_ok [OF Cons.prems] by blast
  obtain l2 where l2: "for_each do_clear_list (first_or xs None) l1 = Some l2" "dl_ok l2 []"
    "\<forall>a \<in> set xs. dl_heap l2 a = None" "\<forall>a. a \<notin> set xs \<longrightarrow> dl_heap l2 a = dl_heap l1 a"
    using Cons.IH [OF l1(2)] by blast
  have "for_each do_clear_list (first_or (x # xs) None) l = Some l2"
    using next_of_head [OF Cons.prems] l1(1) l2(1) by (subst for_each.simps) simp
  moreover have "dl_heap l2 x = None" using l1 l2 Cons.prems by (simp add: dl_ok_def)
  ultimately show ?case using l1 l2 by (intro exI [of _ l2]) auto
qed

lemma nth_loop:
  assumes "links (dl_heap l) p xs None"
  shows "for_each_until compare_index_to_zero (first_or xs None) i l
    = Some (if 0 \<le> i \<and> i < int (length xs) then (Some (xs ! nat i), 0, l) else (None, i - int (length xs), l))"
  using assms
proof (induction xs arbitrary: p i)
  case Nil
  then show ?case by (subst for_each_until.simps) simp
next
  case (Cons x xs)
  then have nx: "fld (Some x) m_next l = Some (first_or xs None)" by (auto simp: fld_def)
  show ?case
  proof (cases "i = 0")
    case True
    then show ?thesis using nx by (subst for_each_until.simps) (simp add: compare_index_to_zero_def)
  next
    case False
    have "0 \<le> i - 1 \<Longrightarrow> (x # xs) ! nat i = xs ! nat (i - 1)"
      using False by (simp add: nth_Cons' nat_diff_distrib)
    moreover have "compare_index_to_zero x i l = Some (False, i - 1, l)"
      using False by (simp add: compare_index_to_zero_def)
    ultimately show ?thesis
      using False nx Cons.IH [of "Some x" "i - 1"] Cons.prems
      by (subst for_each_until.simps) (auto simp: algebra_simps)
  qed
qed

section \<open>The list contract\<close>

text \<open>What a user of a linked list relies on, over the representation of a list object.\<close>

locale node_list =
  fixes rep :: "'s \<Rightarrow> 'n list \<Rightarrow> bool"
    and avail :: "'n \<Rightarrow> 's \<Rightarrow> bool"
    and push_back :: "'n \<Rightarrow> 's \<Rightarrow> 's option"
    and push_front :: "'n \<Rightarrow> 's \<Rightarrow> 's option"
    and unlink :: "'n \<Rightarrow> 's \<Rightarrow> 's option"
  assumes append_law: "rep s xs \<Longrightarrow> n \<notin> set xs \<Longrightarrow> avail n s \<Longrightarrow>
      \<exists>s'. push_back n s = Some s' \<and> rep s' (xs @ [n]) \<and> (\<forall>m. avail m s' = avail m s)"
    and cons_law: "rep s xs \<Longrightarrow> n \<notin> set xs \<Longrightarrow> avail n s \<Longrightarrow>
      \<exists>s'. push_front n s = Some s' \<and> rep s' (n # xs) \<and> (\<forall>m. avail m s' = avail m s)"
    and unlink_law: "rep s (ys @ n # zs) \<Longrightarrow>
      \<exists>s'. unlink n s = Some s' \<and> rep s' (ys @ zs) \<and> (\<forall>m. avail m s' = avail m s)"
    and nodup: "rep s xs \<Longrightarrow> distinct xs"
begin

fun push_all :: "'n list \<Rightarrow> 's \<Rightarrow> 's option" where
  "push_all [] s = Some s"
| "push_all (n # ns) s = (case push_back n s of None \<Rightarrow> None | Some s' \<Rightarrow> push_all ns s')"

lemma push_all_rep:
  "rep s xs \<Longrightarrow> distinct (xs @ ns) \<Longrightarrow> \<forall>n \<in> set ns. avail n s \<Longrightarrow>
   \<exists>s'. push_all ns s = Some s' \<and> rep s' (xs @ ns) \<and> (\<forall>m. avail m s' = avail m s)"
proof (induction ns arbitrary: s xs)
  case (Cons n ns)
  then obtain s1 where s1: "push_back n s = Some s1" "rep s1 (xs @ [n])" "\<forall>m. avail m s1 = avail m s"
    using append_law [of s xs n] by auto
  then show ?case using Cons.IH [of s1 "xs @ [n]"] Cons.prems by auto
qed simp

lemma move_to_back:
  assumes "rep s (ys @ n # zs)" "avail n s"
  shows "\<exists>s'. (case unlink n s of None \<Rightarrow> None | Some s1 \<Rightarrow> push_back n s1) = Some s' \<and> rep s' (ys @ zs @ [n])"
proof -
  obtain s1 where s1: "unlink n s = Some s1" "rep s1 (ys @ zs)" "\<forall>m. avail m s1 = avail m s"
    using unlink_law [OF assms(1)] by blast
  have "n \<notin> set (ys @ zs)" using nodup [OF assms(1)] by simp
  with append_law [OF s1(2) this] s1 assms(2) show ?thesis by auto
qed

end

lemma heap_avail:
  "add_node_to_tail n l = Some l' \<Longrightarrow> dl_heap l' m \<noteq> None \<longleftrightarrow> dl_heap l m \<noteq> None"
  "add_node n l = Some l' \<Longrightarrow> dl_heap l' m \<noteq> None \<longleftrightarrow> dl_heap l m \<noteq> None"
  "remove_node n l = Some l' \<Longrightarrow> dl_heap l' m \<noteq> None \<longleftrightarrow> dl_heap l m \<noteq> None"
proof -
  show "add_node_to_tail n l = Some l' \<Longrightarrow> dl_heap l' m \<noteq> None \<longleftrightarrow> dl_heap l m \<noteq> None"
    by (auto simp: add_node_to_tail_def upd_def Let_def split: if_splits option.splits Option.bind_splits)
  show "add_node n l = Some l' \<Longrightarrow> dl_heap l' m \<noteq> None \<longleftrightarrow> dl_heap l m \<noteq> None"
    by (auto simp: add_node_def upd_def Let_def split: if_splits option.splits Option.bind_splits)
  show "remove_node n l = Some l' \<Longrightarrow> dl_heap l' m \<noteq> None \<longleftrightarrow> dl_heap l m \<noteq> None"
    by (auto simp: remove_node_def upd_def fld_def split: if_splits option.splits Option.bind_splits)
qed

interpretation tdlist: node_list dl_ok "\<lambda>n l. dl_heap l n \<noteq> None" add_node_to_tail add_node remove_node
proof
  show "\<exists>l'. add_node_to_tail n l = Some l' \<and> dl_ok l' (xs @ [n])
      \<and> (\<forall>m. (dl_heap l' m \<noteq> None) = (dl_heap l m \<noteq> None))"
    if "dl_ok l xs" "n \<notin> set xs" "dl_heap l n \<noteq> None" for l :: "'a dl" and xs n
    using add_node_to_tail_ok [OF that] heap_avail(1) by blast
  show "\<exists>l'. add_node n l = Some l' \<and> dl_ok l' (n # xs)
      \<and> (\<forall>m. (dl_heap l' m \<noteq> None) = (dl_heap l m \<noteq> None))"
    if "dl_ok l xs" "n \<notin> set xs" "dl_heap l n \<noteq> None" for l :: "'a dl" and xs n
    using add_node_ok [OF that] heap_avail(2) by blast
  show "\<exists>l'. remove_node n l = Some l' \<and> dl_ok l' (ys @ zs)
      \<and> (\<forall>m. (dl_heap l' m \<noteq> None) = (dl_heap l m \<noteq> None))"
    if "dl_ok l (ys @ n # zs)" for l :: "'a dl" and ys n zs
    using remove_node_ok [OF that] heap_avail(3) by blast
  show "distinct xs" if "dl_ok l xs" for l :: "'a dl" and xs
    using that by (simp add: dl_ok_def)
qed

section \<open>Properties\<close>

text \<open>
  C25. The pointer operations of the doubly linked list implement the list operations: on a list
  object that holds the nodes \<open>xs\<close>, adding a fresh node at the tail gives \<open>xs @ [node]\<close>, at the head
  \<open>node # xs\<close>, and removing a node of the list gives the list without it; no null or dangling
  pointer is followed, both link directions, both ends and the node count are right afterwards.
\<close>

theorem dlist_implements_list:
  assumes "dl_ok l xs" "dl_heap l node \<noteq> None"
  shows "(node \<notin> set xs \<longrightarrow> (\<exists>l'. add_node_to_tail node l = Some l' \<and> dl_ok l' (xs @ [node]))
           \<and> (\<exists>l'. add_node node l = Some l' \<and> dl_ok l' (node # xs)))
    \<and> (node \<in> set xs \<longrightarrow> (\<exists>l'. remove_node node l = Some l' \<and> dl_ok l' (remove1 node xs)))"
proof (intro conjI impI)
  assume n: "node \<notin> set xs"
  show "\<exists>l'. add_node_to_tail node l = Some l' \<and> dl_ok l' (xs @ [node])"
    using tdlist.append_law [OF assms(1) n assms(2)] by blast
  show "\<exists>l'. add_node node l = Some l' \<and> dl_ok l' (node # xs)"
    using tdlist.cons_law [OF assms(1) n assms(2)] by blast
next
  assume "node \<in> set xs"
  then obtain ys zs where xs: "xs = ys @ node # zs" "node \<notin> set ys"
    using split_list_first by metis
  then have "remove1 node xs = ys @ zs" by (simp add: remove1_append)
  then show "\<exists>l'. remove_node node l = Some l' \<and> dl_ok l' (remove1 node xs)"
    using tdlist.unlink_law [of l ys node zs] assms(1) xs(1) by auto
qed

definition heap3 :: "addr \<rightharpoonup> int dnode" where
  "heap3 = [1 \<mapsto> TDList_node 10, 2 \<mapsto> TDList_node 20, 3 \<mapsto> TDList_node 30]"

lemma empty_dl_ok: "dl_ok (TDList h) []"
  by (simp add: dl_ok_def TDList_def)

theorem dlist_implements_list_witness:
  "\<exists>l'. add_node_to_tail 2 (TDList heap3) = Some l' \<and> dl_ok l' ([] @ [2])"
  using dlist_implements_list [OF empty_dl_ok, of heap3 2] by (simp add: TDList_def heap3_def)

text \<open>
  \<^verbatim>\<open>clear_list\<close> terminates, empties the list and frees exactly its nodes: every node that was
  in the list is deallocated, every other node keeps its contents.
\<close>

theorem clear_list_frees:
  assumes "dl_ok l xs"
  shows "\<exists>l'. clear_list l = Some l' \<and> dl_ok l' [] \<and> (\<forall>a \<in> set xs. dl_heap l' a = None)
    \<and> (\<forall>a. a \<notin> set xs \<longrightarrow> dl_heap l' a = dl_heap l a)"
  using clear_loop [OF assms] assms by (simp add: clear_list_def dl_ok_def)

lemma list123:
  "\<exists>l. tdlist.push_all [1, 2, 3] (TDList heap3) = Some l \<and> dl_ok l [1, 2, 3]"
  using tdlist.push_all_rep [OF empty_dl_ok, of "[1, 2, 3]" heap3] by (auto simp: TDList_def heap3_def)

theorem clear_list_frees_witness:
  "\<exists>l l'. dl_ok l [1, 2, 3] \<and> clear_list l = Some l' \<and> dl_ok (l' :: int dl) [] \<and> dl_heap l' 2 = None"
proof -
  obtain l where "dl_ok (l :: int dl) [1, 2, 3]" using list123 by blast
  with clear_list_frees [OF this] show ?thesis by auto
qed

text \<open>
  \<^verbatim>\<open>get_nth_node\<close> terminates on every list and returns the node at that position for the
  indices from 0 to the length - 1, and null for every other index, negative ones included.
\<close>

theorem get_nth_node_spec:
  assumes "dl_ok l xs"
  shows "get_nth_node i l = Some (if 0 \<le> i \<and> i < int (length xs) then Some (xs ! nat i) else None)"
  using nth_loop [of l None xs i] assms by (auto simp: get_nth_node_def dl_ok_def)

theorem get_nth_node_spec_witness:
  "\<exists>l :: int dl. dl_ok l [1, 2, 3] \<and> get_nth_node 2 l = Some (Some 3) \<and> get_nth_node (-1) l = Some None"
proof -
  obtain l where l: "dl_ok (l :: int dl) [1, 2, 3]" using list123 by blast
  show ?thesis using get_nth_node_spec [OF l, of 2] get_nth_node_spec [OF l, of "-1"] l by auto
qed

end
