(* ===== verification/Allocator.thy ===== *)
theory Allocator
  imports Main
begin

text \<open>
  The contract of the memory pools of \<^verbatim>\<open>src/src/mem_pool\<close>: the blocks handed out and not yet
  given back never overlap, and an operation on one of them leaves the others where they are.
  \<open>live P s\<close> says that in state \<open>s\<close> the pointers \<open>P\<close> are handed out; \<open>foot s p\<close> is the memory that
  belongs to \<open>p\<close>.
\<close>

text \<open>A client's history: requests, and releases of pointers it holds.\<close>

datatype ('r, 'p) call = Request 'r | Release 'p

fun run_calls :: "('r \<Rightarrow> 's \<Rightarrow> 'p option \<times> 's) \<Rightarrow> ('p \<Rightarrow> 's \<Rightarrow> 's) \<Rightarrow> ('r, 'p) call list
    \<Rightarrow> 'p set \<Rightarrow> 's \<Rightarrow> 'p set \<times> 's" where
  "run_calls alloc free [] P s = (P, s)"
| "run_calls alloc free (Request r # cs) P s =
     (case alloc r s of
        (None, s') \<Rightarrow> run_calls alloc free cs P s'
      | (Some p, s') \<Rightarrow> run_calls alloc free cs (insert p P) s')"
| "run_calls alloc free (Release p # cs) P s =
     (if p \<in> P then run_calls alloc free cs (P - {p}) (free p s) else run_calls alloc free cs P s)"

locale allocator =
  fixes alloc :: "'r \<Rightarrow> 's \<Rightarrow> 'p option \<times> 's"
    and free :: "'p \<Rightarrow> 's \<Rightarrow> 's"
    and live :: "'p set \<Rightarrow> 's \<Rightarrow> bool"
    and foot :: "'s \<Rightarrow> 'p \<Rightarrow> 'm set"
  assumes alloc_some: "live P s \<Longrightarrow> alloc r s = (Some p, s') \<Longrightarrow> p \<notin> P \<and> live (insert p P) s'"
    and alloc_keeps: "live P s \<Longrightarrow> alloc r s = (Some p, s') \<Longrightarrow> q \<in> P \<Longrightarrow> foot s' q = foot s q"
    and alloc_none: "live P s \<Longrightarrow> alloc r s = (None, s') \<Longrightarrow> live P s' \<and> (\<forall>q \<in> P. foot s' q = foot s q)"
    and free_live: "live P s \<Longrightarrow> p \<in> P \<Longrightarrow> live (P - {p}) (free p s)"
    and free_keeps: "live P s \<Longrightarrow> p \<in> P \<Longrightarrow> q \<in> P - {p} \<Longrightarrow> foot (free p s) q = foot s q"
    and foot_disjoint: "live P s \<Longrightarrow> p \<in> P \<Longrightarrow> q \<in> P \<Longrightarrow> p \<noteq> q \<Longrightarrow> foot s p \<inter> foot s q = {}"
begin

lemma run_live: "live P s \<Longrightarrow> live (fst (run_calls alloc free cs P s)) (snd (run_calls alloc free cs P s))"
proof (induction cs arbitrary: P s)
  case (Cons c cs)
  show ?case
  proof (cases c)
    case (Request r)
    obtain po s' where a: "alloc r s = (po, s')" by fastforce
    show ?thesis
    proof (cases po)
      case None
      with alloc_none [OF Cons.prems] a have "live P s'" by blast
      from Cons.IH [OF this] show ?thesis using Request a None by simp
    next
      case (Some p)
      with alloc_some [OF Cons.prems] a have "live (insert p P) s'" by blast
      from Cons.IH [OF this] show ?thesis using Request a Some by simp
    qed
  next
    case (Release p)
    show ?thesis
    proof (cases "p \<in> P")
      case True
      from Cons.IH [OF free_live [OF Cons.prems True]] show ?thesis using Release True by simp
    next
      case False
      from Cons.IH [OF Cons.prems] show ?thesis using Release False by simp
    qed
  qed
qed simp

lemma run_disjoint:
  assumes "live P s" "run_calls alloc free cs P s = (P', s')" "p \<in> P'" "q \<in> P'" "p \<noteq> q"
  shows "foot s' p \<inter> foot s' q = {}"
proof -
  have "live P' s'" using run_live [OF assms(1), of cs] assms(2) by simp
  from foot_disjoint [OF this assms(3-5)] show ?thesis .
qed

text \<open>What a client holds and does not give back stays its own, at the same place.\<close>

lemma run_keeps:
  "live P s \<Longrightarrow> q \<in> P \<Longrightarrow> Release q \<notin> set cs
    \<Longrightarrow> q \<in> fst (run_calls alloc free cs P s) \<and> foot (snd (run_calls alloc free cs P s)) q = foot s q"
proof (induction cs arbitrary: P s)
  case (Cons c cs)
  show ?case
  proof (cases c)
    case (Request r)
    obtain po s' where a: "alloc r s = (po, s')" by fastforce
    show ?thesis
    proof (cases po)
      case None
      with alloc_none [OF Cons.prems(1)] a Cons.prems(2) have l: "live P s'" and f: "foot s' q = foot s q" by blast+
      from Cons.IH [OF l Cons.prems(2)] Cons.prems(3) show ?thesis using Request a None f by simp
    next
      case (Some p)
      with alloc_some [OF Cons.prems(1)] a have l: "live (insert p P) s'" by blast
      have "foot s' q = foot s q" using alloc_keeps [OF Cons.prems(1) _ Cons.prems(2)] a Some by blast
      with Cons.IH [OF l, OF insertI2 [OF Cons.prems(2)]] Cons.prems(3) show ?thesis using Request a Some by simp
    qed
  next
    case (Release p)
    then have ne: "q \<noteq> p" using Cons.prems(3) by auto
    show ?thesis
    proof (cases "p \<in> P")
      case True
      have q: "q \<in> P - {p}" using Cons.prems(2) ne by simp
      from Cons.IH [OF free_live [OF Cons.prems(1) True] q] Cons.prems(3) free_keeps [OF Cons.prems(1) True q]
      show ?thesis using Release True by simp
    next
      case False
      from Cons.IH [OF Cons.prems(1,2)] Cons.prems(3) show ?thesis using Release False by simp
    qed
  qed
qed simp

end

end
