(* ===== verification/Slab.thy ===== *)
theory Slab
  imports Prelude Allocator
begin

text \<open>
  The slab allocator of \<^verbatim>\<open>src/src/mem_pool/pure_slab.cpp\<close>. A pointer is a byte address or \<open>None\<close> for
  \<^verbatim>\<open>NULL\<close>; each field of the structures is a function from the address of the structure, so a store
  to a field is a function update. \<^verbatim>\<open>malloc\<close> is the argument \<open>ml\<close>: it is given the zones in use.
\<close>

section \<open>Data\<close>

type_synonym addr = nat

type_synonym zone = "addr \<times> 32 word"

record slab =
  pre :: "addr \<Rightarrow> addr option"
  nxt :: "addr \<Rightarrow> addr option"
  mp :: "addr \<Rightarrow> addr"
  pnext :: "addr \<Rightarrow> addr option"
  usedhead :: "addr \<Rightarrow> addr option"
  freehead :: "addr \<Rightarrow> addr option"
  plength :: "addr \<Rightarrow> 32 word"
  off_t :: "addr \<Rightarrow> nat"
  mp_mpool :: "addr option"
  m_max_num :: "32 word"
  m_alloced_num :: "32 word"
  m_mbsize :: "32 word"
  m_poolsize :: "32 word"
  m_alignedsize :: "32 word"
  zones :: "zone list"

type_synonym malloc = "zone list \<Rightarrow> 32 word \<Rightarrow> addr option"

definition align_ptr :: "addr \<Rightarrow> nat \<Rightarrow> addr" where
  "align_ptr p a = (p + (a - 1)) div a * a"

text \<open>On x86-64 \<^verbatim>\<open>sizeof(memblock)\<close> is 24 and \<^verbatim>\<open>sizeof(mempool)\<close> is 32.\<close>

definition sizeof_memblock :: "32 word" where "sizeof_memblock = 24"
definition sizeof_mempool :: "32 word" where "sizeof_mempool = 32"

section \<open>Operations\<close>

definition zone_set :: "zone \<Rightarrow> addr set" where
  "zone_set z = {fst z ..< fst z + unat (snd z)}"

definition new_zone :: "malloc \<Rightarrow> 32 word \<Rightarrow> slab \<Rightarrow> addr option \<times> slab" where
  "new_zone ml l s =
     (case ml (zones s) l of
        None \<Rightarrow> (None, s)
      | Some z \<Rightarrow>
          (Some z, s\<lparr>zones := (z, l) # zones s,
             pre := (\<lambda>a. if a \<in> zone_set (z, l) then None else pre s a),
             nxt := (\<lambda>a. if a \<in> zone_set (z, l) then None else nxt s a)\<rparr>))"

definition delete_zone :: "addr \<Rightarrow> slab \<Rightarrow> slab" where
  "delete_zone z s = s\<lparr>zones := filter (\<lambda>y. fst y \<noteq> z) (zones s)\<rparr>"

definition creat_mempool :: "malloc \<Rightarrow> addr option \<Rightarrow> 32 word \<Rightarrow> slab \<Rightarrow> addr option \<times> slab" where
  "creat_mempool ml p l s =
     (case p of
        None \<Rightarrow>
          (case new_zone ml l s of
             (None, s1) \<Rightarrow> (None, s1)
           | (Some true_mem, s1) \<Rightarrow>
               let q = align_ptr true_mem 64; off = (q - true_mem) mod 256 in
               (Some q, s1\<lparr>off_t := (off_t s1)(q := off), pnext := (pnext s1)(q := None),
                  plength := (plength s1)(q := l - of_nat off)\<rparr>))
      | Some a \<Rightarrow>
          if pnext s a = None then
            case new_zone ml l s of
              (None, s1) \<Rightarrow> (None, s1)
            | (Some true_mem, s1) \<Rightarrow>
                let q = align_ptr true_mem 64; off = (q - true_mem) mod 256 in
                (Some q, s1\<lparr>off_t := (off_t s1)(q := off), pnext := (pnext s1)(a := Some q, q := None),
                   plength := (plength s1)(q := l - of_nat off)\<rparr>)
          else (None, s))"

definition link_block :: "addr option \<Rightarrow> addr \<Rightarrow> slab \<Rightarrow> slab" where
  "link_block mbpre pos s =
     (let s1 = s\<lparr>pre := (pre s)(pos := mbpre)\<rparr>;
          s2 = (case mbpre of None \<Rightarrow> s1 | Some b \<Rightarrow> s1\<lparr>nxt := (nxt s1)(b := Some pos)\<rparr>)
      in s2\<lparr>nxt := (nxt s2)(pos := None)\<rparr>)"

partial_function (option) init_memblock_loop ::
  "addr \<Rightarrow> 32 word \<Rightarrow> addr \<Rightarrow> 32 word \<Rightarrow> addr option \<Rightarrow> slab \<Rightarrow> slab option" where
  "init_memblock_loop p ul pos offs mbpre s =
     (if offs \<le> plength s p - ul
      then init_memblock_loop p ul (pos + unat ul) (offs + ul) (Some pos) (link_block mbpre pos s)
      else Some s)"

text \<open>The second loop of \<^verbatim>\<open>init_memblock\<close> only reads the chain.\<close>

definition init_memblock :: "addr \<Rightarrow> 32 word \<Rightarrow> slab \<Rightarrow> slab option" where
  "init_memblock p ul s =
     (let mpalignsize = pure_align_u32 sizeof_mempool 8; pos = p + unat mpalignsize in
      map_option (\<lambda>s'. s'\<lparr>usedhead := (usedhead s')(p := None)\<rparr>)
        (init_memblock_loop p ul pos mpalignsize None (s\<lparr>freehead := (freehead s)(p := Some pos)\<rparr>)))"

partial_function (option) find_pool :: "slab \<Rightarrow> addr \<Rightarrow> addr option" where
  "find_pool s p =
     (case pnext s p of
        None \<Rightarrow> Some p
      | Some n \<Rightarrow> if freehead s p = None then find_pool s n else Some p)"

text \<open>The free block at the head moves to the used list; the result points behind its header.\<close>

definition take_block :: "addr \<Rightarrow> addr \<Rightarrow> slab \<Rightarrow> addr \<times> slab" where
  "take_block p b s =
     (let s1 = s\<lparr>freehead := (freehead s)(p := nxt s b)\<rparr>;
          s2 = (case freehead s1 p of None \<Rightarrow> s1 | Some h \<Rightarrow> s1\<lparr>pre := (pre s1)(h := None)\<rparr>);
          s3 = s2\<lparr>mp := (mp s2)(b := p)\<rparr>;
          s4 = (case usedhead s3 p of None \<Rightarrow> s3 | Some u \<Rightarrow> s3\<lparr>pre := (pre s3)(u := Some b)\<rparr>);
          s5 = s4\<lparr>nxt := (nxt s4)(b := usedhead s4 p)\<rparr>;
          s6 = s5\<lparr>usedhead := (usedhead s5)(p := Some b)\<rparr>;
          s7 = s6\<lparr>pre := (pre s6)(b := None)\<rparr>
      in (b + unat (m_alignedsize s7), s7\<lparr>m_alloced_num := m_alloced_num s7 + 1\<rparr>))"

text \<open>
  The outer \<open>None\<close> stands for following a null pointer, not returning, or falling off the end of
  the function; the inner one is the result \<^verbatim>\<open>NULL\<close>.
\<close>

definition mempool_alloc :: "malloc \<Rightarrow> addr option \<Rightarrow> slab \<Rightarrow> (addr option \<times> slab) option" where
  "mempool_alloc ml pool s =
     (if m_max_num s \<noteq> - 1 \<and> sint (m_max_num s) \<le> sint (m_alloced_num s) then Some (None, s)
      else case pool of None \<Rightarrow> None | Some p0 \<Rightarrow>
        case find_pool s p0 of None \<Rightarrow> None | Some p \<Rightarrow>
          if freehead s p = None \<and> pnext s p = None then
            case creat_mempool ml (Some p) (m_poolsize s) s of
              (None, s1) \<Rightarrow> Some (None, s1)
            | (Some q, s1) \<Rightarrow>
                (case init_memblock q (m_mbsize s1) s1 of None \<Rightarrow> None | Some s2 \<Rightarrow>
                   (case freehead s2 q of None \<Rightarrow> None
                    | Some b \<Rightarrow> (case take_block q b s2 of (d, s3) \<Rightarrow> Some (Some d, s3))))
          else
            (case freehead s p of None \<Rightarrow> None
             | Some b \<Rightarrow> (case take_block p b s of (d, s3) \<Rightarrow> Some (Some d, s3))))"

definition slab_alloc :: "malloc \<Rightarrow> slab \<Rightarrow> (addr option \<times> slab) option" where
  "slab_alloc ml s = mempool_alloc ml (mp_mpool s) s"

definition slab_free :: "addr \<Rightarrow> slab \<Rightarrow> slab" where
  "slab_free data s =
     (let pmb = data - unat (m_alignedsize s); pmp = mp s pmb;
          s2 = (case pre s pmb of
                  Some b \<Rightarrow>
                    let s1 = s\<lparr>nxt := (nxt s)(b := nxt s pmb)\<rparr> in
                    (case nxt s1 pmb of None \<Rightarrow> s1 | Some n \<Rightarrow> s1\<lparr>pre := (pre s1)(n := pre s1 pmb)\<rparr>)
                | None \<Rightarrow>
                    let s1 = s\<lparr>usedhead := (usedhead s)(pmp := nxt s pmb)\<rparr> in
                    (case usedhead s1 pmp of None \<Rightarrow> s1 | Some u \<Rightarrow> s1\<lparr>pre := (pre s1)(u := None)\<rparr>));
          s3 = (case freehead s2 pmp of None \<Rightarrow> s2 | Some h \<Rightarrow> s2\<lparr>pre := (pre s2)(h := Some pmb)\<rparr>);
          s4 = s3\<lparr>pre := (pre s3)(pmb := None)\<rparr>;
          s5 = s4\<lparr>nxt := (nxt s4)(pmb := freehead s4 pmp)\<rparr>;
          s6 = s5\<lparr>freehead := (freehead s5)(pmp := Some pmb)\<rparr>
      in s6\<lparr>m_alloced_num := m_alloced_num s6 - 1\<rparr>)"

text \<open>Both constructors; the one without a limit passes -1. \<open>heap\<close> is the store before.\<close>

definition pure_slab :: "malloc \<Rightarrow> slab \<Rightarrow> 32 word \<Rightarrow> 32 word \<Rightarrow> 32 word \<Rightarrow> slab option" where
  "pure_slab ml heap block_size pool_size num =
     (let aligned = pure_align_u32 sizeof_memblock 8;
          s = heap\<lparr>m_max_num := num, m_alloced_num := 0, m_alignedsize := aligned,
                m_mbsize := pure_align_u32 block_size 8 + aligned,
                m_poolsize := pure_align_u32 pool_size 4096, mp_mpool := None\<rparr>
      in case creat_mempool ml None (m_poolsize s) s of
           (None, s1) \<Rightarrow> Some (s1\<lparr>mp_mpool := None\<rparr>)
         | (Some q, s1) \<Rightarrow> init_memblock q (m_mbsize s1) (s1\<lparr>mp_mpool := Some q\<rparr>))"

partial_function (option) destroy_loop :: "addr option \<Rightarrow> slab \<Rightarrow> slab option" where
  "destroy_loop dpmp s =
     (case dpmp of None \<Rightarrow> Some s
      | Some pmp \<Rightarrow> destroy_loop (pnext s pmp) (delete_zone (pmp - off_t s pmp) s))"

definition destroy_pools :: "slab \<Rightarrow> slab option" where
  "destroy_pools s = map_option (\<lambda>s'. s'\<lparr>mp_mpool := None\<rparr>) (destroy_loop (mp_mpool s) s)"

end
