(* ===== verification/Slab_Proofs.thy ===== *)
theory Slab_Proofs
  imports Slab
begin

text \<open>
  The lists of the slab allocator and its invariant: every pool has a list of free blocks and a
  doubly linked list of used ones, which together are blocks of the pool, each in one list once.
\<close>

section \<open>Linked lists\<close>

fun path :: "(addr \<Rightarrow> addr option) \<Rightarrow> addr option \<Rightarrow> addr list \<Rightarrow> bool" where
  "path f p [] = (p = None)"
| "path f p (x # xs) = (p = Some x \<and> path f (f x) xs)"

fun backs :: "(addr \<Rightarrow> addr option) \<Rightarrow> addr option \<Rightarrow> addr list \<Rightarrow> bool" where
  "backs g prev [] = True"
| "backs g prev (x # xs) = (g x = prev \<and> backs g (Some x) xs)"

lemma path_cong: "path f p xs \<Longrightarrow> (\<And>x. x \<in> set xs \<Longrightarrow> f' x = f x) \<Longrightarrow> path f' p xs"
  by (induction xs arbitrary: p) auto

lemma backs_cong: "backs g p xs \<Longrightarrow> (\<And>x. x \<in> set xs \<Longrightarrow> g' x = g x) \<Longrightarrow> backs g' p xs"
  by (induction xs arbitrary: p) auto

lemma path_upd [simp]: "y \<notin> set xs \<Longrightarrow> path (f(y := v)) p xs = path f p xs"
  by (induction xs arbitrary: p) auto

lemma backs_upd [simp]: "y \<notin> set xs \<Longrightarrow> backs (g(y := v)) p xs = backs g p xs"
  by (induction xs arbitrary: p) auto

lemma path_det: "path f p xs \<Longrightarrow> path f p ys \<Longrightarrow> xs = ys"
proof (induction xs arbitrary: p ys)
  case Nil
  then show ?case by (cases ys) auto
next
  case (Cons x xs)
  then show ?case by (cases ys) auto
qed

lemma path_head: "path f p xs \<Longrightarrow> p = (case xs of [] \<Rightarrow> None | x # _ \<Rightarrow> Some x)"
  by (cases xs) auto

lemma path_tail: "path f p (xs @ b # ys) \<Longrightarrow> path f (f b) ys"
  by (induction xs arbitrary: p) auto

lemma backs_at: "backs g prev (xs @ b # ys) \<Longrightarrow> g b = (if xs = [] then prev else Some (last xs))"
  by (induction xs arbitrary: prev) auto

lemma path_unlink:
  "path f p (xs @ b # ys) \<Longrightarrow> distinct (xs @ b # ys) \<Longrightarrow> xs \<noteq> [] \<Longrightarrow> path (f(last xs := f b)) p (xs @ ys)"
proof (induction xs arbitrary: p)
  case (Cons x xs)
  then show ?case
  proof (cases "xs = []")
    case True
    then show ?thesis using Cons.prems by (auto elim!: path_cong)
  next
    case False
    then have "last xs \<noteq> x" using Cons.prems(2) last_in_set [OF False] by auto
    then show ?thesis using Cons False by simp
  qed
qed simp

lemma backs_unlink_nil: "backs g prev (xs @ [b]) \<Longrightarrow> backs g prev xs"
  by (induction xs arbitrary: prev) auto

lemma backs_unlink:
  "backs g prev (xs @ b # y # ys) \<Longrightarrow> distinct (xs @ b # y # ys) \<Longrightarrow> backs (g(y := g b)) prev (xs @ y # ys)"
  by (induction xs arbitrary: prev) auto

section \<open>The blocks of a pool\<close>

fun blks :: "nat \<Rightarrow> nat \<Rightarrow> addr \<Rightarrow> addr list" where
  "blks ul 0 pos = []"
| "blks ul (Suc n) pos = pos # blks ul n (pos + ul)"

lemma blks_set: "b \<in> set (blks ul n pos) \<longleftrightarrow> (\<exists>i < n. b = pos + i * ul)"
proof (induction n arbitrary: pos)
  case (Suc n)
  show ?case
  proof
    assume "b \<in> set (blks ul (Suc n) pos)"
    then consider "b = pos" | i where "i < n" "b = pos + ul + i * ul" using Suc by auto
    then show "\<exists>i < Suc n. b = pos + i * ul"
    proof cases
      case 1
      then show ?thesis by (intro exI [of _ 0]) simp
    next
      case 2
      then show ?thesis by (intro exI [of _ "Suc i"]) simp
    qed
  next
    assume "\<exists>i < Suc n. b = pos + i * ul"
    then obtain i where "i < Suc n" "b = pos + i * ul" by blast
    then show "b \<in> set (blks ul (Suc n) pos)" using Suc by (cases i) auto
  qed
qed simp

lemma blks_distinct: "0 < ul \<Longrightarrow> distinct (blks ul n pos)"
  by (induction n arbitrary: pos) (auto simp: blks_set)

text \<open>Two blocks of a pool do not overlap.\<close>

lemma blks_apart:
  assumes "b \<in> set (blks ul n pos)" "c \<in> set (blks ul n pos)" "b \<noteq> c"
  shows "{b ..< b + ul} \<inter> {c ..< c + ul} = {}"
proof -
  obtain i j where ij: "b = pos + i * ul" "c = pos + j * ul" using assms by (auto simp: blks_set)
  with assms(3) consider "i < j" | "j < i" by (metis nat_neq_iff)
  then have "b + ul \<le> c \<or> c + ul \<le> b"
  proof cases
    case 1
    then have "Suc i * ul \<le> j * ul" by (intro mult_le_mono1) simp
    then show ?thesis using ij by simp
  next
    case 2
    then have "Suc j * ul \<le> i * ul" by (intro mult_le_mono1) simp
    then show ?thesis using ij by simp
  qed
  then show ?thesis by auto
qed

lemma init_memblock_loop_chain:
  assumes "0 < unat ul" "unat ul \<le> unat (plength s p)" "n = (unat (plength s p) - unat offs) div unat ul"
    "unat offs \<le> unat (plength s p)" "\<forall>b. mbpre = Some b \<longrightarrow> b < pos"
  shows "\<exists>s'. init_memblock_loop p ul pos offs mbpre s = Some s'
    \<and> s' = s\<lparr>pre := pre s', nxt := nxt s'\<rparr>
    \<and> (if n = 0 then s' = s else path (nxt s') (Some pos) (blks (unat ul) n pos)
         \<and> (\<forall>b. mbpre = Some b \<longrightarrow> nxt s' b = Some pos))
    \<and> (\<forall>b. b \<notin> set (blks (unat ul) n pos) \<and> mbpre \<noteq> Some b \<longrightarrow> nxt s' b = nxt s b)
    \<and> (\<forall>b. b \<notin> set (blks (unat ul) n pos) \<longrightarrow> pre s' b = pre s b)"
  using assms
proof (induction n arbitrary: pos offs mbpre s)
  case 0
  let ?L = "plength s p"
  have "unat ?L - unat offs < unat ul" using 0 by (simp add: div_eq_0_iff)
  then have "\<not> offs \<le> ?L - ul"
    using 0 by (simp add: word_le_nat_alt unat_sub word_less_nat_alt)
  then have "init_memblock_loop p ul pos offs mbpre s = Some s"
    by (subst init_memblock_loop.simps) simp
  then show ?case by simp
next
  case (Suc n)
  let ?L = "plength s p" and ?s1 = "link_block mbpre pos s"
  have one: "1 \<le> (unat ?L - unat offs) div unat ul" using Suc.prems(3) by simp
  have ge: "unat offs + unat ul \<le> unat ?L"
    using one Suc.prems(1,4) by (simp add: less_eq_div_iff_mult_less_eq)
  have le: "offs \<le> ?L - ul" using ge Suc.prems(2) by (simp add: word_le_nat_alt unat_sub)
  have o: "unat (offs + ul) = unat offs + unat ul"
  proof -
    have "unat ?L < 2 ^ 32" using unsigned_less [of ?L] by simp
    then show ?thesis using ge by (simp add: unat_word_ariths(1))
  qed
  have L: "plength ?s1 p = ?L" by (simp add: link_block_def Let_def split: option.splits)
  let ?x = "unat ?L - (unat offs + unat ul)"
  have "unat ?L - unat offs = ?x + unat ul" using ge by linarith
  then have "Suc n = (?x + unat ul) div unat ul" using Suc.prems(3) by (simp only:)
  also have "\<dots> = ?x div unat ul + 1" using Suc.prems(1) by (intro div_add_self2) simp
  finally have n: "n = (unat (plength ?s1 p) - unat (offs + ul)) div unat ul" unfolding L o by linarith
  from Suc.IH [OF Suc.prems(1) _ n, of "Some pos" "pos + unat ul"] Suc.prems(1,2) ge
  obtain s' where s': "init_memblock_loop p ul (pos + unat ul) (offs + ul) (Some pos) ?s1 = Some s'"
    and rec: "s' = ?s1\<lparr>pre := pre s', nxt := nxt s'\<rparr>"
    and chain: "if n = 0 then s' = ?s1 else path (nxt s') (Some (pos + unat ul)) (blks (unat ul) n (pos + unat ul))
         \<and> nxt s' pos = Some (pos + unat ul)"
    and fr: "\<forall>b. b \<notin> set (blks (unat ul) n (pos + unat ul)) \<and> pos \<noteq> b \<longrightarrow> nxt s' b = nxt ?s1 b"
    and frp: "\<forall>b. b \<notin> set (blks (unat ul) n (pos + unat ul)) \<longrightarrow> pre s' b = pre ?s1 b"
    unfolding L o by auto
  have run: "init_memblock_loop p ul pos offs mbpre s = Some s'"
    using le s' by (subst init_memblock_loop.simps) simp
  have "s' = s\<lparr>pre := pre s', nxt := nxt s'\<rparr>"
    by (subst rec) (simp add: link_block_def Let_def split: option.splits)
  moreover have "path (nxt s') (Some pos) (blks (unat ul) (Suc n) pos)"
    using chain by (cases n) (auto simp: link_block_def Let_def split: option.splits)
  moreover have "nxt s' b = Some pos" if "mbpre = Some b" for b
  proof -
    have "b < pos" using that Suc.prems(5) by simp
    then have "b \<notin> set (blks (unat ul) n (pos + unat ul))" by (auto simp: blks_set)
    then show ?thesis using fr that \<open>b < pos\<close> by (simp add: link_block_def)
  qed
  moreover have "nxt s' b = nxt s b" if "b \<notin> set (blks (unat ul) (Suc n) pos)" "mbpre \<noteq> Some b" for b
    using fr that by (auto simp: link_block_def Let_def split: option.splits)
  moreover have "pre s' b = pre s b" if "b \<notin> set (blks (unat ul) (Suc n) pos)" for b
    using frp that by (auto simp: link_block_def Let_def split: option.splits)
  ultimately show ?case using run by auto
qed


section \<open>The invariant\<close>

definition pool_blocks :: "slab \<Rightarrow> addr \<Rightarrow> addr list" where
  "pool_blocks s q = blks (unat (m_mbsize s)) ((unat (plength s q) - 32) div unat (m_mbsize s)) (q + 32)"

definition own :: "slab \<Rightarrow> addr \<Rightarrow> addr set" where
  "own s q = {q ..< q + unat (plength s q)}"

definition pool_ok :: "slab \<Rightarrow> addr \<Rightarrow> addr list \<Rightarrow> addr list \<Rightarrow> bool" where
  "pool_ok s q fl ul \<longleftrightarrow> path (nxt s) (freehead s q) fl \<and> path (nxt s) (usedhead s q) ul
     \<and> backs (pre s) None ul \<and> (\<forall>b \<in> set ul. mp s b = q) \<and> distinct (fl @ ul)
     \<and> set fl \<union> set ul \<subseteq> set (pool_blocks s q) \<and> 32 \<le> unat (plength s q)"

definition pools_ok :: "slab \<Rightarrow> addr list \<Rightarrow> bool" where
  "pools_ok s Q \<longleftrightarrow> path (pnext s) (mp_mpool s) Q \<and> Q \<noteq> [] \<and> distinct Q
     \<and> (\<forall>q \<in> set Q. \<exists>z \<in> set (zones s). own s q \<subseteq> zone_set z)
     \<and> (\<forall>q \<in> set Q. \<forall>r \<in> set Q. q \<noteq> r \<longrightarrow> own s q \<inter> own s r = {})"

definition slab_sized :: "slab \<Rightarrow> bool" where
  "slab_sized s \<longleftrightarrow> 24 \<le> unat (m_mbsize s) \<and> 95 + unat (m_mbsize s) \<le> unat (m_poolsize s) \<and> m_alignedsize s = 24"

definition slab_inv :: "slab \<Rightarrow> addr list \<Rightarrow> (addr \<Rightarrow> addr list) \<Rightarrow> (addr \<Rightarrow> addr list) \<Rightarrow> bool" where
  "slab_inv s Q F V \<longleftrightarrow> slab_sized s \<and> pools_ok s Q \<and> (\<forall>q \<in> set Q. pool_ok s q (F q) (V q))"

text \<open>The pointers \<open>P\<close> are handed out: they are the data of the blocks in the used lists.\<close>

definition slab_live :: "addr set \<Rightarrow> slab \<Rightarrow> bool" where
  "slab_live P s \<longleftrightarrow> (\<exists>Q F V. slab_inv s Q F V \<and> P = (\<lambda>b. b + 24) ` (\<Union>q \<in> set Q. set (V q))
     \<and> m_alloced_num s = of_nat (card P))"

lemma pool_blocks_own:
  assumes "b \<in> set (pool_blocks s q)"
  shows "{b ..< b + unat (m_mbsize s)} \<subseteq> own s q"
proof -
  let ?u = "unat (m_mbsize s)" and ?n = "(unat (plength s q) - 32) div unat (m_mbsize s)"
  obtain i where i: "i < ?n" "b = q + 32 + i * ?u" using assms by (auto simp: pool_blocks_def blks_set)
  have "Suc i * ?u \<le> ?n * ?u" using i(1) by (intro mult_le_mono1) simp
  also have "\<dots> \<le> unat (plength s q) - 32" by (rule div_times_less_eq_dividend)
  finally have le: "Suc i * ?u \<le> unat (plength s q) - 32" .
  show ?thesis
  proof
    fix x assume x: "x \<in> {b ..< b + ?u}"
    then have "0 < Suc i * ?u" by auto
    with le have "i * ?u + ?u + 32 \<le> unat (plength s q)" unfolding mult_Suc by linarith
    with x i(2) show "x \<in> own s q" by (auto simp: own_def)
  qed
qed

lemma pool_block_in_own:
  assumes "b \<in> set (pool_blocks s q)" "slab_sized s"
  shows "b \<in> own s q"
proof -
  have "b \<in> {b ..< b + unat (m_mbsize s)}" using assms(2) by (simp add: slab_sized_def)
  then show ?thesis using pool_blocks_own [OF assms(1)] by blast
qed

text \<open>Blocks of different pools are different.\<close>

lemma pool_blocks_disjoint:
  assumes "slab_sized s" "pools_ok s Q" "q \<in> set Q" "r \<in> set Q" "q \<noteq> r"
  shows "set (pool_blocks s q) \<inter> set (pool_blocks s r) = {}"
proof -
  have "own s q \<inter> own s r = {}" using assms unfolding pools_ok_def by blast
  then show ?thesis using pool_block_in_own assms(1) by blast
qed

section \<open>Changes inside one pool\<close>

definition same_but :: "addr \<Rightarrow> slab \<Rightarrow> slab \<Rightarrow> bool" where
  "same_but q s s' \<longleftrightarrow>
     (\<forall>x. x \<notin> set (pool_blocks s q) \<longrightarrow> nxt s' x = nxt s x \<and> pre s' x = pre s x \<and> mp s' x = mp s x)
     \<and> (\<forall>r. r \<noteq> q \<longrightarrow> freehead s' r = freehead s r \<and> usedhead s' r = usedhead s r)
     \<and> pnext s' = pnext s \<and> plength s' = plength s \<and> mp_mpool s' = mp_mpool s \<and> zones s' = zones s
     \<and> m_mbsize s' = m_mbsize s \<and> m_poolsize s' = m_poolsize s \<and> m_alignedsize s' = m_alignedsize s"

lemma pool_ok_cong:
  assumes "pool_ok s q fl ul" "\<And>x. x \<in> set (pool_blocks s q) \<Longrightarrow> nxt s' x = nxt s x \<and> pre s' x = pre s x \<and> mp s' x = mp s x"
    "freehead s' q = freehead s q" "usedhead s' q = usedhead s q" "plength s' q = plength s q" "m_mbsize s' = m_mbsize s"
  shows "pool_ok s' q fl ul"
proof -
  have b: "pool_blocks s' q = pool_blocks s q" using assms(5,6) by (simp add: pool_blocks_def)
  have m: "x \<in> set (pool_blocks s q)" if "x \<in> set fl \<or> x \<in> set ul" for x using assms(1) that by (auto simp: pool_ok_def)
  have "path (nxt s') (freehead s q) fl"
    by (rule path_cong [of "nxt s"]) (use assms(1,2) m in \<open>auto simp: pool_ok_def\<close>)
  moreover have "path (nxt s') (usedhead s q) ul"
    by (rule path_cong [of "nxt s"]) (use assms(1,2) m in \<open>auto simp: pool_ok_def\<close>)
  moreover have "backs (pre s') None ul"
    by (rule backs_cong [of "pre s"]) (use assms(1,2) m in \<open>auto simp: pool_ok_def\<close>)
  moreover have "\<forall>b \<in> set ul. mp s' b = q" using assms(1,2) m by (auto simp: pool_ok_def)
  ultimately show ?thesis using assms(1,3-6) b by (simp add: pool_ok_def)
qed

lemma same_but_pools:
  assumes "same_but q s s'"
  shows "pools_ok s' Q = pools_ok s Q" "slab_sized s' = slab_sized s"
  using assms by (simp_all add: pools_ok_def slab_sized_def same_but_def own_def)

lemma slab_inv_update:
  assumes inv: "slab_inv s Q F V" and q: "q \<in> set Q" and sb: "same_but q s s'" and ok: "pool_ok s' q fl ul"
  shows "slab_inv s' Q (F(q := fl)) (V(q := ul))"
proof -
  have "pool_ok s' r (F r) (V r)" if r: "r \<in> set Q" "r \<noteq> q" for r
  proof (rule pool_ok_cong [of s])
    show "pool_ok s r (F r) (V r)" using inv r by (simp add: slab_inv_def)
    have "set (pool_blocks s r) \<inter> set (pool_blocks s q) = {}"
      using pool_blocks_disjoint [of s Q r q] inv q r by (simp add: slab_inv_def)
    then show "nxt s' x = nxt s x \<and> pre s' x = pre s x \<and> mp s' x = mp s x" if "x \<in> set (pool_blocks s r)" for x
      using sb that unfolding same_but_def by blast
  qed (use sb r(2) in \<open>simp_all add: same_but_def\<close>)
  then show ?thesis using inv ok same_but_pools [OF sb] by (simp add: slab_inv_def)
qed

lemma take_block_sel:
  "fst (take_block q b s) = b + unat (m_alignedsize s)"
  "nxt (snd (take_block q b s)) = (nxt s)(b := usedhead s q)"
  "freehead (snd (take_block q b s)) = (freehead s)(q := nxt s b)"
  "usedhead (snd (take_block q b s)) = (usedhead s)(q := Some b)"
  "mp (snd (take_block q b s)) = (mp s)(b := q)"
  "pre (snd (take_block q b s)) x = (if x = b then None else if usedhead s q = Some x then Some b
     else if nxt s b = Some x then None else pre s x)"
  "pnext (snd (take_block q b s)) = pnext s" "plength (snd (take_block q b s)) = plength s"
  "mp_mpool (snd (take_block q b s)) = mp_mpool s" "zones (snd (take_block q b s)) = zones s"
  "m_mbsize (snd (take_block q b s)) = m_mbsize s" "m_poolsize (snd (take_block q b s)) = m_poolsize s"
  "m_alignedsize (snd (take_block q b s)) = m_alignedsize s" "m_max_num (snd (take_block q b s)) = m_max_num s"
  "m_alloced_num (snd (take_block q b s)) = m_alloced_num s + 1"
  by (auto simp: take_block_def Let_def split: option.splits)

lemma take_block_ok:
  assumes ok: "pool_ok s q (b # fl) ul"
  shows "pool_ok (snd (take_block q b s)) q fl (b # ul)" "same_but q s (snd (take_block q b s))"
proof -
  let ?s = "snd (take_block q b s)"
  have p: "path (nxt s) (nxt s b) fl" "path (nxt s) (usedhead s q) ul" "backs (pre s) None ul" "distinct (b # fl @ ul)"
    "set (b # fl @ ul) \<subseteq> set (pool_blocks s q)" "\<forall>b \<in> set ul. mp s b = q"
    using ok by (auto simp: pool_ok_def)
  have bl: "pool_blocks ?s q = pool_blocks s q" by (simp add: pool_blocks_def take_block_sel)
  have hd: "x \<in> set fl" if "nxt s b = Some x" for x using p(1) that by (cases fl) auto
  have hu: "x \<in> set ul" if "usedhead s q = Some x" for x using p(2) that by (cases ul) auto
  have "backs (pre ?s) (Some b) ul"
  proof (cases ul)
    case (Cons u us)
    have "backs (pre ?s) (Some u) us"
    proof (rule backs_cong [of "pre s"])
      show "backs (pre s) (Some u) us" using p(3) Cons by simp
      show "pre ?s x = pre s x" if "x \<in> set us" for x
        using that p(2,4) Cons hd by (auto simp: take_block_sel)
    qed
    then show ?thesis using Cons p(2,4) by (auto simp: take_block_sel)
  qed simp
  then have "backs (pre ?s) None (b # ul)" by (simp add: take_block_sel)
  moreover have "path (nxt ?s) (freehead ?s q) fl" "path (nxt ?s) (usedhead ?s q) (b # ul)"
    using p by (auto simp: take_block_sel)
  moreover have "\<forall>c \<in> set (b # ul). mp ?s c = q" using p(6) by (simp add: take_block_sel)
  ultimately show "pool_ok ?s q fl (b # ul)" using p ok bl by (auto simp: pool_ok_def take_block_sel)
  show "same_but q s ?s"
    using p(5) hd hu unfolding same_but_def by (auto simp: take_block_sel)
qed


lemma slab_free_sel:
  assumes "m_alignedsize s = 24" "pre s b \<noteq> Some b"
  shows "nxt (slab_free (b + 24) s) = ((case pre s b of None \<Rightarrow> nxt s | Some c \<Rightarrow> (nxt s)(c := nxt s b))(b := freehead s (mp s b)))"
    "freehead (slab_free (b + 24) s) = (freehead s)(mp s b := Some b)"
    "usedhead (slab_free (b + 24) s) = (if pre s b = None then (usedhead s)(mp s b := nxt s b) else usedhead s)"
    "mp (slab_free (b + 24) s) = mp s"
    "pre (slab_free (b + 24) s) x = (if x = b then None else if freehead s (mp s b) = Some x then Some b
       else if nxt s b = Some x then pre s b else pre s x)"
    "pnext (slab_free (b + 24) s) = pnext s" "plength (slab_free (b + 24) s) = plength s"
    "mp_mpool (slab_free (b + 24) s) = mp_mpool s" "zones (slab_free (b + 24) s) = zones s"
    "m_mbsize (slab_free (b + 24) s) = m_mbsize s" "m_poolsize (slab_free (b + 24) s) = m_poolsize s"
    "m_alignedsize (slab_free (b + 24) s) = m_alignedsize s" "m_max_num (slab_free (b + 24) s) = m_max_num s"
    "m_alloced_num (slab_free (b + 24) s) = m_alloced_num s - 1"
  using assms by (auto simp: slab_free_def Let_def split: option.splits)

lemma slab_free_ok:
  assumes al: "m_alignedsize s = 24" and ok: "pool_ok s q fl (xs @ b # ys)"
  shows "pool_ok (slab_free (b + 24) s) q (b # fl) (xs @ ys)" "same_but q s (slab_free (b + 24) s)"
proof -
  let ?s = "slab_free (b + 24) s"
  have p: "path (nxt s) (freehead s q) fl" "path (nxt s) (usedhead s q) (xs @ b # ys)"
    "backs (pre s) None (xs @ b # ys)" "distinct (fl @ xs @ b # ys)"
    "set (fl @ xs @ b # ys) \<subseteq> set (pool_blocks s q)" "\<forall>c \<in> set (xs @ b # ys). mp s c = q"
    using ok by (auto simp: pool_ok_def)
  have mb: "mp s b = q" using p(6) by simp
  have pb: "pre s b = (if xs = [] then None else Some (last xs))" using backs_at [OF p(3)] .
  have nb: "path (nxt s) (nxt s b) ys" using path_tail [OF p(2)] .
  have nb': "nxt s b = (case ys of [] \<Rightarrow> None | y # _ \<Rightarrow> Some y)" using path_head [OF nb] .
  have hf: "x \<in> set fl" if "freehead s q = Some x" for x using p(1) that by (cases fl) auto
  have lx: "last xs \<in> set xs" if "xs \<noteq> []" using that by simp
  have ne: "pre s b \<noteq> Some b" using pb p(4) lx by (auto split: if_splits)
  note sel = slab_free_sel [OF al ne, unfolded mb]
  have bl: "pool_blocks ?s q = pool_blocks s q" by (simp add: pool_blocks_def sel)
  have fr: "path (nxt ?s) (freehead ?s q) (b # fl)"
  proof -
    have "last xs \<notin> set fl" if "xs \<noteq> []" using lx [OF that] p(4) by auto
    then have "path (case pre s b of None \<Rightarrow> nxt s | Some c \<Rightarrow> (nxt s)(c := nxt s b)) (freehead s q) fl"
      using p(1) by (simp add: pb)
    then show ?thesis using p(4) by (simp add: sel)
  qed
  have us: "path (nxt ?s) (usedhead ?s q) (xs @ ys)"
  proof (cases "xs = []")
    case True
    then show ?thesis using nb p(4) pb by (simp add: sel)
  next
    case False
    have "path ((nxt s)(last xs := nxt s b)) (usedhead s q) (xs @ ys)"
      using path_unlink [OF p(2) _ False] p(4) by simp
    then show ?thesis using False pb p(4) by (simp add: sel)
  qed
  have bk: "backs (pre ?s) None (xs @ ys)"
  proof -
    have "backs (\<lambda>x. if nxt s b = Some x then pre s b else pre s x) None (xs @ ys)"
    proof (cases ys)
      case Nil
      then show ?thesis using backs_unlink_nil p(3) nb' by auto
    next
      case (Cons y zs)
      have "(\<lambda>x. if nxt s b = Some x then pre s b else pre s x) = (pre s)(y := pre s b)" using nb' Cons by auto
      then show ?thesis using backs_unlink [of "pre s" None xs b y zs] p(3,4) Cons by simp
    qed
    then show ?thesis by (rule backs_cong) (use p(4) hf in \<open>auto simp: sel\<close>)
  qed
  show "pool_ok ?s q (b # fl) (xs @ ys)"
    using fr us bk p ok bl by (auto simp: pool_ok_def sel)
  have "x \<in> set ys" if "nxt s b = Some x" for x using nb' that by (cases ys) auto
  moreover have "x \<in> set (pool_blocks s q)" if "pre s b = Some x" for x
    using pb lx p(5) that by (auto split: if_splits)
  ultimately show "same_but q s ?s"
    using p(5) hf unfolding same_but_def by (auto simp: sel split: option.splits)
qed

section \<open>A new pool\<close>

lemma align_ptr_64: "z \<le> align_ptr z 64" "align_ptr z 64 < z + 64"
  using round_up_bounds [of 64 z] by (simp_all add: align_ptr_def)

text \<open>A zone from \<^verbatim>\<open>malloc\<close> shares no byte with the zones in use.\<close>

definition malloc_fresh :: "malloc \<Rightarrow> bool" where
  "malloc_fresh ml \<longleftrightarrow> (\<forall>zs l z. ml zs l = Some z \<longrightarrow> (\<forall>y \<in> set zs. zone_set (z, l) \<inter> zone_set y = {}))"

text \<open>The pool at \<open>q\<close> in the zone at \<open>z\<close>, with its blocks chained.\<close>

definition new_pool :: "addr \<Rightarrow> slab \<Rightarrow> slab \<Rightarrow> bool" where
  "new_pool q s s' \<longleftrightarrow> pool_ok s' q (pool_blocks s' q) [] \<and> pool_blocks s' q \<noteq> []
     \<and> own s' q \<subseteq> zone_set (hd (zones s'))
     \<and> (\<forall>x. x \<notin> zone_set (hd (zones s')) \<longrightarrow> nxt s' x = nxt s x \<and> pre s' x = pre s x) \<and> mp s' = mp s
     \<and> (\<forall>r. r \<noteq> q \<longrightarrow> freehead s' r = freehead s r \<and> usedhead s' r = usedhead s r \<and> plength s' r = plength s r)
     \<and> m_mbsize s' = m_mbsize s \<and> m_poolsize s' = m_poolsize s \<and> m_alignedsize s' = m_alignedsize s
     \<and> m_max_num s' = m_max_num s \<and> m_alloced_num s' = m_alloced_num s"

lemma init_memblock_run:
  assumes "24 \<le> unat u" "32 + unat u \<le> unat (plength s q)"
  shows "\<exists>s'. init_memblock q u s = Some s' \<and> pool_ok (s'\<lparr>m_mbsize := u\<rparr>) q (pool_blocks (s\<lparr>m_mbsize := u\<rparr>) q) []
    \<and> pool_blocks (s\<lparr>m_mbsize := u\<rparr>) q \<noteq> [] \<and> (\<forall>x. x \<notin> own s q \<longrightarrow> nxt s' x = nxt s x \<and> pre s' x = pre s x)
    \<and> s' = s\<lparr>pre := pre s', nxt := nxt s', freehead := (freehead s)(q := Some (q + 32)), usedhead := (usedhead s)(q := None)\<rparr>"
proof -
  let ?s0 = "s\<lparr>freehead := (freehead s)(q := Some (q + 32))\<rparr>" and ?n = "(unat (plength s q) - 32) div unat u"
  let ?B = "pool_blocks (s\<lparr>m_mbsize := u\<rparr>) q"
  have m: "pure_align_u32 sizeof_mempool 8 = 32" by (simp add: pure_align_u32_def sizeof_mempool_def)
  have pos: "0 < ?n" using assms by (simp add: div_greater_zero_iff)
  have B: "?B = blks (unat u) ?n (q + 32)" by (simp add: pool_blocks_def)
  from init_memblock_loop_chain [of u ?s0 q ?n 32 None "q + 32"] assms pos
  obtain s1 where s1: "init_memblock_loop q u (q + 32) 32 None ?s0 = Some s1"
    "s1 = ?s0\<lparr>pre := pre s1, nxt := nxt s1\<rparr>" "path (nxt s1) (Some (q + 32)) ?B"
    "\<forall>b. b \<notin> set ?B \<longrightarrow> nxt s1 b = nxt s b" "\<forall>b. b \<notin> set ?B \<longrightarrow> pre s1 b = pre s b" unfolding B by auto
  let ?s2 = "s1\<lparr>usedhead := (usedhead s1)(q := None)\<rparr>"
  have run: "init_memblock q u s = Some ?s2" using s1(1) by (simp add: init_memblock_def m)
  have s2: "?s2 = s\<lparr>pre := pre ?s2, nxt := nxt ?s2, freehead := (freehead s)(q := Some (q + 32)), usedhead := (usedhead s)(q := None)\<rparr>"
    by (subst s1(2), subst (3) s1(2)) simp
  have f: "freehead ?s2 q = Some (q + 32)" "usedhead ?s2 q = None" "plength ?s2 = plength s" by (subst s2, simp)+
  have "pool_ok (?s2\<lparr>m_mbsize := u\<rparr>) q ?B []"
    using s1(3) assms blks_distinct [of "unat u"] f unfolding pool_ok_def B by (simp add: pool_blocks_def)
  moreover have "?B \<noteq> []" unfolding B using pos by (cases ?n) auto
  moreover have "x \<notin> own s q \<longrightarrow> nxt ?s2 x = nxt s x \<and> pre ?s2 x = pre s x" for x
  proof -
    have "x \<in> own s q" if "x \<in> set ?B"
      using pool_blocks_own [OF that] assms(1) by (auto simp: own_def)
    then show ?thesis using s1(4,5) by auto
  qed
  ultimately show ?thesis using run s2 by blast
qed

lemma init_memblock_ok:
  assumes "24 \<le> unat (m_mbsize s)" "32 + unat (m_mbsize s) \<le> unat (plength s q)"
  shows "\<exists>s'. init_memblock q (m_mbsize s) s = Some s' \<and> pool_ok s' q (pool_blocks s' q) [] \<and> pool_blocks s' q \<noteq> []
    \<and> (\<forall>x. x \<notin> own s q \<longrightarrow> nxt s' x = nxt s x \<and> pre s' x = pre s x)
    \<and> s' = s\<lparr>pre := pre s', nxt := nxt s', freehead := (freehead s)(q := Some (q + 32)), usedhead := (usedhead s)(q := None)\<rparr>"
proof -
  obtain s' where run: "init_memblock q (m_mbsize s) s = Some s'"
    and ok: "pool_ok (s'\<lparr>m_mbsize := m_mbsize s\<rparr>) q (pool_blocks (s\<lparr>m_mbsize := m_mbsize s\<rparr>) q) []"
      "pool_blocks (s\<lparr>m_mbsize := m_mbsize s\<rparr>) q \<noteq> []" "\<forall>x. x \<notin> own s q \<longrightarrow> nxt s' x = nxt s x \<and> pre s' x = pre s x"
    and e: "s' = s\<lparr>pre := pre s', nxt := nxt s', freehead := (freehead s)(q := Some (q + 32)), usedhead := (usedhead s)(q := None)\<rparr>"
    using init_memblock_run [OF assms] by blast
  have m: "m_mbsize s' = m_mbsize s" "plength s' = plength s" by (subst e, simp)+
  then have "s'\<lparr>m_mbsize := m_mbsize s\<rparr> = s'" "pool_blocks s' q = pool_blocks s q" by (simp_all add: pool_blocks_def)
  then show ?thesis using run ok e by simp
qed


definition linked :: "addr option \<Rightarrow> addr \<Rightarrow> slab \<Rightarrow> addr \<Rightarrow> addr option" where
  "linked p q s = (case p of None \<Rightarrow> pnext s | Some a \<Rightarrow> (pnext s)(a := Some q))(q := None)"

lemma creat_mempool_some:
  assumes "creat_mempool ml p l s = (Some q, s1)"
  obtains z where "ml (zones s) l = Some z" "q = align_ptr z 64"
    "s1 = s\<lparr>zones := (z, l) # zones s,
             pre := (\<lambda>x. if x \<in> zone_set (z, l) then None else pre s x),
             nxt := (\<lambda>x. if x \<in> zone_set (z, l) then None else nxt s x),
             off_t := (off_t s)(q := (q - z) mod 256), pnext := linked p q s,
             plength := (plength s)(q := l - of_nat ((q - z) mod 256))\<rparr>"
  using assms by (auto simp: creat_mempool_def new_zone_def linked_def Let_def split: if_splits option.splits)

lemma pool_length:
  assumes "64 \<le> unat l" "q = align_ptr z 64"
  shows "unat (l - of_nat ((q - z) mod 256) :: 32 word) = unat l - (q - z)"
    "{q ..< q + (unat l - (q - z))} \<subseteq> zone_set (z, l)" "q \<in> zone_set (z, l)"
proof -
  have b: "z \<le> q" "q < z + 64" using align_ptr_64 assms(2) by simp_all
  then have m: "(q - z) mod 256 = q - z" by simp
  have o: "unat (of_nat (q - z) :: 32 word) = q - z" using b by (simp only: unat_of_nat) simp
  show "unat (l - of_nat ((q - z) mod 256) :: 32 word) = unat l - (q - z)"
    unfolding m using o assms(1) b by (simp add: unat_sub word_le_nat_alt)
  show "{q ..< q + (unat l - (q - z))} \<subseteq> zone_set (z, l)" "q \<in> zone_set (z, l)"
    using b assms(1) by (auto simp: zone_set_def)
qed

lemma new_pool_created:
  assumes sz: "slab_sized s" and c: "creat_mempool ml p (m_poolsize s) s = (Some q, s1)"
  shows "\<exists>s2 z. init_memblock q (m_mbsize s1) s1 = Some s2 \<and> new_pool q s s2 \<and> ml (zones s) (m_poolsize s) = Some z
    \<and> zones s2 = (z, m_poolsize s) # zones s \<and> pnext s2 = linked p q s \<and> mp_mpool s2 = mp_mpool s
    \<and> q \<in> zone_set (z, m_poolsize s) \<and> slab_sized s2"
proof -
  let ?l = "m_poolsize s"
  obtain z where z: "ml (zones s) ?l = Some z" and q: "q = align_ptr z 64"
    and s1: "s1 = s\<lparr>zones := (z, ?l) # zones s,
             pre := (\<lambda>x. if x \<in> zone_set (z, ?l) then None else pre s x),
             nxt := (\<lambda>x. if x \<in> zone_set (z, ?l) then None else nxt s x),
             off_t := (off_t s)(q := (q - z) mod 256), pnext := linked p q s,
             plength := (plength s)(q := ?l - of_nat ((q - z) mod 256))\<rparr>"
    using c by (rule creat_mempool_some)
  have l: "64 \<le> unat ?l" using sz by (simp add: slab_sized_def)
  note pl = pool_length [OF l q]
  have len: "unat (plength s1 q) = unat ?l - (q - z)" unfolding s1 using pl(1) by simp
  have ow: "own s1 q \<subseteq> zone_set (z, ?l)" unfolding own_def len by (rule pl(2))
  have "q - z < 64" using align_ptr_64 [of z] q by simp
  then have "24 \<le> unat (m_mbsize s1)" "32 + unat (m_mbsize s1) \<le> unat (plength s1 q)"
    using sz unfolding len by (auto simp: s1 slab_sized_def)
  from init_memblock_ok [OF this] obtain s2 where s2: "init_memblock q (m_mbsize s1) s1 = Some s2"
    "pool_ok s2 q (pool_blocks s2 q) []" "pool_blocks s2 q \<noteq> []"
    "\<forall>x. x \<notin> own s1 q \<longrightarrow> nxt s2 x = nxt s1 x \<and> pre s2 x = pre s1 x"
    and e: "s2 = s1\<lparr>pre := pre s2, nxt := nxt s2, freehead := (freehead s1)(q := Some (q + 32)), usedhead := (usedhead s1)(q := None)\<rparr>"
    by blast
  have fs: "zones s2 = (z, ?l) # zones s" "mp s2 = mp s" "freehead s2 = (freehead s)(q := Some (q + 32))"
    "usedhead s2 = (usedhead s)(q := None)" "plength s2 = plength s1" "m_mbsize s2 = m_mbsize s"
    "m_poolsize s2 = ?l" "m_alignedsize s2 = m_alignedsize s" "m_max_num s2 = m_max_num s"
    "m_alloced_num s2 = m_alloced_num s" "pnext s2 = linked p q s" "mp_mpool s2 = mp_mpool s"
    by (subst e, simp add: s1)+
  have "own s2 q = own s1 q" by (simp add: own_def fs)
  moreover have "nxt s2 x = nxt s x \<and> pre s2 x = pre s x" if "x \<notin> zone_set (z, ?l)" for x
  proof -
    have "x \<notin> own s1 q" using ow that by blast
    then show ?thesis using s2(4) that by (simp add: s1)
  qed
  moreover have "plength s1 r = plength s r" if "r \<noteq> q" for r using that by (simp add: s1)
  ultimately have "new_pool q s s2"
    using s2(2,3) ow unfolding new_pool_def fs by simp
  then show ?thesis using s2(1) z fs pl(3) sz by (auto simp: slab_sized_def)
qed


lemma find_pool_spec:
  "path (pnext s) (Some p) Q \<Longrightarrow> \<exists>r \<in> set Q. find_pool s p = Some r
    \<and> (freehead s r \<noteq> None \<or> pnext s r = None \<and> r = last Q)"
proof (induction Q arbitrary: p)
  case (Cons x Q)
  then have x: "p = x" "path (pnext s) (pnext s x) Q" by simp_all
  show ?case
  proof (cases "pnext s x")
    case None
    then have "Q = []" using x(2) by (cases Q) auto
    then show ?thesis using None x(1) by (subst find_pool.simps) simp
  next
    case (Some n)
    then have "Q \<noteq> []" using x(2) by auto
    show ?thesis
    proof (cases "freehead s x = None")
      case True
      then have "find_pool s p = find_pool s n" using Some x(1) by (subst find_pool.simps) simp
      with Cons.IH [of n] x(2) Some \<open>Q \<noteq> []\<close> show ?thesis by auto
    next
      case False
      then have "find_pool s p = Some x" using Some x(1) by (subst find_pool.simps) auto
      then show ?thesis using False by auto
    qed
  qed
qed simp

lemma path_snoc:
  "path f p Q \<Longrightarrow> Q \<noteq> [] \<Longrightarrow> distinct Q \<Longrightarrow> q \<notin> set Q \<Longrightarrow> path (f(last Q := Some q, q := None)) p (Q @ [q])"
proof (induction Q arbitrary: p)
  case (Cons x Q)
  then show ?case
  proof (cases "Q = []")
    case False
    then have "last Q \<noteq> x" using Cons.prems(3) last_in_set [OF False] by auto
    then show ?thesis using Cons False by simp
  qed auto
qed simp

lemma slab_inv_grow:
  assumes inv: "slab_inv s Q F V" and np: "new_pool q s s2" and ml: "malloc_fresh ml" "ml (zones s) l = Some z"
    and s2: "zones s2 = (z, l) # zones s" "pnext s2 = (pnext s)(last Q := Some q, q := None)"
      "mp_mpool s2 = mp_mpool s" "q \<in> zone_set (z, l)" "slab_sized s2"
  shows "slab_inv s2 (Q @ [q]) (F(q := pool_blocks s2 q)) (V(q := []))" "q \<notin> set Q"
proof -
  have po: "pools_ok s Q" "slab_sized s" using inv by (simp_all add: slab_inv_def)
  have zd: "zone_set (z, l) \<inter> own s r = {}" if r: "r \<in> set Q" for r
  proof -
    obtain y where y: "y \<in> set (zones s)" "own s r \<subseteq> zone_set y" using po(1) r unfolding pools_ok_def by blast
    have "zone_set (z, l) \<inter> zone_set y = {}" using ml y(1) unfolding malloc_fresh_def by blast
    with y(2) show ?thesis by blast
  qed
  have r_own: "r \<in> own s r" if "r \<in> set Q" for r
    using inv that unfolding slab_inv_def pool_ok_def own_def by auto
  show nq: "q \<notin> set Q" using zd r_own s2(4) by blast
  have pl: "plength s2 r = plength s r" if "r \<in> set Q" for r using np nq that unfolding new_pool_def by metis
  then have ow: "own s2 r = own s r" if "r \<in> set Q" for r using that by (simp add: own_def)
  have oq: "own s2 q \<subseteq> zone_set (z, l)" using np s2(1) by (simp add: new_pool_def)
  have old: "pool_ok s2 r (F r) (V r)" if r: "r \<in> set Q" for r
  proof (rule pool_ok_cong [of s])
    show "pool_ok s r (F r) (V r)" using inv r by (simp add: slab_inv_def)
    have ne: "r \<noteq> q" using nq r by blast
    show "freehead s2 r = freehead s r" "usedhead s2 r = usedhead s r" "plength s2 r = plength s r" "m_mbsize s2 = m_mbsize s"
      using np ne unfolding new_pool_def by blast+
    fix x assume "x \<in> set (pool_blocks s r)"
    then have "x \<notin> zone_set (z, l)" using pool_block_in_own po(2) zd [OF r] by blast
    then show "nxt s2 x = nxt s x \<and> pre s2 x = pre s x \<and> mp s2 x = mp s x"
      using np s2(1) unfolding new_pool_def by simp
  qed
  have pth: "path (pnext s2) (mp_mpool s2) (Q @ [q])"
    using po(1) nq path_snoc [of "pnext s" "mp_mpool s" Q q] by (simp add: pools_ok_def s2)
  have zs: "\<exists>y \<in> set (zones s2). own s2 r \<subseteq> zone_set y" if "r \<in> set (Q @ [q])" for r
  proof (cases "r = q")
    case True
    then show ?thesis using oq s2(1) by simp
  next
    case False
    then have r: "r \<in> set Q" using that by simp
    then have "\<exists>y \<in> set (zones s). own s r \<subseteq> zone_set y" using po(1) unfolding pools_ok_def by blast
    then show ?thesis using ow [OF r] s2(1) by simp
  qed
  have dj: "own s2 r \<inter> own s2 t = {}" if rt: "r \<in> set (Q @ [q])" "t \<in> set (Q @ [q])" "r \<noteq> t" for r t
  proof -
    consider "r \<in> set Q" "t \<in> set Q" | "r = q" "t \<in> set Q" | "r \<in> set Q" "t = q" using rt by auto
    then show ?thesis
    proof cases
      case 1
      then have "own s r \<inter> own s t = {}" using po(1) rt(3) unfolding pools_ok_def by blast
      then show ?thesis using 1 ow by simp
    next
      case 2
      then show ?thesis using zd [of t] oq ow by auto
    next
      case 3
      then show ?thesis using zd [of r] oq ow by auto
    qed
  qed
  have "pools_ok s2 (Q @ [q])"
    using pth zs dj po(1) nq unfolding pools_ok_def by simp
  moreover have "pool_ok s2 r ((F(q := pool_blocks s2 q)) r) ((V(q := [])) r)" if "r \<in> set (Q @ [q])" for r
    using that old np nq by (auto simp: new_pool_def)
  ultimately show "slab_inv s2 (Q @ [q]) (F(q := pool_blocks s2 q)) (V(q := []))"
    using s2(5) by (simp add: slab_inv_def)
qed


section \<open>Allocation and release\<close>

definition used :: "addr list \<Rightarrow> (addr \<Rightarrow> addr list) \<Rightarrow> addr set" where
  "used Q V = (\<Union>q \<in> set Q. set (V q))"

lemma slab_liveI:
  "slab_inv s Q F V \<Longrightarrow> P = (\<lambda>b. b + 24) ` used Q V \<Longrightarrow> m_alloced_num s = of_nat (card P) \<Longrightarrow> slab_live P s"
  unfolding slab_live_def used_def by blast

lemma slab_liveE:
  assumes "slab_live P s"
  obtains Q F V where "slab_inv s Q F V" "P = (\<lambda>b. b + 24) ` used Q V" "m_alloced_num s = of_nat (card P)"
  using assms unfolding slab_live_def used_def by blast

lemma slab_live_finite: "slab_live P s \<Longrightarrow> finite P"
  by (auto simp: used_def elim!: slab_liveE)

lemma used_pool:
  assumes "slab_inv s Q F V" "q \<in> set Q" "r \<in> set Q" "b \<in> set (F q) \<union> set (V q)" "b \<in> set (V r)"
  shows "r = q"
proof (rule ccontr)
  assume "r \<noteq> q"
  then have "set (pool_blocks s q) \<inter> set (pool_blocks s r) = {}"
    using pool_blocks_disjoint [of s Q q r] assms by (simp add: slab_inv_def)
  moreover have "pool_ok s q (F q) (V q)" "pool_ok s r (F r) (V r)" using assms by (simp_all add: slab_inv_def)
  ultimately show False using assms(4,5) unfolding pool_ok_def by blast
qed

lemma used_remove:
  assumes inv: "slab_inv s Q F V" and q: "q \<in> set Q" and V: "V q = xs @ b # ys"
  shows "used Q (V(q := xs @ ys)) = used Q V - {b}"
proof (rule set_eqI)
  have "pool_ok s q (F q) (xs @ b # ys)" using inv q V by (metis slab_inv_def)
  then have d: "distinct (xs @ b # ys)" by (auto simp: pool_ok_def)
  have other: "b \<notin> set (V r)" if "r \<in> set Q" "r \<noteq> q" for r
    using used_pool [OF inv q that(1), of b] V that(2) by auto
  fix x
  have "x \<in> used Q (V(q := xs @ ys)) \<longleftrightarrow> x \<in> set (xs @ ys) \<or> (\<exists>r \<in> set Q. r \<noteq> q \<and> x \<in> set (V r))"
    using q by (auto simp: used_def split: if_splits)
  moreover have "x \<in> used Q V \<longleftrightarrow> x \<in> set (V q) \<or> (\<exists>r \<in> set Q. r \<noteq> q \<and> x \<in> set (V r))"
    using q by (auto simp: used_def)
  moreover have "x \<in> set (xs @ ys) \<longleftrightarrow> x \<in> set (V q) \<and> x \<noteq> b" using d V by auto
  moreover have "\<not> (\<exists>r \<in> set Q. r \<noteq> q \<and> b \<in> set (V r))" using other by blast
  ultimately show "x \<in> used Q (V(q := xs @ ys)) \<longleftrightarrow> x \<in> used Q V - {b}" by blast
qed

lemma take_live:
  assumes inv: "slab_inv s Q F V" and q: "q \<in> set Q" and F: "F q = b # fl"
    and P: "P = (\<lambda>b. b + 24) ` used Q V" "m_alloced_num s = of_nat (card P)"
  shows "b + 24 \<notin> P" "slab_live (insert (b + 24) P) (snd (take_block q b s))" "fst (take_block q b s) = b + 24"
proof -
  let ?s = "snd (take_block q b s)"
  have ok: "pool_ok s q (b # fl) (V q)" using inv q F by (metis slab_inv_def)
  have i: "slab_inv ?s Q (F(q := fl)) (V(q := b # V q))"
    by (rule slab_inv_update [OF inv q take_block_ok(2,1) [OF ok]])
  have nb: "b \<notin> set (V q)" using ok by (simp add: pool_ok_def)
  have "b \<notin> used Q V"
  proof
    assume "b \<in> used Q V"
    then obtain r where r: "r \<in> set Q" "b \<in> set (V r)" by (auto simp: used_def)
    then have "r = q" using used_pool [OF inv q r(1) _ r(2)] F by simp
    with r nb show False by simp
  qed
  then show nP: "b + 24 \<notin> P" unfolding P(1) by auto
  have "used Q (V(q := b # V q)) = insert b (used Q V)"
    using q by (auto simp: used_def split: if_splits)
  then have "insert (b + 24) P = (\<lambda>b. b + 24) ` used Q (V(q := b # V q))" unfolding P(1) by simp
  moreover have "finite P" unfolding P(1) by (simp add: used_def)
  then have "m_alloced_num ?s = of_nat (card (insert (b + 24) P))" using nP P(2) by (simp add: take_block_sel)
  ultimately show "slab_live (insert (b + 24) P) ?s" by (rule slab_liveI [OF i])
  show "fst (take_block q b s) = b + 24" using inv by (simp add: take_block_sel slab_inv_def slab_sized_def)
qed

text \<open>The limit of the second constructor, as \<^verbatim>\<open>mempool_alloc\<close> tests it.\<close>

definition at_limit :: "slab \<Rightarrow> bool" where
  "at_limit s \<longleftrightarrow> m_max_num s \<noteq> - 1 \<and> sint (m_max_num s) \<le> sint (m_alloced_num s)"

lemma slab_alloc_live:
  assumes live: "slab_live P s" and ml: "malloc_fresh ml"
  shows "\<exists>r s'. slab_alloc ml s = Some (r, s') \<and> (case r of
      None \<Rightarrow> s' = s \<and> (at_limit s \<or> ml (zones s) (m_poolsize s) = None)
    | Some p \<Rightarrow> \<not> at_limit s \<and> p \<notin> P \<and> slab_live (insert p P) s' \<and> m_mbsize s' = m_mbsize s \<and> m_max_num s' = m_max_num s)"
proof (cases "at_limit s")
  case True
  then show ?thesis by (simp add: slab_alloc_def mempool_alloc_def at_limit_def)
next
  case nl: False
  obtain Q F V where inv: "slab_inv s Q F V" and P: "P = (\<lambda>b. b + 24) ` used Q V" "m_alloced_num s = of_nat (card P)"
    using live by (rule slab_liveE)
  have po: "pools_ok s Q" "slab_sized s" using inv by (simp_all add: slab_inv_def)
  then obtain p0 where p0: "mp_mpool s = Some p0" "path (pnext s) (Some p0) Q"
    unfolding pools_ok_def by (cases Q) auto
  obtain r where r: "r \<in> set Q" "find_pool s p0 = Some r" "freehead s r \<noteq> None \<or> pnext s r = None \<and> r = last Q"
    using find_pool_spec [OF p0(2)] by blast
  have ok: "path (nxt s) (freehead s r) (F r)" using inv r(1) by (simp add: slab_inv_def pool_ok_def)
  show ?thesis
  proof (cases "freehead s r")
    case (Some b)
    then obtain fl where F: "F r = b # fl" using ok by (cases "F r") auto
    note t = take_live [OF inv r(1) F P]
    have "slab_alloc ml s = Some (Some (b + 24), snd (take_block r b s))"
      using nl p0(1) r(2) Some t(3) by (simp add: slab_alloc_def mempool_alloc_def at_limit_def case_prod_unfold)
    then show ?thesis using t nl by (simp add: take_block_sel)
  next
    case None
    then have lr: "pnext s r = None" "r = last Q" using r(3) by blast+
    show ?thesis
    proof (cases "ml (zones s) (m_poolsize s)")
      case n: None
      then have "creat_mempool ml (Some r) (m_poolsize s) s = (None, s)"
        using lr by (simp add: creat_mempool_def new_zone_def)
      then have "slab_alloc ml s = Some (None, s)"
        using nl p0(1) r(2) None lr by (simp add: slab_alloc_def mempool_alloc_def at_limit_def)
      then show ?thesis using n by simp
    next
      case (Some z)
      then obtain q s1 where c: "creat_mempool ml (Some r) (m_poolsize s) s = (Some q, s1)"
        using lr by (auto simp: creat_mempool_def new_zone_def Let_def)
      obtain s2 z' where i: "init_memblock q (m_mbsize s1) s1 = Some s2" and np: "new_pool q s s2"
        and z': "ml (zones s) (m_poolsize s) = Some z'" and s2: "zones s2 = (z', m_poolsize s) # zones s"
          "pnext s2 = (pnext s)(last Q := Some q, q := None)" "mp_mpool s2 = mp_mpool s"
          "q \<in> zone_set (z', m_poolsize s)" "slab_sized s2"
        using new_pool_created [OF po(2) c] lr(2) by (auto simp: linked_def)
      note g = slab_inv_grow [OF inv np ml z' s2]
      obtain b fl where b: "pool_blocks s2 q = b # fl" using np unfolding new_pool_def by (cases "pool_blocks s2 q") auto
      have fh: "freehead s2 q = Some b" using np b by (simp add: new_pool_def pool_ok_def)
      have "used (Q @ [q]) (V(q := [])) = used Q V" using g(2) by (auto simp: used_def split: if_splits)
      then have P': "P = (\<lambda>b. b + 24) ` used (Q @ [q]) (V(q := []))" using P(1) by simp
      have num: "m_alloced_num s2 = of_nat (card P)" using np P(2) by (simp add: new_pool_def)
      have "(F(q := pool_blocks s2 q)) q = b # fl" using b by simp
      note t = take_live [OF g(1) _ this P' num]
      have "slab_alloc ml s = Some (Some (b + 24), snd (take_block q b s2))"
        using nl p0(1) r(2) None lr c i fh t(3)
        by (simp add: slab_alloc_def mempool_alloc_def at_limit_def case_prod_unfold)
      then show ?thesis using t nl np by (simp add: take_block_sel new_pool_def)
    qed
  qed
qed

lemma slab_free_live:
  assumes live: "slab_live P s" and p: "p \<in> P"
  shows "slab_live (P - {p}) (slab_free p s)" "m_mbsize (slab_free p s) = m_mbsize s" "m_max_num (slab_free p s) = m_max_num s"
proof -
  obtain Q F V where inv: "slab_inv s Q F V" and P: "P = (\<lambda>b. b + 24) ` used Q V" "m_alloced_num s = of_nat (card P)"
    using live by (rule slab_liveE)
  obtain q b where b: "q \<in> set Q" "b \<in> set (V q)" "p = b + 24" using p unfolding P(1) used_def by blast
  obtain xs ys where V: "V q = xs @ b # ys" using split_list [OF b(2)] by blast
  have al: "m_alignedsize s = 24" using inv by (simp add: slab_inv_def slab_sized_def)
  have ok: "pool_ok s q (F q) (xs @ b # ys)" using inv b(1) V by (metis slab_inv_def)
  note f = slab_free_ok [OF al ok]
  have i: "slab_inv (slab_free p s) Q (F(q := b # F q)) (V(q := xs @ ys))"
    using slab_inv_update [OF inv b(1) f(2,1)] unfolding b(3) .
  have d: "distinct (xs @ b # ys)" using ok by (auto simp: pool_ok_def)
  have "used Q (V(q := xs @ ys)) = used Q V - {b}" by (rule used_remove [OF inv b(1) V])
  then have "P - {p} = (\<lambda>b. b + 24) ` used Q (V(q := xs @ ys))"
    unfolding P(1) b(3) by (simp add: image_set_diff)
  moreover have ne: "pre s b \<noteq> Some b"
  proof -
    have "pre s b = (if xs = [] then None else Some (last xs))"
      using ok backs_at [of "pre s" None xs b ys] by (simp add: pool_ok_def)
    moreover have "last xs \<noteq> b" if "xs \<noteq> []" using last_in_set [OF that] d by auto
    ultimately show ?thesis by simp
  qed
  have fin: "finite P" unfolding P(1) by (simp add: used_def)
  have c: "card P = Suc (card (P - {p}))" using fin p by (rule card.remove)
  then have "m_alloced_num (slab_free p s) = of_nat (card (P - {p}))"
    unfolding b(3) slab_free_sel(14) [OF al ne] P(2) by simp
  ultimately show "slab_live (P - {p}) (slab_free p s)" by (intro slab_liveI [OF i])
  show "m_mbsize (slab_free p s) = m_mbsize s" "m_max_num (slab_free p s) = m_max_num s"
    unfolding b(3) using slab_free_sel [OF al ne] by simp_all
qed

end
