(* ===== verification/Slab_Spec.thy ===== *)
theory Slab_Spec
  imports Slab_Proofs
begin

text \<open>
  The slab allocator as an implementation of the allocator contract, its limit, its construction,
  and the case in which a pool holds no block at all.
\<close>

section \<open>The contract\<close>

definition slab_foot :: "slab \<Rightarrow> addr \<Rightarrow> addr set" where
  "slab_foot s p = {p - 24 ..< p - 24 + unat (m_mbsize s)}"

lemma slab_foot_disjoint:
  assumes live: "slab_live P s" and "p \<in> P" "p' \<in> P" "p \<noteq> p'"
  shows "slab_foot s p \<inter> slab_foot s p' = {}"
proof -
  obtain Q F V where inv: "slab_inv s Q F V" and P: "P = (\<lambda>b. b + 24) ` used Q V" "m_alloced_num s = of_nat (card P)"
    using live by (rule slab_liveE)
  obtain q b where b: "q \<in> set Q" "b \<in> set (V q)" "p = b + 24" using assms(2) unfolding P(1) used_def by blast
  obtain r c where c: "r \<in> set Q" "c \<in> set (V r)" "p' = c + 24" using assms(3) unfolding P(1) used_def by blast
  have bl: "b \<in> set (pool_blocks s q)" "c \<in> set (pool_blocks s r)"
    using inv b c unfolding slab_inv_def pool_ok_def by blast+
  have "{b ..< b + unat (m_mbsize s)} \<inter> {c ..< c + unat (m_mbsize s)} = {}"
  proof (cases "q = r")
    case True
    then show ?thesis using bl assms(4) b(3) c(3) by (intro blks_apart) (auto simp: pool_blocks_def)
  next
    case False
    then have "own s q \<inter> own s r = {}" using inv b(1) c(1) unfolding slab_inv_def pools_ok_def by blast
    then show ?thesis using pool_blocks_own [OF bl(1)] pool_blocks_own [OF bl(2)] by blast
  qed
  then show ?thesis by (simp add: slab_foot_def b(3) c(3))
qed

text \<open>Blocks handed out lie in zones obtained from \<^verbatim>\<open>malloc\<close>.\<close>

lemma slab_foot_zone:
  assumes live: "slab_live P s" and p: "p \<in> P"
  shows "\<exists>z \<in> set (zones s). slab_foot s p \<subseteq> zone_set z"
proof -
  obtain Q F V where inv: "slab_inv s Q F V" and P: "P = (\<lambda>b. b + 24) ` used Q V" "m_alloced_num s = of_nat (card P)"
    using live by (rule slab_liveE)
  obtain q b where b: "q \<in> set Q" "b \<in> set (V q)" "p = b + 24" using p unfolding P(1) used_def by blast
  have bl: "b \<in> set (pool_blocks s q)" using inv b unfolding slab_inv_def pool_ok_def by blast
  obtain z where z: "z \<in> set (zones s)" "own s q \<subseteq> zone_set z" using inv b(1) unfolding slab_inv_def pools_ok_def by blast
  have "slab_foot s p \<subseteq> zone_set z" using pool_blocks_own [OF bl] z(2) by (simp add: slab_foot_def b(3) subset_trans)
  with z(1) show ?thesis by blast
qed

definition within_limit :: "32 word \<Rightarrow> 32 word \<Rightarrow> addr set \<Rightarrow> slab \<Rightarrow> bool" where
  "within_limit mb num P s \<longleftrightarrow> slab_live P s \<and> m_mbsize s = mb \<and> m_max_num s = num
     \<and> (num = - 1 \<or> int (card P) \<le> sint num)"

lemma sint_of_nat: "int k \<le> sint (w :: 32 word) \<Longrightarrow> sint (of_nat k :: 32 word) = int k"
proof -
  assume k: "int k \<le> sint w"
  have "sint w < 2 ^ 31" using sint_lt [of w] by simp
  then have "int k < 2 ^ 31" using k by linarith
  then have "signed_take_bit 31 (int k) = int k" by (intro signed_take_bit_int_eq_self) auto
  then show ?thesis by (simp add: signed_of_nat)
qed

lemma alloc_within:
  assumes w: "within_limit mb num P s" and ml: "malloc_fresh ml" and a: "slab_alloc ml s = Some (Some p, s')"
  shows "p \<notin> P" "within_limit mb num (insert p P) s'"
proof -
  have live: "slab_live P s" and f: "m_mbsize s = mb" "m_max_num s = num" "num = - 1 \<or> int (card P) \<le> sint num"
    using w by (simp_all add: within_limit_def)
  from slab_alloc_live [OF live ml] a
  have r: "\<not> at_limit s" "p \<notin> P" "slab_live (insert p P) s'" "m_mbsize s' = m_mbsize s" "m_max_num s' = m_max_num s"
    by auto
  have n: "m_alloced_num s = of_nat (card P)" using live by (rule slab_liveE)
  have "num = - 1 \<or> int (card (insert p P)) \<le> sint num"
  proof (cases "num = - 1")
    case False
    then have "sint (of_nat (card P) :: 32 word) = int (card P)" using f(3) sint_of_nat by blast
    then have "int (card P) < sint num" using False r(1) f(2) n by (simp add: at_limit_def)
    then show ?thesis using r(2) slab_live_finite [OF live] by simp
  qed simp
  then show "p \<notin> P" "within_limit mb num (insert p P) s'" using r f by (simp_all add: within_limit_def)
qed

lemma free_within:
  assumes "within_limit mb num P s" "p \<in> P"
  shows "within_limit mb num (P - {p}) (slab_free p s)"
proof -
  have "card (P - {p}) \<le> card P" by (rule card_Diff1_le)
  then show ?thesis using assms slab_free_live [of P s p] by (auto simp: within_limit_def)
qed

lemma slab_allocator:
  assumes ml: "malloc_fresh ml"
  shows "allocator (\<lambda>(_ :: unit) s. the (slab_alloc ml s)) slab_free (within_limit mb num) slab_foot"
proof
  fix P s r p s' q
  assume w: "within_limit mb num P s"
  have live: "slab_live P s" using w by (simp add: within_limit_def)
  have total: "\<exists>x. slab_alloc ml s = Some x" using slab_alloc_live [OF live ml] by blast
  show "p \<notin> P \<and> within_limit mb num (insert p P) s'" if "the (slab_alloc ml s) = (Some p, s')"
    using alloc_within [OF w ml] total that by auto
  show "slab_foot s' q = slab_foot s q" if "the (slab_alloc ml s) = (Some p, s')" "q \<in> P"
    using alloc_within(2) [OF w ml] total that w by (auto simp: within_limit_def slab_foot_def)
  show "within_limit mb num P s' \<and> (\<forall>q \<in> P. slab_foot s' q = slab_foot s q)" if "the (slab_alloc ml s) = (None, s')"
    using slab_alloc_live [OF live ml] total that w by auto
  show "slab_foot (slab_free p s) q = slab_foot s q" if "p \<in> P"
    using slab_free_live [OF live that] by (simp add: slab_foot_def)
  show "within_limit mb num (P - {p}) (slab_free p s)" if "p \<in> P" by (rule free_within [OF w that])
  show "slab_foot s p \<inter> slab_foot s q = {}" if "p \<in> P" "q \<in> P" "p \<noteq> q" by (rule slab_foot_disjoint [OF live that])
qed


section \<open>Construction\<close>

lemma creat_mempool_root: "creat_mempool ml None l (s\<lparr>mp_mpool := v\<rparr>) = map_prod id (\<lambda>s. s\<lparr>mp_mpool := v\<rparr>) (creat_mempool ml None l s)"
  by (auto simp: creat_mempool_def new_zone_def Let_def split: option.splits cong: if_cong)

lemma first_pool_inv:
  assumes np: "new_pool q s s2" and s2: "zones s2 = (z, l) # zones s" "pnext s2 q = None" "mp_mpool s2 = Some q" "slab_sized s2"
  shows "slab_inv s2 [q] (\<lambda>_. pool_blocks s2 q) (\<lambda>_. [])"
proof -
  have "pools_ok s2 [q]" using np s2 by (auto simp: pools_ok_def new_pool_def)
  then show ?thesis using np s2(4) by (simp add: slab_inv_def new_pool_def)
qed

text \<open>
  The sizes: the pool must hold its header, the offset of the alignment and one block.
\<close>

lemma pure_slab_live:
  assumes fits: "unat block_size + 126 \<le> unat pool_size" "unat pool_size + 4095 < 2 ^ 32"
    and num: "num = - 1 \<or> 0 \<le> sint num"
  shows "\<exists>s mb. pure_slab ml heap block_size pool_size num = Some s \<and> unat block_size + 24 \<le> unat mb
    \<and> (mp_mpool s \<noteq> None \<longrightarrow> within_limit mb num {} s)
    \<and> (mp_mpool s = None \<longleftrightarrow> ml (zones heap) (pure_align_u32 pool_size 4096) = None)"
proof -
  let ?mb = "pure_align_u32 block_size 8 + 24" and ?l = "pure_align_u32 pool_size 4096"
  let ?s = "heap\<lparr>m_max_num := num, m_alloced_num := 0, m_alignedsize := 24, m_mbsize := ?mb, m_poolsize := ?l, mp_mpool := None\<rparr>"
  have a: "pure_align_u32 sizeof_memblock 8 = 24" by (simp add: pure_align_u32_def sizeof_memblock_def)
  have "unat (pure_align_u32 block_size 8) = (unat block_size + (8 - 1)) div 8 * 8"
    using unat_pure_align [of block_size 3] fits by simp
  then have b: "unat block_size \<le> unat (pure_align_u32 block_size 8)" "unat (pure_align_u32 block_size 8) < unat block_size + 8"
    using round_up_bounds [of 8 "unat block_size"] by simp_all
  then have mb: "unat ?mb = unat (pure_align_u32 block_size 8) + 24"
    using fits by (simp add: unat_word_ariths(1))
  have "unat ?l = (unat pool_size + (4096 - 1)) div 4096 * 4096"
    using unat_pure_align [of pool_size 12] fits(2) by simp
  then have l: "unat pool_size \<le> unat ?l" using round_up_bounds(1) [of 4096 "unat pool_size"] by simp
  have sz: "slab_sized ?s" using mb b l fits(1) by (simp add: slab_sized_def)
  have ge: "unat block_size + 24 \<le> unat ?mb" using mb b by simp
  obtain qo s1 where c: "creat_mempool ml None ?l ?s = (qo, s1)" by fastforce
  show ?thesis
  proof (cases qo)
    case None
    then have n: "ml (zones heap) ?l = None" "s1 = ?s"
      using c by (auto simp: creat_mempool_def new_zone_def Let_def split: option.splits)
    have "pure_slab ml heap block_size pool_size num = Some (s1\<lparr>mp_mpool := None\<rparr>)"
      using c None by (simp add: pure_slab_def a Let_def)
    then show ?thesis using ge n by auto
  next
    case (Some q)
    let ?t = "?s\<lparr>mp_mpool := Some q\<rparr>" and ?t1 = "s1\<lparr>mp_mpool := Some q\<rparr>"
    have c': "creat_mempool ml None (m_poolsize ?t) ?t = (Some q, ?t1)"
      using c Some unfolding creat_mempool_root by simp
    have m1: "m_mbsize s1 = ?mb" using c Some by (auto simp: creat_mempool_def new_zone_def Let_def split: option.splits)
    have "slab_sized ?t" using sz by (simp add: slab_sized_def)
    from new_pool_created [OF this c'] obtain s2 z where s2: "init_memblock q (m_mbsize ?t1) ?t1 = Some s2"
      "new_pool q ?t s2" "ml (zones ?t) ?l = Some z" "zones s2 = (z, ?l) # zones ?t" "pnext s2 = linked None q ?t"
      "mp_mpool s2 = Some q" "slab_sized s2" by auto
    have run: "pure_slab ml heap block_size pool_size num = Some s2"
      using c Some s2(1) m1 by (simp add: pure_slab_def a Let_def)
    have "pnext s2 q = None" by (simp add: s2(5) linked_def)
    from first_pool_inv [OF s2(2,4) this s2(6,7)] have "slab_live {} s2"
      using s2(2) by (intro slab_liveI) (auto simp: used_def new_pool_def)
    then have "within_limit ?mb num {} s2" using s2(2) num by (simp add: within_limit_def new_pool_def)
    then show ?thesis using run ge s2(3,6) by auto
  qed
qed

section \<open>Properties\<close>

text \<open>
  A \<^verbatim>\<open>malloc\<close> that never reuses memory: each zone starts behind all zones in use.
\<close>

definition bump_malloc :: malloc where
  "bump_malloc zs l = Some (64 * (sum_list (map (\<lambda>z. fst z + unat (snd z)) zs) + 1))"

lemma bump_malloc_fresh: "malloc_fresh bump_malloc"
proof -
  have "fst y + unat (snd y) \<le> sum_list (map (\<lambda>z. fst z + unat (snd z)) zs)" if "y \<in> set zs" for y and zs :: "zone list"
    by (rule member_le_sum_list) (use that in auto)
  then show ?thesis by (fastforce simp: malloc_fresh_def bump_malloc_def zone_set_def)
qed

definition empty_heap :: slab where
  "empty_heap = \<lparr>pre = (\<lambda>_. None), nxt = (\<lambda>_. None), mp = (\<lambda>_. 0), pnext = (\<lambda>_. None), usedhead = (\<lambda>_. None),
     freehead = (\<lambda>_. None), plength = (\<lambda>_. 0), off_t = (\<lambda>_. 0), mp_mpool = None, m_max_num = 0, m_alloced_num = 0,
     m_mbsize = 0, m_poolsize = 0, m_alignedsize = 0, zones = []\<rparr>"

text \<open>
  C31. one allocation. \<^verbatim>\<open>slab_alloc\<close> follows no null pointer and returns; the result is \<^verbatim>\<open>NULL\<close>, with
  nothing changed, only at the limit or when \<^verbatim>\<open>malloc\<close> fails, and else a new block in a zone of
  \<^verbatim>\<open>malloc\<close> that overlaps no block handed out.
\<close>

theorem slab_alloc_sound:
  assumes "slab_live P s" "malloc_fresh ml"
  shows "\<exists>r s'. slab_alloc ml s = Some (r, s') \<and> (case r of
      None \<Rightarrow> s' = s \<and> (at_limit s \<or> ml (zones s) (m_poolsize s) = None)
    | Some p \<Rightarrow> \<not> at_limit s \<and> p \<notin> P \<and> slab_live (insert p P) s' \<and> (\<exists>z \<in> set (zones s'). slab_foot s' p \<subseteq> zone_set z)
        \<and> (\<forall>q \<in> P. slab_foot s' q = slab_foot s q \<and> slab_foot s' p \<inter> slab_foot s' q = {}))"
proof -
  from slab_alloc_live [OF assms] obtain r s' where r: "slab_alloc ml s = Some (r, s')" and c: "case r of
      None \<Rightarrow> s' = s \<and> (at_limit s \<or> ml (zones s) (m_poolsize s) = None)
    | Some p \<Rightarrow> \<not> at_limit s \<and> p \<notin> P \<and> slab_live (insert p P) s' \<and> m_mbsize s' = m_mbsize s \<and> m_max_num s' = m_max_num s" by blast
  show ?thesis
  proof (cases r)
    case None
    then show ?thesis using r c by simp
  next
    case (Some p)
    then have l: "slab_live (insert p P) s'" and o: "\<not> at_limit s" "p \<notin> P" "m_mbsize s' = m_mbsize s" using c by simp_all
    have "slab_foot s' p \<inter> slab_foot s' q = {}" if "q \<in> P" for q
      by (rule slab_foot_disjoint [OF l]) (use that o(2) in auto)
    then show ?thesis using r Some l o slab_foot_zone [OF l, of p] by (simp add: slab_foot_def)
  qed
qed

theorem slab_alloc_sound_witness:
  "\<exists>s p s'. pure_slab bump_malloc empty_heap 1000 4096 (- 1) = Some s \<and> slab_alloc bump_malloc s = Some (Some p, s')
    \<and> slab_live {p} s'"
proof -
  obtain s mb where s: "pure_slab bump_malloc empty_heap 1000 4096 (- 1) = Some s"
    "mp_mpool s \<noteq> None \<longrightarrow> within_limit mb (- 1) {} s" "mp_mpool s \<noteq> None"
    using pure_slab_live [of 1000 4096 "- 1" bump_malloc empty_heap] by (auto simp: bump_malloc_def)
  then have "slab_live {} s" "\<not> at_limit s" by (auto simp: within_limit_def at_limit_def)
  with slab_alloc_sound [OF this(1) bump_malloc_fresh] show ?thesis
    using s(1) by (auto simp: bump_malloc_def split: option.splits)
qed

text \<open>
  C32. whole histories. A slab built with room for at least one block per pool never hands out
  overlapping blocks, every block has room for the object, and with a limit no more blocks than
  the limit are out at any time.
\<close>

theorem slab_history:
  assumes "malloc_fresh ml" "unat block_size + 126 \<le> unat pool_size" "unat pool_size + 4095 < 2 ^ 32"
    "num = - 1 \<or> 0 \<le> sint num"
    "pure_slab ml heap block_size pool_size num = Some s" "mp_mpool s \<noteq> None"
    "run_calls (\<lambda>(_ :: unit) s. the (slab_alloc ml s)) slab_free cs {} s = (P, s')"
  shows "(num = - 1 \<or> int (card P) \<le> sint num) \<and> (\<forall>p \<in> P. {p ..< p + unat block_size} \<subseteq> slab_foot s' p
    \<and> (\<exists>z \<in> set (zones s'). slab_foot s' p \<subseteq> zone_set z)
    \<and> (\<forall>q \<in> P. p \<noteq> q \<longrightarrow> slab_foot s' p \<inter> slab_foot s' q = {}))"
proof -
  obtain mb where w: "within_limit mb num {} s" and mb: "unat block_size + 24 \<le> unat mb"
    using pure_slab_live [OF assms(2-4), of ml heap] assms(5,6) by auto
  have w': "within_limit mb num P s'"
    using allocator.run_live [OF slab_allocator [OF assms(1)] w, of cs] assms(7) by simp
  then have live: "slab_live P s'" and f: "m_mbsize s' = mb" "num = - 1 \<or> int (card P) \<le> sint num"
    by (simp_all add: within_limit_def)
  have "{p ..< p + unat block_size} \<subseteq> slab_foot s' p" if "p \<in> P" for p
  proof -
    have "24 \<le> p" using live that by (auto elim!: slab_liveE)
    then show ?thesis using mb f(1) by (auto simp: slab_foot_def)
  qed
  then show ?thesis using f(2) slab_foot_zone [OF live] slab_foot_disjoint [OF live] by blast
qed


theorem slab_history_witness:
  "\<exists>s P s'. pure_slab bump_malloc empty_heap 1000 4096 2 = Some s
    \<and> run_calls (\<lambda>(_ :: unit) s. the (slab_alloc bump_malloc s)) slab_free [Request (), Request (), Request ()] {} s = (P, s')
    \<and> card P \<le> 2"
proof -
  obtain s mb where s: "pure_slab bump_malloc empty_heap 1000 4096 2 = Some s" "mp_mpool s \<noteq> None"
    using pure_slab_live [of 1000 4096 2 bump_malloc empty_heap] by (auto simp: bump_malloc_def)
  obtain P s' where r: "run_calls (\<lambda>(_ :: unit) s. the (slab_alloc bump_malloc s)) slab_free
      [Request (), Request (), Request ()] {} s = (P, s')" by fastforce
  with slab_history [OF bump_malloc_fresh _ _ _ s r] show ?thesis using s(1) by simp
qed

text \<open>
  a block that does not fit. With objects of 4072 bytes and pools of 4096 no block fits behind
  the header of a pool, yet \<^verbatim>\<open>init_memblock\<close> sets \<^verbatim>\<open>freehead\<close>, and the object handed out ends behind
  the zone.
\<close>

theorem slab_overrun:
  assumes "ml (zones heap) 4096 = Some z" "64 dvd z"
  shows "\<exists>s s'. pure_slab ml heap 4072 4096 (- 1) = Some s \<and> slab_alloc ml s = Some (Some (z + 56), s')
    \<and> zones s' = (z, 4096) # zones heap \<and> \<not> {z + 56 ..< z + 56 + 4072} \<subseteq> zone_set (z, 4096)"
proof -
  have al: "pure_align_u32 4072 8 = 4072" "pure_align_u32 4096 4096 = 4096" "pure_align_u32 sizeof_memblock 8 = 24"
    "pure_align_u32 sizeof_mempool 8 = 32" by code_simp+
  have zq: "align_ptr z 64 = z"
  proof -
    obtain k where "z = 64 * k" using assms(2) by (elim dvdE)
    then show ?thesis by (simp add: align_ptr_def)
  qed
  have loop: "init_memblock_loop z 4096 pos 32 None s = Some s" if "plength s z = 4096" for s pos
    using that by (subst init_memblock_loop.simps) simp
  obtain s where s: "pure_slab ml heap 4072 4096 (- 1) = Some s" "mp_mpool s = Some z" "pnext s z = None"
    "freehead s z = Some (z + 32)" "m_max_num s = - 1" "m_alignedsize s = 24" "zones s = (z, 4096) # zones heap"
    using assms(1) by (simp add: pure_slab_def al Let_def creat_mempool_def new_zone_def zq init_memblock_def loop)
  have "find_pool s z = Some z" using s(3) by (subst find_pool.simps) simp
  then have "slab_alloc ml s = Some (Some (z + 56), snd (take_block z (z + 32) s))"
    using s by (simp add: slab_alloc_def mempool_alloc_def case_prod_unfold take_block_sel)
  moreover have "z + 4100 \<in> {z + 56 ..< z + 56 + 4072}" "z + 4100 \<notin> zone_set (z, 4096)" by (simp_all add: zone_set_def)
  then have "\<not> {z + 56 ..< z + 56 + 4072} \<subseteq> zone_set (z, 4096)" by blast
  ultimately show ?thesis
    using s(1,7) by (intro exI [of _ s] exI [of _ "snd (take_block z (z + 32) s)"]) (simp add: take_block_sel)
qed

theorem slab_overrun_witness:
  "\<exists>s s'. pure_slab bump_malloc empty_heap 4072 4096 (- 1) = Some s \<and> slab_alloc bump_malloc s = Some (Some 120, s')"
  using slab_overrun [of bump_malloc empty_heap 64] by (auto simp: bump_malloc_def empty_heap_def)

end
