(* ===== verification/Buddy.thy ===== *)
theory Buddy
  imports Prelude Allocator
begin

text \<open>
  The buddy allocator of \<^verbatim>\<open>src/src/mem_pool/pure_buddy_mem.cpp\<close>. Block addresses are counted in
  units of \<^verbatim>\<open>MIN_BLOCK_SIZE\<close> from \<^verbatim>\<open>block_start\<close>, data pointers in bytes from it; a free list is the
  list of its blocks from the head; the bitmap of an order has one bit for each pair of buddies; the
  field \<^verbatim>\<open>free_area\<close> of a block header is the order of that area. Locking is left out: each operation
  is modelled as one thread runs it.
\<close>

section \<open>Data\<close>

definition MIN_BLOCK_SIZE :: nat where "MIN_BLOCK_SIZE = 64"
definition MIN_BLOCK_SIZE_EXP :: nat where "MIN_BLOCK_SIZE_EXP = 6"
definition CACHE_LINE_SIZE :: nat where "CACHE_LINE_SIZE = 64"
definition ALIGNMENT :: nat where "ALIGNMENT = 8"
definition MAX_ORDER :: nat where "MAX_ORDER = 9"

lemmas buddy_consts [simp] = MIN_BLOCK_SIZE_def MIN_BLOCK_SIZE_EXP_def CACHE_LINE_SIZE_def ALIGNMENT_def MAX_ORDER_def

record buddy =
  freelist :: "nat \<Rightarrow> nat list"
  pbmap :: "nat \<Rightarrow> nat \<Rightarrow> bool"
  free_area :: "nat \<Rightarrow> nat"

unbundle bit_operations_syntax

text \<open>On x86-64 \<^verbatim>\<open>sizeof(b_block)\<close> is 24 and \<^verbatim>\<open>sizeof(free_area)\<close> is 56.\<close>

definition align_block_size :: "32 word" where
  "align_block_size = pure_align_u32 24 8"

definition align_area_size :: "int \<Rightarrow> 32 word" where
  "align_area_size remain_len = pure_align_u32 (56 + word_of_int ((remain_len div 64 + 15) div 16)) 64"

section \<open>Operations\<close>

text \<open>The bit is toggled, and its new value returned.\<close>

definition set_bitmap :: "nat \<Rightarrow> nat \<Rightarrow> buddy \<Rightarrow> bool \<times> buddy" where
  "set_bitmap index order s =
     (let k = index div 2 ^ (order + 1); v = \<not> pbmap s order k in
      (v, s\<lparr>pbmap := (pbmap s)(order := (pbmap s order)(k := v))\<rparr>))"

definition add_block :: "nat \<Rightarrow> nat \<Rightarrow> buddy \<Rightarrow> buddy" where
  "add_block b order s =
     s\<lparr>freelist := (freelist s)(order := b # freelist s order), free_area := (free_area s)(b := order)\<rparr>"

text \<open>\<^verbatim>\<open>del_block\<close> searches the list and unlinks the block; -1 when it is not there.\<close>

definition del_block :: "nat \<Rightarrow> nat \<Rightarrow> buddy \<Rightarrow> int \<times> buddy" where
  "del_block b order s =
     (if b \<in> set (freelist s order)
      then (0, s\<lparr>freelist := (freelist s)(order := remove1 b (freelist s order))\<rparr>) else (-1, s))"

text \<open>The greedy filling of \<^verbatim>\<open>init_free\<close>: \<open>n\<close> units are left and the next block starts at unit \<open>pos\<close>.\<close>

function fill_order :: "nat \<Rightarrow> nat \<Rightarrow> nat \<Rightarrow> buddy \<Rightarrow> nat \<times> nat \<times> buddy" where
  "fill_order order n pos s =
     (if 2 ^ order \<le> n
      then fill_order order (n - 2 ^ order) (pos + 2 ^ order) (snd (set_bitmap pos order (add_block pos order s)))
      else (n, pos, s))"
  by pat_completeness auto
termination
proof (relation "measure (\<lambda>(order, n, pos, s). n)", goal_cases)
  case (2 order n pos s)
  have pos: "(0 :: nat) < 2 ^ order" by simp
  with 2 have "0 < n" by (rule order.strict_trans2 [rotated])
  with pos show ?case by (simp add: diff_less)
qed simp

declare fill_order.simps [simp del]

fun fill_orders :: "nat \<Rightarrow> nat \<Rightarrow> nat \<Rightarrow> buddy \<Rightarrow> buddy" where
  "fill_orders 0 n pos s = (case fill_order 0 n pos s of (n', pos', s') \<Rightarrow> s')"
| "fill_orders (Suc order) n pos s =
     (case fill_order (Suc order) n pos s of (n', pos', s') \<Rightarrow> fill_orders order n' pos' s')"

definition init_free :: "int \<Rightarrow> (int \<times> buddy) option" where
  "init_free remain_len =
     (let a = align_area_size remain_len in
      if uint (a * 10) > uint (word_of_int remain_len :: 32 word) then None
      else let rest = remain_len - int (unat (a * 10)) in
        Some (rest, fill_orders MAX_ORDER (nat rest div MIN_BLOCK_SIZE) 0
          \<lparr>freelist = (\<lambda>_. []), pbmap = (\<lambda>_ _. False), free_area = (\<lambda>_. 0)\<rparr>))"

text \<open>
  \<^verbatim>\<open>init_buddy_mem\<close> on a buffer of \<open>l\<close> bytes at address \<open>b\<close>: the header, \<^verbatim>\<open>sizeof(mem)\<close> = 32 bytes
  on a cache line of its own, then the areas and the blocks. \<^verbatim>\<open>remain_len\<close> is a signed 32-bit field.
\<close>

definition pure_align_ptr :: "64 word \<Rightarrow> 64 word \<Rightarrow> 64 word" where
  "pure_align_ptr p a = (p + (a - 1)) AND NOT (a - 1)"

definition init_buddy_mem :: "64 word \<Rightarrow> 32 word \<Rightarrow> (int \<times> buddy) option" where
  "init_buddy_mem b l =
     (let pm = pure_align_ptr b 64 in
      if unat l < 32 then None
      else let free_start = pure_align_ptr (pm + 32) 64;
               remain_len = sint (word_of_int (int (unat l) - uint (pm - b) - uint (free_start - pm)) :: 32 word)
           in if remain_len < int MIN_BLOCK_SIZE then None else init_free remain_len)"

text \<open>\<^verbatim>\<open>bsr\<close>: the position of the highest bit that is set.\<close>

definition bsr :: "32 word \<Rightarrow> nat" where
  "bsr i = last (filter (bit i) [0..<32])"

definition alloc_order :: "32 word \<Rightarrow> nat" where
  "alloc_order l =
     (let tlen = l + align_block_size; i = drop_bit MIN_BLOCK_SIZE_EXP (push_bit 2 tlen - 1)
      in if i > 0 then bsr i else 0)"

text \<open>The halves of a larger block go to the lists of the smaller orders.\<close>

fun degrade :: "nat \<Rightarrow> nat \<Rightarrow> nat \<Rightarrow> buddy \<Rightarrow> buddy" where
  "degrade bitp 0 pb s = s"
| "degrade bitp (Suc dorder) pb s =
     (if bitp \<le> dorder
      then degrade bitp dorder pb
             (snd (set_bitmap (pb + 2 ^ dorder) dorder (add_block (pb + 2 ^ dorder) dorder s)))
      else s)"

fun alloc_from :: "nat \<Rightarrow> nat list \<Rightarrow> buddy \<Rightarrow> nat option \<times> buddy" where
  "alloc_from bitp [] s = (None, s)"
| "alloc_from bitp (order # orders) s =
     (case freelist s order of
        [] \<Rightarrow> alloc_from bitp orders s
      | pb # rest \<Rightarrow>
          let s1 = snd (set_bitmap pb order (s\<lparr>freelist := (freelist s)(order := rest)\<rparr>));
              s2 = degrade bitp order pb s1
          in (Some pb, s2\<lparr>free_area := (free_area s2)(pb := bitp)\<rparr>))"

definition Alloc :: "32 word \<Rightarrow> buddy \<Rightarrow> nat option \<times> buddy" where
  "Alloc l s =
     (let bitp = alloc_order l in
      if bitp > MAX_ORDER then (None, s)
      else case alloc_from bitp [bitp..<Suc MAX_ORDER] s of
             (None, s') \<Rightarrow> (None, s')
           | (Some pb, s') \<Rightarrow> (Some (MIN_BLOCK_SIZE * pb + unat align_block_size), s'))"

text \<open>
  \<^verbatim>\<open>Free\<close> from the area of the given order upwards: \<open>left\<close> areas remain below \<^verbatim>\<open>block_start\<close>.
\<close>

fun free_loop :: "nat \<Rightarrow> nat \<Rightarrow> nat \<Rightarrow> nat \<Rightarrow> buddy \<Rightarrow> buddy" where
  "free_loop 0 order index free_block s = s"
| "free_loop (Suc left) order index free_block s =
     (let buddy_index = ((index div 2 ^ order) XOR 1) * 2 ^ order;
          upgrade_index = index div 2 ^ (order + 1) * 2 ^ (order + 1)
      in case set_bitmap index order s of (r, s1) \<Rightarrow>
        if \<not> r \<and> order < MAX_ORDER
        then free_loop left (Suc order) index upgrade_index (snd (del_block buddy_index order s1))
        else let s2 = add_block free_block order s1 in
          if \<not> r then free_loop left (Suc order) index free_block s2 else s2)"

definition Free :: "nat \<Rightarrow> buddy \<Rightarrow> buddy" where
  "Free p s =
     (let index = (p - unat align_block_size) div MIN_BLOCK_SIZE; order = free_area s index in
      free_loop (Suc MAX_ORDER - order) order index index s)"

section \<open>The invariant\<close>

text \<open>A block is an order and the unit it starts at.\<close>

type_synonym block = "nat \<times> nat"

definition units :: "block \<Rightarrow> nat set" where
  "units b = {snd b ..< snd b + 2 ^ fst b}"

definition free_blocks :: "buddy \<Rightarrow> block set" where
  "free_blocks s = {(k, i). k \<le> MAX_ORDER \<and> i \<in> set (freelist s k)}"

text \<open>The blocks \<open>B\<close> tile the units from 0 to \<open>U - 1\<close>, each at a multiple of its size.\<close>

definition tiles :: "nat \<Rightarrow> block set \<Rightarrow> bool" where
  "tiles U B \<longleftrightarrow> (\<forall>b \<in> B. fst b \<le> MAX_ORDER \<and> 2 ^ fst b dvd snd b)
     \<and> pairwise (\<lambda>b c. disjnt (units b) (units c)) B
     \<and> (\<Union>b \<in> B. units b) = {0..<U}"

text \<open>
  The blocks in the free lists and the allocated blocks \<open>A\<close> tile the memory, no block is in two
  lists, and each bit says whether exactly one of the two buddies is free.
\<close>

definition binv :: "nat \<Rightarrow> block set \<Rightarrow> buddy \<Rightarrow> bool" where
  "binv U A s \<longleftrightarrow> tiles U (A \<union> free_blocks s) \<and> A \<inter> free_blocks s = {}
     \<and> (\<forall>k \<le> MAX_ORDER. distinct (freelist s k))
     \<and> (\<forall>k \<le> MAX_ORDER. \<forall>j. pbmap s k j
          = ((2 * j * 2 ^ k \<in> set (freelist s k)) \<noteq> ((2 * j + 1) * 2 ^ k \<in> set (freelist s k))))"

lemma free_blocks_iff [simp]: "(k, i) \<in> free_blocks s \<longleftrightarrow> k \<le> MAX_ORDER \<and> i \<in> set (freelist s k)"
  by (simp add: free_blocks_def)

text \<open>A start that is a multiple of the size is one of the two of its pair.\<close>

lemma pair_cases:
  fixes i :: nat
  assumes "2 ^ k dvd i"
  shows "i = 2 * (i div 2 ^ (k + 1)) * 2 ^ k \<or> i = (2 * (i div 2 ^ (k + 1)) + 1) * 2 ^ k"
proof -
  obtain m where m: "i = 2 ^ k * m" using assms by (elim dvdE)
  have d: "i div 2 ^ (k + 1) = m div 2" by (simp add: m)
  have "m = 2 * (m div 2) \<or> m = 2 * (m div 2) + 1" by presburger
  then show ?thesis
  proof
    assume "m = 2 * (m div 2)"
    then have "i = 2 * (m div 2) * 2 ^ k" using m by (metis mult.commute)
    then show ?thesis unfolding d ..
  next
    assume "m = 2 * (m div 2) + 1"
    then have "i = (2 * (m div 2) + 1) * 2 ^ k" using m by (metis mult.commute)
    then show ?thesis unfolding d ..
  qed
qed

lemma pair_div [simp]:
  fixes j :: nat
  shows "2 * j * 2 ^ k div 2 ^ (k + 1) = j" "(2 * j + 1) * 2 ^ k div 2 ^ (k + 1) = j"
proof -
  have "2 * j * 2 ^ k = j * 2 ^ (k + 1)" by simp
  then show "2 * j * 2 ^ k div 2 ^ (k + 1) = j" by simp
  have "(2 * j + 1) * 2 ^ k = j * 2 ^ (k + 1) + 2 ^ k" by (simp add: algebra_simps)
  moreover have "(2 :: nat) ^ k < 2 ^ (k + 1)" by simp
  ultimately show "(2 * j + 1) * 2 ^ k div 2 ^ (k + 1) = j"
    by (metis add.right_neutral div_less div_mult_self3 power_eq_0_iff zero_neq_numeral)
qed

text \<open>Putting a block into a list, or taking it out, toggles its bit.\<close>

lemma bits_toggle:
  fixes F :: "nat set"
  assumes bits: "\<forall>j. bm j = ((2 * j * 2 ^ k \<in> F) \<noteq> ((2 * j + 1) * 2 ^ k \<in> F))"
    and i: "2 ^ k dvd i" and F': "\<And>x. x \<in> F' \<longleftrightarrow> (if x = i then i \<notin> F else x \<in> F)"
  shows "(bm(i div 2 ^ (k + 1) := \<not> bm (i div 2 ^ (k + 1)))) j
    = ((2 * j * 2 ^ k \<in> F') \<noteq> ((2 * j + 1) * 2 ^ k \<in> F'))"
proof (cases "j = i div 2 ^ (k + 1)")
  case True
  have "2 * j * 2 ^ k \<noteq> (2 * j + 1) * (2 :: nat) ^ k" by simp
  then show ?thesis
    using pair_cases [OF i] bits True F' by auto
next
  case False
  then have "2 * j * 2 ^ k \<noteq> i" "(2 * j + 1) * 2 ^ k \<noteq> i" using pair_div [of j k] by metis+
  then show ?thesis using bits False F' by simp
qed

lemma tilesD:
  assumes "tiles U B" "(k, i) \<in> B"
  shows "k \<le> MAX_ORDER" "2 ^ k dvd i"
proof -
  have "fst (k, i) \<le> MAX_ORDER \<and> 2 ^ fst (k, i) dvd snd (k, i)"
    using assms unfolding tiles_def by blast
  then show "k \<le> MAX_ORDER" "2 ^ k dvd i" by simp_all
qed

lemma set_bitmap_sel [simp]:
  "freelist (snd (set_bitmap i k s)) = freelist s" "free_area (snd (set_bitmap i k s)) = free_area s"
  "pbmap (snd (set_bitmap i k s)) k' = (if k' = k
     then (pbmap s k)(i div 2 ^ (k + 1) := \<not> pbmap s k (i div 2 ^ (k + 1))) else pbmap s k')"
  "fst (set_bitmap i k s) = (\<not> pbmap s k (i div 2 ^ (k + 1)))"
  by (simp_all add: set_bitmap_def Let_def)

text \<open>A block changes sides: from its free list to the allocated blocks or back.\<close>

lemma binv_flip:
  assumes inv: "binv U A s" and k: "k \<le> MAX_ORDER" and b: "(k, i) \<in> A \<union> free_blocks s"
    and fl: "freelist s' k = L" "\<forall>k'. k' \<noteq> k \<longrightarrow> freelist s' k' = freelist s k'"
    and L: "distinct L" "\<And>x. x \<in> set L \<longleftrightarrow> (if x = i then i \<notin> set (freelist s k) else x \<in> set (freelist s k))"
    and bm: "\<And>k'. pbmap s' k' = (if k' = k
       then (pbmap s k)(i div 2 ^ (k + 1) := \<not> pbmap s k (i div 2 ^ (k + 1))) else pbmap s k')"
    and A': "A' = (if i \<in> set (freelist s k) then insert (k, i) A else A - {(k, i)})"
  shows "binv U A' s'"
proof -
  have al: "2 ^ k dvd i" using inv b tilesD(2) by (metis binv_def)
  have fb: "free_blocks s' = (if i \<in> set (freelist s k) then free_blocks s - {(k, i)} else insert (k, i) (free_blocks s))"
  proof (intro set_eqI)
    fix x :: block
    obtain k' x' where x: "x = (k', x')" by (cases x)
    show "x \<in> free_blocks s' \<longleftrightarrow> x \<in> (if i \<in> set (freelist s k) then free_blocks s - {(k, i)}
        else insert (k, i) (free_blocks s))"
      using fl L(2) [of x'] k by (cases "k' = k") (auto simp: x)
  qed
  have "A' \<union> free_blocks s' = A \<union> free_blocks s" "A' \<inter> free_blocks s' = {}"
    using inv b k unfolding fb A' binv_def by (auto split: if_splits)
  moreover have "distinct (freelist s' k')" if "k' \<le> MAX_ORDER" for k'
    using inv that fl L(1) unfolding binv_def by (cases "k' = k") auto
  moreover have "pbmap s' k' j = ((2 * j * 2 ^ k' \<in> set (freelist s' k')) \<noteq> ((2 * j + 1) * 2 ^ k' \<in> set (freelist s' k')))"
    if "k' \<le> MAX_ORDER" for k' j
  proof (cases "k' = k")
    case True
    have "\<forall>j. pbmap s k j = ((2 * j * 2 ^ k \<in> set (freelist s k)) \<noteq> ((2 * j + 1) * 2 ^ k \<in> set (freelist s k)))"
      using inv k by (simp add: binv_def)
    from bits_toggle [OF this al L(2), of j] show ?thesis
      unfolding True bm fl(1) by simp
  next
    case False
    then show ?thesis using inv that fl(2) bm by (simp add: binv_def)
  qed
  ultimately show ?thesis using inv by (simp add: binv_def)
qed

lemma binv_take_head:
  assumes "binv U A s" "k \<le> MAX_ORDER" "freelist s k = i # rest"
  shows "binv U (insert (k, i) A) (snd (set_bitmap i k (s\<lparr>freelist := (freelist s)(k := rest)\<rparr>)))"
proof (rule binv_flip [OF assms(1,2), where i = i and L = rest])
  have "distinct (i # rest)" using assms by (metis binv_def)
  then show "distinct rest" "\<And>x. x \<in> set rest \<longleftrightarrow> (if x = i then i \<notin> set (freelist s k) else x \<in> set (freelist s k))"
    using assms(3) by auto
qed (use assms in \<open>auto simp del: buddy_consts\<close>)

lemma binv_put:
  assumes "binv U A s" "(k, i) \<in> A"
  shows "binv U (A - {(k, i)}) (snd (set_bitmap i k (add_block i k s)))"
proof -
  have k: "k \<le> MAX_ORDER" using assms tilesD(1) by (metis UnI1 binv_def)
  then have n: "i \<notin> set (freelist s k)" using assms by (auto simp: binv_def)
  show ?thesis
  proof (rule binv_flip [OF assms(1) k, where i = i and L = "i # freelist s k"])
    show "distinct (i # freelist s k)" using assms(1) k n by (simp add: binv_def)
  qed (use assms n in \<open>auto simp: add_block_def\<close>)
qed

text \<open>The free buddy leaves its list; the bit toggled is the one of the pair.\<close>

lemma binv_take_buddy:
  assumes "binv U A s" "k \<le> MAX_ORDER" "b \<in> set (freelist s k)" "b div 2 ^ (k + 1) = i div 2 ^ (k + 1)"
  shows "binv U (insert (k, b) A) (snd (del_block b k (snd (set_bitmap i k s))))"
proof (rule binv_flip [OF assms(1,2), where i = b and L = "remove1 b (freelist s k)"])
  have d: "distinct (freelist s k)" using assms by (simp add: binv_def)
  then show "distinct (remove1 b (freelist s k))"
    "\<And>x. x \<in> set (remove1 b (freelist s k)) \<longleftrightarrow> (if x = b then b \<notin> set (freelist s k) else x \<in> set (freelist s k))"
    using assms(3) by auto
qed (use assms in \<open>auto simp: del_block_def simp del: buddy_consts\<close>)

lemma units_split: "units (Suc d, i) = units (d, i) \<union> units (d, i + 2 ^ d)"
  by (auto simp: units_def)

lemma units_halves: "units (d, i) \<inter> units (d, i + 2 ^ d) = {}"
  by (auto simp: units_def)

lemma units_start [simp]: "i \<in> units (d, i)"
  by (simp add: units_def)

lemma tiles_disjoint: "tiles U B \<Longrightarrow> b \<in> B \<Longrightarrow> c \<in> B \<Longrightarrow> x \<in> units b \<Longrightarrow> x \<in> units c \<Longrightarrow> b = c"
  unfolding tiles_def pairwise_def disjnt_def by blast

lemma tiles_split:
  assumes "tiles U (insert (Suc d, i) R)" "(Suc d, i) \<notin> R"
  shows "tiles U (insert (d, i) (insert (d, i + 2 ^ d) R))"
proof -
  have k: "Suc d \<le> MAX_ORDER" "2 ^ Suc d dvd i" using tilesD [OF assms(1), of "Suc d" i] by auto
  have dv: "2 ^ d dvd i" "2 ^ d dvd i + 2 ^ d" using k(2) by (simp_all add: dvd_mult_right)
  have pw: "pairwise (\<lambda>b c. disjnt (units b) (units c)) (insert (Suc d, i) R)"
    using assms(1) by (simp add: tiles_def)
  then have R: "disjnt (units (d, i)) (units c)" "disjnt (units (d, i + 2 ^ d)) (units c)" if "c \<in> R" for c
    using pairwiseD [OF pw, of "(Suc d, i)" c] assms(2) that by (auto simp: units_split disjnt_def)
  have R': "disjnt (units c) (units (d, i))" "disjnt (units c) (units (d, i + 2 ^ d))" if "c \<in> R" for c
    using R [OF that] by (simp_all add: disjnt_sym)
  have "disjnt (units (d, i)) (units (d, i + 2 ^ d))" "disjnt (units (d, i + 2 ^ d)) (units (d, i))"
    using units_halves [of d i] by (auto simp: disjnt_def)
  then have "pairwise (\<lambda>b c. disjnt (units b) (units c)) (insert (d, i) (insert (d, i + 2 ^ d) R))"
    using pw R R' by (auto simp: pairwise_insert)
  moreover have "\<forall>b \<in> insert (d, i) (insert (d, i + 2 ^ d) R). fst b \<le> MAX_ORDER \<and> 2 ^ fst b dvd snd b"
    using assms(1) dv k(1) unfolding tiles_def by auto
  moreover have "(\<Union>b \<in> insert (d, i) (insert (d, i + 2 ^ d) R). units b) = {0..<U}"
    using assms(1) unfolding tiles_def by (simp add: units_split Un_assoc)
  ultimately show ?thesis by (simp add: tiles_def)
qed

lemma tiles_merge:
  assumes "tiles U (insert (d, i) (insert (d, i + 2 ^ d) R))" "(d, i) \<notin> R" "(d, i + 2 ^ d) \<notin> R"
    "2 ^ Suc d dvd i" "Suc d \<le> MAX_ORDER"
  shows "tiles U (insert (Suc d, i) R)"
proof -
  have pw: "pairwise (\<lambda>b c. disjnt (units b) (units c)) (insert (d, i) (insert (d, i + 2 ^ d) R))"
    using assms(1) by (simp add: tiles_def)
  have R: "disjnt (units (Suc d, i)) (units c)" if "c \<in> R" for c
  proof -
    have "disjnt (units (d, i)) (units c)" "disjnt (units (d, i + 2 ^ d)) (units c)"
      using pairwiseD [OF pw, of "(d, i)" c] pairwiseD [OF pw, of "(d, i + 2 ^ d)" c] assms(2,3) that by auto
    then show ?thesis by (auto simp: units_split disjnt_def)
  qed
  then have "disjnt (units c) (units (Suc d, i))" if "c \<in> R" for c
    using that by (simp add: disjnt_sym)
  then have "pairwise (\<lambda>b c. disjnt (units b) (units c)) (insert (Suc d, i) R)"
    using pw R by (simp add: pairwise_insert)
  moreover have "\<forall>b \<in> insert (Suc d, i) R. fst b \<le> MAX_ORDER \<and> 2 ^ fst b dvd snd b"
    using assms(1,4,5) unfolding tiles_def by auto
  moreover have "(\<Union>b \<in> insert (Suc d, i) R. units b) = {0..<U}"
    using assms(1) unfolding tiles_def by (simp add: units_split Un_assoc)
  ultimately show ?thesis by (simp add: tiles_def)
qed

lemma binv_split:
  assumes inv: "binv U A s" and b: "(Suc d, i) \<in> A"
  shows "binv U (insert (d, i) (insert (d, i + 2 ^ d) (A - {(Suc d, i)}))) s"
proof -
  let ?B = "A \<union> free_blocks s"
  have t: "tiles U ?B" using inv by (simp add: binv_def)
  have nf: "(Suc d, i) \<notin> free_blocks s" using inv b by (auto simp: binv_def)
  have no: "(d, i) \<notin> ?B" "(d, i + 2 ^ d) \<notin> ?B"
    using tiles_disjoint [OF t, of "(Suc d, i)" "(d, i)" i]
      tiles_disjoint [OF t, of "(Suc d, i)" "(d, i + 2 ^ d)" "i + 2 ^ d"] b
    by (auto simp: units_def)
  have "insert (Suc d, i) (?B - {(Suc d, i)}) = ?B" using b by auto
  then have "tiles U (insert (d, i) (insert (d, i + 2 ^ d) (?B - {(Suc d, i)})))"
    using tiles_split [of U d i "?B - {(Suc d, i)}"] t by simp
  moreover have "insert (d, i) (insert (d, i + 2 ^ d) (A - {(Suc d, i)})) \<union> free_blocks s
      = insert (d, i) (insert (d, i + 2 ^ d) (?B - {(Suc d, i)}))"
    using nf by auto
  ultimately show ?thesis
    using inv no by (simp add: binv_def Int_insert_left) blast
qed

lemma binv_merge:
  assumes inv: "binv U A s" and b: "(d, i) \<in> A" "(d, i + 2 ^ d) \<in> A"
    and i: "2 ^ Suc d dvd i" "Suc d \<le> MAX_ORDER"
  shows "binv U (insert (Suc d, i) (A - {(d, i), (d, i + 2 ^ d)})) s"
proof -
  let ?B = "A \<union> free_blocks s" and ?P = "{(d, i), (d, i + 2 ^ d)}"
  have t: "tiles U ?B" using inv by (simp add: binv_def)
  have nf: "(d, i) \<notin> free_blocks s" "(d, i + 2 ^ d) \<notin> free_blocks s" using inv b by (auto simp: binv_def)
  have no: "(Suc d, i) \<notin> ?B"
    using tiles_disjoint [OF t, of "(Suc d, i)" "(d, i)" i] b by auto
  have "insert (d, i) (insert (d, i + 2 ^ d) (?B - ?P)) = ?B" using b by auto
  then have "tiles U (insert (Suc d, i) (?B - ?P))"
    using tiles_merge [of U d i "?B - ?P"] t i by simp
  moreover have "insert (Suc d, i) (A - ?P) \<union> free_blocks s = insert (Suc d, i) (?B - ?P)"
    using nf by auto
  ultimately show ?thesis
    using inv no by (simp add: binv_def Int_insert_left) blast
qed

section \<open>Allocation and release\<close>

lemma degrade_inv:
  assumes "binv U (insert (k, pb) A) s" "(k, pb) \<notin> A" "bitp \<le> k"
  shows "binv U (insert (bitp, pb) A) (degrade bitp k pb s)"
  using assms
proof (induction k arbitrary: s)
  case (Suc d)
  show ?case
  proof (cases "bitp \<le> d")
    case True
    let ?A = "insert (d, pb) (insert (d, pb + 2 ^ d) A)"
    have eq: "insert (d, pb) (insert (d, pb + 2 ^ d) (insert (Suc d, pb) A - {(Suc d, pb)})) = ?A"
      using Suc.prems(2) by auto
    have t: "binv U ?A s"
      using binv_split [OF Suc.prems(1), of d pb] unfolding eq by simp
    have tl: "tiles U (insert (Suc d, pb) A \<union> free_blocks s)" using Suc.prems(1) by (simp add: binv_def)
    have no: "(d, pb) \<notin> A" "(d, pb + 2 ^ d) \<notin> A"
      using tiles_disjoint [OF tl, of "(Suc d, pb)" "(d, pb)" pb]
        tiles_disjoint [OF tl, of "(Suc d, pb)" "(d, pb + 2 ^ d)" "pb + 2 ^ d"]
      by (auto simp: units_def)
    have "?A - {(d, pb + 2 ^ d)} = insert (d, pb) A" using no by auto
    then have "binv U (insert (d, pb) A) (snd (set_bitmap (pb + 2 ^ d) d (add_block (pb + 2 ^ d) d s)))"
      using binv_put [OF t, of d "pb + 2 ^ d"] by simp
    from Suc.IH [OF this no(1) True] True show ?thesis by simp
  next
    case False
    then show ?thesis using Suc.prems by (cases "bitp = Suc d") auto
  qed
qed simp

lemma binv_free_area [simp]: "binv U A (s\<lparr>free_area := f\<rparr>) = binv U A s"
  by (simp add: binv_def free_blocks_def)

lemma alloc_from_inv:
  assumes "binv U A s" "\<forall>k \<in> set ks. bitp \<le> k \<and> k \<le> MAX_ORDER"
  shows "case alloc_from bitp ks s of
      (None, s') \<Rightarrow> s' = s \<and> (\<forall>k \<in> set ks. freelist s k = [])
    | (Some pb, s') \<Rightarrow> binv U (insert (bitp, pb) A) s' \<and> free_area s' pb = bitp
         \<and> (\<forall>b \<in> A. units b \<inter> units (bitp, pb) = {})"
  using assms(2)
proof (induction ks)
  case (Cons k ks)
  show ?case
  proof (cases "freelist s k")
    case Nil
    then show ?thesis using Cons by (auto split: prod.splits option.splits)
  next
    case (Cons pb rest)
    let ?s1 = "snd (set_bitmap pb k (s\<lparr>freelist := (freelist s)(k := rest)\<rparr>))"
    have k: "bitp \<le> k" "k \<le> MAX_ORDER" using Cons.prems by simp_all
    have nA: "(k, pb) \<notin> A" using assms(1) k Cons by (auto simp: binv_def)
    have t: "binv U (insert (k, pb) A) ?s1" by (rule binv_take_head [OF assms(1) k(2) Cons])
    have inv: "binv U (insert (bitp, pb) A) (degrade bitp k pb ?s1)"
      by (rule degrade_inv [OF t nA k(1)])
    have tl: "tiles U (A \<union> free_blocks s)" "(k, pb) \<in> free_blocks s"
      using assms(1) k Cons by (simp_all add: binv_def)
    have "units (bitp, pb) \<subseteq> units (k, pb)"
    proof -
      have "(2 :: nat) ^ bitp \<le> 2 ^ k" using k(1) by simp
      then show ?thesis by (auto simp: units_def)
    qed
    moreover have "units b \<inter> units (k, pb) = {}" if "b \<in> A" for b
      using tiles_disjoint [OF tl(1), of b "(k, pb)"] tl(2) that nA by auto
    ultimately show ?thesis using inv Cons by (auto simp: Let_def)
  qed
qed simp

lemma set_bitmap_same_pair:
  "i div 2 ^ (k + 1) = j div 2 ^ (k + 1) \<Longrightarrow> set_bitmap i k s = set_bitmap j k s"
  by (simp add: set_bitmap_def)

lemma add_block_set_bitmap:
  "add_block i k (snd (set_bitmap j k s)) = snd (set_bitmap j k (add_block i k s))"
  by (simp add: add_block_def set_bitmap_def Let_def)

lemma buddy_arith:
  fixes index k :: nat
  defines "m \<equiv> index div 2 ^ k"
  defines "i \<equiv> m * 2 ^ k" and "b \<equiv> (m XOR 1) * 2 ^ k" and "u \<equiv> index div 2 ^ (k + 1) * 2 ^ (k + 1)"
  shows "{i, b} = {u, u + 2 ^ k}" "i \<noteq> b" "b div 2 ^ (k + 1) = index div 2 ^ (k + 1)"
    "i div 2 ^ (k + 1) = index div 2 ^ (k + 1)"
    "{i, b} = {2 * (index div 2 ^ (k + 1)) * 2 ^ k, (2 * (index div 2 ^ (k + 1)) + 1) * 2 ^ k}"
proof -
  let ?j = "index div 2 ^ (k + 1)"
  have j: "?j = m div 2" by (simp add: m_def power_add div_mult2_eq [symmetric] mult.commute)
  have u: "u = 2 * ?j * 2 ^ k" by (simp add: u_def)
  have cases: "i = 2 * ?j * 2 ^ k \<and> b = (2 * ?j + 1) * 2 ^ k \<or> i = (2 * ?j + 1) * 2 ^ k \<and> b = 2 * ?j * 2 ^ k"
  proof (cases "even m")
    case True
    then have "m = 2 * ?j" unfolding j by simp
    moreover have "m XOR 1 = m + 1" using True by (simp only: xor_one_eq) simp
    ultimately have "m = 2 * ?j" "m XOR 1 = 2 * ?j + 1" by linarith+
    then show ?thesis unfolding i_def b_def by simp
  next
    case False
    then have "m = 2 * ?j + 1" unfolding j by simp
    moreover have "m XOR 1 = m - 1" using False by (simp only: xor_one_eq) simp
    ultimately have "m = 2 * ?j + 1" "m XOR 1 = 2 * ?j" by linarith+
    then show ?thesis unfolding i_def b_def by simp
  qed
  have ne: "2 * ?j * 2 ^ k \<noteq> (2 * ?j + 1) * (2 :: nat) ^ k" by simp
  from cases show s: "{i, b} = {2 * ?j * 2 ^ k, (2 * ?j + 1) * 2 ^ k}" by auto
  have "(2 * ?j + 1) * 2 ^ k = u + 2 ^ k" unfolding u by simp
  then show "{i, b} = {u, u + 2 ^ k}" unfolding s u by (simp add: add.commute)
  from cases ne show "i \<noteq> b" by metis
  from cases show "b div 2 ^ (k + 1) = ?j" "i div 2 ^ (k + 1) = ?j" using pair_div [of ?j k] by metis+
qed

lemma free_loop_inv:
  assumes "binv U A s" "(order, i) \<in> A" "i = index div 2 ^ order * 2 ^ order" "left = Suc MAX_ORDER - order"
  shows "binv U (A - {(order, i)}) (free_loop left order index i s)"
  using assms
proof (induction left arbitrary: order i A s)
  case 0
  have "order \<le> MAX_ORDER" using 0 tilesD(1) by (metis UnI1 binv_def)
  with 0 show ?case by simp
next
  case (Suc left)
  let ?b = "((index div 2 ^ order) XOR 1) * 2 ^ order"
  let ?u = "index div 2 ^ (order + 1) * 2 ^ (order + 1)"
  let ?j = "index div 2 ^ (order + 1)"
  note ar = buddy_arith [of index order, folded Suc.prems(3)]
  have ord: "order \<le> MAX_ORDER" using Suc.prems tilesD(1) by (metis UnI1 binv_def)
  have ni: "i \<notin> set (freelist s order)" using Suc.prems ord by (auto simp: binv_def)
  have put: "binv U (A - {(order, i)}) (add_block i order (snd (set_bitmap index order s)))"
    unfolding add_block_set_bitmap set_bitmap_same_pair [OF ar(4) [symmetric]]
    by (rule binv_put [OF Suc.prems(1,2)])
  show ?case
  proof (cases "pbmap s order ?j \<and> order < MAX_ORDER")
    case True
    let ?s2 = "snd (del_block ?b order (snd (set_bitmap index order s)))"
    have "pbmap s order ?j = ((2 * ?j * 2 ^ order \<in> set (freelist s order))
        \<noteq> ((2 * ?j + 1) * 2 ^ order \<in> set (freelist s order)))"
      using Suc.prems(1) ord by (simp add: binv_def)
    then have "\<exists>x \<in> {i, ?b}. x \<in> set (freelist s order)" unfolding ar(5) using True by auto
    then have bf: "?b \<in> set (freelist s order)" using ni by auto
    have nb: "(order, ?b) \<notin> A" using Suc.prems(1) bf ord by (auto simp: binv_def)
    have t: "binv U (insert (order, ?b) A) ?s2" by (rule binv_take_buddy [OF Suc.prems(1) ord bf ar(3)])
    have pr: "{(order, i), (order, ?b)} = {(order, ?u), (order, ?u + 2 ^ order)}" using ar(1) by auto
    then have in2: "(order, ?u) \<in> insert (order, ?b) A" "(order, ?u + 2 ^ order) \<in> insert (order, ?b) A"
      using Suc.prems(2) by auto
    have "insert (order, ?b) A - {(order, ?u), (order, ?u + 2 ^ order)} = A - {(order, i)}"
      unfolding pr [symmetric] using nb by auto
    then have m: "binv U (insert (Suc order, ?u) (A - {(order, i)})) ?s2"
      using binv_merge [OF t in2] True by simp
    have "(Suc order, ?u) \<notin> A"
    proof
      assume a: "(Suc order, ?u) \<in> A"
      have "i = ?u \<or> i = ?u + 2 ^ order" using ar(1) by (metis insertI1 insert_iff singletonD)
      then have "i \<in> units (Suc order, ?u)" unfolding units_def by auto
      with tiles_disjoint [of U "A \<union> free_blocks s" "(order, i)" "(Suc order, ?u)" i] a Suc.prems(1,2)
      show False by (simp add: binv_def)
    qed
    then have "insert (Suc order, ?u) (A - {(order, i)}) - {(Suc order, ?u)} = A - {(order, i)}" by auto
    moreover have "binv U (insert (Suc order, ?u) (A - {(order, i)}) - {(Suc order, ?u)})
        (free_loop left (Suc order) index ?u ?s2)"
      by (rule Suc.IH [OF m]) (use Suc.prems(4) in simp_all)
    ultimately show ?thesis
      using True by (simp add: Let_def set_bitmap_def)
  next
    case False
    have "free_loop (Suc left) order index i s = add_block i order (snd (set_bitmap index order s))"
    proof (cases "pbmap s order ?j")
      case True
      then have "left = 0" using False Suc.prems(4) ord by simp
      with True False show ?thesis by (simp add: Let_def set_bitmap_def)
    next
      case f: False
      then show ?thesis by (simp add: Let_def set_bitmap_def)
    qed
    with put show ?thesis by simp
  qed
qed

section \<open>Sizes\<close>

lemma last_sorted_ge: "sorted xs \<Longrightarrow> x \<in> set xs \<Longrightarrow> x \<le> last xs" for x :: nat
  by (induction xs) (auto split: if_splits)

lemma bsr_upper:
  fixes i :: "32 word"
  shows "unat i < 2 ^ (bsr i + 1)"
proof -
  have "bit (unat i) k \<Longrightarrow> k < bsr i + 1" for k
  proof -
    assume "bit (unat i) k"
    then have b: "bit i k" by (simp add: bit_unsigned_iff)
    then have "k < 32" using bit_imp_le_length by fastforce
    then have "k \<le> last (filter (bit i) [0..<32])"
      using b by (intro last_sorted_ge) (simp_all add: sorted_wrt_filter)
    then show ?thesis by (simp add: bsr_def)
  qed
  then have "take_bit (bsr i + 1) (unat i) = unat i"
    by (intro bit_eqI) (auto simp: bit_take_bit_iff)
  then show ?thesis by (metis take_bit_nat_less_exp)
qed

lemma align_block_size_24 [simp]: "align_block_size = 24"
  by (simp add: align_block_size_def pure_align_u32_def)

lemma alloc_order_fits:
  assumes "unat l + 24 \<le> 2 ^ 30"
  shows "unat l + 24 \<le> 32 * 2 ^ alloc_order l"
proof -
  let ?t = "unat l + 24"
  let ?i = "drop_bit 6 (push_bit 2 (l + 24) - 1) :: 32 word"
  have t: "unat (l + 24) = ?t" using assms by (simp add: unat_word_ariths(1))
  have p: "push_bit 2 (l + 24) = (l + 24) * 4" by (simp add: push_bit_eq_mult)
  show ?thesis
  proof (cases "?t = 2 ^ 30")
    case True
    then have "l + 24 = 2 ^ 30" using t by (intro unsigned_word_eqI) simp
    then have "push_bit 2 (l + 24) = (0 :: 32 word)" unfolding p by simp
    then have "?i = drop_bit 6 (- 1)" by simp
    moreover have "(drop_bit 6 (- 1) :: 32 word) > 0" "bsr (drop_bit 6 (- 1) :: 32 word) = 25"
      by code_simp+
    ultimately have "alloc_order l = 25"
      unfolding alloc_order_def Let_def align_block_size_24 MIN_BLOCK_SIZE_EXP_def by (simp only: if_True)
    then show ?thesis using True by simp
  next
    case False
    then have lt: "?t < 2 ^ 30" using assms by simp
    have "unat ((l + 24) * 4) = (unat (l + 24) * unat (4 :: 32 word)) mod 2 ^ 32"
      by (simp only: unat_word_ariths(2) word_size len_num0 len_bit0) simp
    then have "unat ((l + 24) * 4) = 4 * ?t" using lt unfolding t by (simp only:) simp
    then have "unat ((l + 24) * 4 - 1) = 4 * ?t - 1" by (subst unat_minus_one) auto
    then have i: "unat ?i = (4 * ?t - 1) div 64" by (simp add: p drop_bit_eq_div unat_div)
    show ?thesis
    proof (cases "?i > 0")
      case True
      then have o: "alloc_order l = bsr ?i" by (simp add: alloc_order_def Let_def)
      have "(4 * ?t - 1) div 64 < 2 ^ (bsr ?i + 1)" using bsr_upper [of ?i] i by simp
      then have "4 * ?t - 1 < 64 * 2 ^ (bsr ?i + 1)" by (simp add: div_less_iff_less_mult mult.commute)
      then show ?thesis unfolding o by simp
    next
      case False
      then have "alloc_order l = 0" by (simp add: alloc_order_def Let_def)
      have "?i = 0" using False by (simp only: word_gt_0) simp
      then have "(4 * ?t - 1) div 64 = 0" using i by simp
      then have "4 * ?t - 1 < 64" by (simp add: div_eq_0_iff)
      then show ?thesis using \<open>alloc_order l = 0\<close> by simp
    qed
  qed
qed


section \<open>Initialisation\<close>

lemma binv_grow:
  assumes "binv U A s" "2 ^ k dvd U" "k \<le> MAX_ORDER"
  shows "binv (U + 2 ^ k) (insert (k, U) A) s"
proof -
  let ?B = "A \<union> free_blocks s"
  have t: "tiles U ?B" using assms(1) by (simp add: binv_def)
  have sub: "units b \<subseteq> {0..<U}" if "b \<in> ?B" for b using t that unfolding tiles_def by blast
  have dj: "disjnt (units b) (units (k, U))" "disjnt (units (k, U)) (units b)" if "b \<in> ?B" for b
    using sub [OF that] by (auto simp: disjnt_def units_def)
  have pw: "pairwise (\<lambda>b c. disjnt (units b) (units c)) (insert (k, U) ?B)"
    unfolding pairwise_insert using dj t unfolding tiles_def by blast
  have un: "(\<Union>b \<in> insert (k, U) ?B. units b) = units (k, U) \<union> {0..<U}"
    using t by (simp add: tiles_def)
  have "units (k, U) \<union> {0..<U} = {0..<U + 2 ^ k}" by (auto simp: units_def)
  with pw un have t': "tiles (U + 2 ^ k) (insert (k, U) ?B)"
    using t assms(2,3) unfolding tiles_def by simp
  have "(k, U) \<notin> ?B" using subsetD [OF sub units_start, of k U] by auto
  then show ?thesis using assms(1) t' by (simp add: binv_def Int_insert_left)
qed

lemma fill_order_inv:
  "binv pos {} s \<Longrightarrow> 2 ^ k dvd pos \<Longrightarrow> k \<le> MAX_ORDER \<Longrightarrow>
    case fill_order k n pos s of (n', pos', s') \<Rightarrow>
      binv pos' {} s' \<and> 2 ^ k dvd pos' \<and> pos' + n' = pos + n \<and> n' < 2 ^ k"
proof (induction k n pos s rule: fill_order.induct)
  case (1 k n pos s)
  show ?case
  proof (cases "2 ^ k \<le> n")
    case True
    have "binv (pos + 2 ^ k) {} (snd (set_bitmap pos k (add_block pos k s)))"
      using binv_put [OF binv_grow [OF 1(2-4)], of k pos] by simp
    from 1(1) [OF True this _ 1(4)] 1(3) show ?thesis
      using True by (subst fill_order.simps) (auto split: prod.splits)
  next
    case False
    then show ?thesis using 1 by (subst fill_order.simps) auto
  qed
qed

lemma fill_orders_inv:
  "binv pos {} s \<Longrightarrow> 2 ^ k dvd pos \<Longrightarrow> k \<le> MAX_ORDER \<Longrightarrow> binv (pos + n) {} (fill_orders k n pos s)"
proof (induction k arbitrary: n pos s)
  case 0
  then show ?case using fill_order_inv [of pos s 0 n] by (auto split: prod.splits)
next
  case (Suc k)
  obtain n' pos' s' where f: "fill_order (Suc k) n pos s = (n', pos', s')" by (metis prod_cases3)
  with fill_order_inv [OF Suc.prems, of n]
  have r: "binv pos' {} s'" "2 ^ Suc k dvd pos'" "pos' + n' = pos + n" by simp_all
  have "2 ^ k dvd pos'" using r(2) by (metis dvd_mult_right power_Suc)
  from Suc.IH [OF r(1) this, of n'] Suc.prems(3) r(3) show ?case by (simp add: f)
qed

lemma init_free_inv:
  assumes "init_free r = Some (rest, s)"
  shows "binv (nat rest div 64) {} s"
proof -
  let ?z = "\<lparr>freelist = (\<lambda>_. []), pbmap = (\<lambda>_ _. False), free_area = (\<lambda>_. 0)\<rparr>"
  have "binv 0 {} ?z" by (auto simp: binv_def tiles_def free_blocks_def)
  from fill_orders_inv [OF this, of MAX_ORDER] show ?thesis
    using assms by (auto simp: init_free_def Let_def split: if_splits)
qed


section \<open>The blocks that are handed out\<close>

text \<open>
  The block behind a data pointer is read from its header, as \<^verbatim>\<open>Free\<close> does; its memory is the
  header and the data. The units \<open>U\<close> are what \<^verbatim>\<open>init_free\<close> divided into blocks.
\<close>

definition block_of :: "buddy \<Rightarrow> nat \<Rightarrow> block" where
  "block_of s p = (free_area s ((p - 24) div 64), (p - 24) div 64)"

definition buddy_foot :: "buddy \<Rightarrow> nat \<Rightarrow> nat set" where
  "buddy_foot s p = {p - 24 ..< p - 24 + 64 * 2 ^ fst (block_of s p)}"

definition buddy_live :: "nat \<Rightarrow> nat set \<Rightarrow> buddy \<Rightarrow> bool" where
  "buddy_live U P s \<longleftrightarrow> (\<forall>p \<in> P. \<exists>i. p = 64 * i + 24) \<and> binv U (block_of s ` P) s"

lemma block_of_data [simp]: "block_of s (64 * i + 24) = (free_area s i, i)"
  by (simp add: block_of_def)

lemma buddy_liveD:
  assumes "buddy_live U P s" "p \<in> P"
  obtains i where "p = 64 * i + 24" "block_of s p = (free_area s i, i)"
  using assms unfolding buddy_live_def by force

lemma buddy_live_inj: "buddy_live U P s \<Longrightarrow> inj_on (block_of s) P"
  by (rule inj_onI) (metis buddy_liveD prod.inject)

text \<open>Headers are written only where a block enters a free list.\<close>

lemma degrade_grows: "set (freelist s k) \<subseteq> set (freelist (degrade bitp d pb s) k)"
proof (induction d arbitrary: s)
  case (Suc d)
  let ?s = "snd (set_bitmap (pb + 2 ^ d) d (add_block (pb + 2 ^ d) d s))"
  have "set (freelist s k) \<subseteq> set (freelist ?s k)" by (auto simp: add_block_def)
  with Suc.IH [of ?s] show ?case by (auto simp del: set_bitmap_sel)
qed simp

lemma degrade_area:
  "d \<le> Suc MAX_ORDER \<Longrightarrow> free_area (degrade bitp d pb s) x = free_area s x
    \<or> (\<exists>k. (k, x) \<in> free_blocks (degrade bitp d pb s))"
proof (induction d arbitrary: s)
  case (Suc d)
  let ?s = "snd (set_bitmap (pb + 2 ^ d) d (add_block (pb + 2 ^ d) d s))"
  consider "\<not> bitp \<le> d" | "bitp \<le> d" "x = pb + 2 ^ d" | "bitp \<le> d" "x \<noteq> pb + 2 ^ d" by blast
  then show ?case
  proof cases
    case 2
    have "x \<in> set (freelist ?s d)" by (simp add: 2 add_block_def)
    then have "x \<in> set (freelist (degrade bitp d pb ?s) d)" using degrade_grows by blast
    then show ?thesis using Suc.prems 2(1) by (auto intro: exI [of _ d])
  next
    case 3
    then have "free_area ?s x = free_area s x" by (simp add: add_block_def)
    with Suc.IH [of ?s] Suc.prems 3(1) show ?thesis by simp
  qed simp
qed simp

lemma alloc_from_area:
  assumes "alloc_from bitp ks s = (Some pb, s')" "\<forall>k \<in> set ks. k \<le> MAX_ORDER" "x \<noteq> pb"
  shows "free_area s' x = free_area s x \<or> (\<exists>k. (k, x) \<in> free_blocks s')"
  using assms(1,2)
proof (induction ks)
  case (Cons k ks)
  show ?case
  proof (cases "freelist s k")
    case Nil
    then show ?thesis using Cons by simp
  next
    case (Cons b rest)
    let ?s1 = "snd (set_bitmap pb k (s\<lparr>freelist := (freelist s)(k := rest)\<rparr>))"
    let ?d = "degrade bitp k pb ?s1"
    have s': "s' = ?d\<lparr>free_area := (free_area ?d)(pb := bitp)\<rparr>"
      using Cons Cons.prems(1) by (auto simp: Let_def split: prod.splits)
    have "free_area ?d x = free_area ?s1 x \<or> (\<exists>k. (k, x) \<in> free_blocks ?d)"
      using degrade_area [of k bitp pb ?s1 x] Cons.prems(2) by simp
    then show ?thesis unfolding s' using assms(3) by (simp add: free_blocks_def)
  qed
qed simp

lemma free_loop_area:
  "order \<le> MAX_ORDER \<Longrightarrow> left = Suc MAX_ORDER - order \<Longrightarrow>
    free_area (free_loop left order index i s) x = free_area s x
    \<or> (\<exists>k. (k, x) \<in> free_blocks (free_loop left order index i s))"
proof (induction left arbitrary: order i s)
  case (Suc left)
  let ?s1 = "snd (set_bitmap index order s)"
  let ?f = "free_loop (Suc left) order index i s"
  show ?case
  proof (cases "pbmap s order (index div 2 ^ (order + 1)) \<and> order < MAX_ORDER")
    case True
    let ?s2 = "snd (del_block (((index div 2 ^ order) XOR 1) * 2 ^ order) order ?s1)"
    let ?u = "index div 2 ^ (order + 1) * 2 ^ (order + 1)"
    have f: "?f = free_loop left (Suc order) index ?u ?s2"
      using True by (simp add: Let_def set_bitmap_def)
    have a: "free_area ?s2 = free_area s" by (simp add: del_block_def)
    have "Suc order \<le> MAX_ORDER" "left = Suc MAX_ORDER - Suc order" using True Suc.prems by simp_all
    from Suc.IH [OF this, of ?u ?s2] show ?thesis unfolding f a .
  next
    case False
    have f: "?f = add_block i order ?s1"
    proof (cases "pbmap s order (index div 2 ^ (order + 1))")
      case True
      then have "left = 0" using False Suc.prems by simp
      with True False show ?thesis by (simp add: Let_def set_bitmap_def)
    next
      case f: False
      then show ?thesis by (simp add: Let_def set_bitmap_def)
    qed
    show ?thesis unfolding f using Suc.prems(1) by (auto simp: add_block_def intro: exI [of _ order])
  qed
qed simp

text \<open>So the headers of the blocks that are handed out are left alone.\<close>

lemma area_kept:
  assumes "binv U A s'" "free_area s' i = free_area s i \<or> (\<exists>k. (k, i) \<in> free_blocks s')" "(k', i) \<in> A"
  shows "free_area s' i = free_area s i"
proof (rule ccontr)
  assume "free_area s' i \<noteq> free_area s i"
  then obtain k where k: "(k, i) \<in> free_blocks s'" using assms(2) by blast
  have t: "tiles U (A \<union> free_blocks s')" "A \<inter> free_blocks s' = {}" using assms(1) by (simp_all add: binv_def)
  from tiles_disjoint [OF t(1), of "(k', i)" "(k, i)" i] assms(3) k have "(k', i) = (k, i)" by simp
  with t(2) assms(3) k show False by auto
qed


lemma Alloc_some:
  assumes "Alloc l s = (Some p, s')"
  obtains pb where "p = 64 * pb + 24" "alloc_order l \<le> MAX_ORDER"
    "alloc_from (alloc_order l) [alloc_order l..<Suc MAX_ORDER] s = (Some pb, s')"
  using assms by (auto simp: Alloc_def Let_def split: if_splits prod.splits option.splits)

lemma Alloc_live:
  assumes live: "buddy_live U P s" and al: "Alloc l s = (Some p, s')"
  shows "p \<notin> P" "buddy_live U (insert p P) s'" "\<And>q. q \<in> P \<Longrightarrow> block_of s' q = block_of s q"
    "fst (block_of s' p) = alloc_order l"
proof -
  obtain pb where pb: "p = 64 * pb + 24" "alloc_order l \<le> MAX_ORDER"
    "alloc_from (alloc_order l) [alloc_order l..<Suc MAX_ORDER] s = (Some pb, s')"
    using al by (rule Alloc_some)
  let ?A = "block_of s ` P" and ?b = "(alloc_order l, pb)"
  have inv: "binv U ?A s" using live by (simp add: buddy_live_def)
  from alloc_from_inv [OF inv, of "[alloc_order l..<Suc MAX_ORDER]" "alloc_order l"] pb(3)
  have n: "binv U (insert ?b ?A) s'" "free_area s' pb = alloc_order l" "\<forall>b \<in> ?A. units b \<inter> units ?b = {}"
    by auto
  have ne: "i \<noteq> pb" if "64 * i + 24 \<in> P" for i
  proof
    assume "i = pb"
    then have "units (free_area s pb, pb) \<inter> units ?b = {}" using n(3) that by force
    then show False using units_start by blast
  qed
  show "p \<notin> P" using ne pb(1) by blast
  show kept: "block_of s' q = block_of s q" if q: "q \<in> P" for q
  proof -
    obtain i where i: "q = 64 * i + 24" "block_of s q = (free_area s i, i)" using live q by (rule buddy_liveD)
    have "i \<noteq> pb" using ne q i(1) by blast
    then have "free_area s' i = free_area s i \<or> (\<exists>k. (k, i) \<in> free_blocks s')"
      by (intro alloc_from_area [OF pb(3)]) auto
    moreover have "(free_area s i, i) \<in> insert ?b ?A" using q i(2) by force
    ultimately have "free_area s' i = free_area s i" by (rule area_kept [OF n(1)])
    with i show ?thesis by simp
  qed
  have "block_of s' ` insert p P = insert ?b ?A" using kept n(2) pb(1) by simp
  then show "buddy_live U (insert p P) s'"
    using n(1) live pb(1) by (auto simp: buddy_live_def)
  show "fst (block_of s' p) = alloc_order l" using n(2) pb(1) by simp
qed

lemma Alloc_none: "Alloc l s = (None, s') \<Longrightarrow> buddy_live U P s \<Longrightarrow> s' = s"
  using alloc_from_inv [of U "block_of s ` P" s "[alloc_order l..<Suc MAX_ORDER]" "alloc_order l"]
  by (auto simp: Alloc_def buddy_live_def Let_def split: if_splits prod.splits option.splits)

lemma Free_live:
  assumes live: "buddy_live U P s" and p: "p \<in> P"
  shows "buddy_live U (P - {p}) (Free p s)" "\<And>q. q \<in> P - {p} \<Longrightarrow> block_of (Free p s) q = block_of s q"
proof -
  obtain i where i: "p = 64 * i + 24" "block_of s p = (free_area s i, i)" using live p by (rule buddy_liveD)
  let ?A = "block_of s ` P" and ?k = "free_area s i"
  let ?s = "free_loop (Suc MAX_ORDER - ?k) ?k i i s"
  have inv: "binv U ?A s" using live by (simp add: buddy_live_def)
  have F: "Free p s = ?s" unfolding i(1) by (simp add: Free_def Let_def)
  have b: "(?k, i) \<in> ?A" using p i(2) by force
  have t: "tiles U (?A \<union> free_blocks s)" using inv by (simp add: binv_def)
  have k: "?k \<le> MAX_ORDER" "2 ^ ?k dvd i" using tilesD [OF t] b by blast+
  have al: "i = i div 2 ^ ?k * 2 ^ ?k" using k(2) by simp
  have n: "binv U (?A - {(?k, i)}) ?s" by (rule free_loop_inv [OF inv b al refl])
  have kept: "block_of ?s q = block_of s q" if q: "q \<in> P - {p}" for q
  proof -
    have qP: "q \<in> P" using q by simp
    obtain j where j: "q = 64 * j + 24" "block_of s q = (free_area s j, j)" using live qP by (rule buddy_liveD)
    have "(free_area s j, j) \<in> ?A - {(?k, i)}" using q i(1) j by (auto intro: rev_image_eqI)
    from area_kept [OF n free_loop_area [OF k(1) refl] this] j show ?thesis by simp
  qed
  then show "\<And>q. q \<in> P - {p} \<Longrightarrow> block_of (Free p s) q = block_of s q" unfolding F .
  have "block_of ?s ` (P - {p}) = block_of s ` (P - {p})" using kept by (rule image_cong [OF refl])
  also have "\<dots> = ?A - {(?k, i)}"
    using inj_on_image_set_diff [OF buddy_live_inj [OF live], of P "{p}"] p i(2) by simp
  finally show "buddy_live U (P - {p}) (Free p s)"
    unfolding F using n live by (simp add: buddy_live_def)
qed

lemma buddy_foot_disjoint:
  assumes live: "buddy_live U P s" and "p \<in> P" "q \<in> P" "p \<noteq> q"
  shows "buddy_foot s p \<inter> buddy_foot s q = {}"
proof -
  obtain i where i: "p = 64 * i + 24" "block_of s p = (free_area s i, i)" using live assms(2) by (rule buddy_liveD)
  obtain j where j: "q = 64 * j + 24" "block_of s q = (free_area s j, j)" using live assms(3) by (rule buddy_liveD)
  have "tiles U (block_of s ` P \<union> free_blocks s)" using live by (simp add: buddy_live_def binv_def)
  then have "block_of s p = block_of s q" if "x \<in> units (block_of s p)" "x \<in> units (block_of s q)" for x
    using that assms(2,3) tiles_disjoint by blast
  then have d: "units (block_of s p) \<inter> units (block_of s q) = {}"
    using i j assms(4) by auto
  have div: "x div 64 \<in> units (k, m)" if "x \<in> {64 * m ..< 64 * m + 64 * 2 ^ k}" for x k m :: nat
    using that by (simp add: units_def div_less_iff_less_mult less_eq_div_iff_mult_less_eq algebra_simps)
  show ?thesis
  proof (rule ccontr)
    assume "buddy_foot s p \<inter> buddy_foot s q \<noteq> {}"
    then obtain x where "x \<in> buddy_foot s p" "x \<in> buddy_foot s q" by blast
    then have "x div 64 \<in> units (block_of s p)" "x div 64 \<in> units (block_of s q)"
      using div i j by (simp_all add: buddy_foot_def)
    with d show False by blast
  qed
qed

interpretation buddy_alloc: allocator Alloc Free "buddy_live U" buddy_foot for U
proof (unfold_locales, goal_cases)
  case (1 P s r p s')
  then show ?case using Alloc_live by blast
next
  case (2 P s r p s' q)
  then show ?case using Alloc_live(3) by (simp add: buddy_foot_def)
next
  case (3 P s r s')
  then show ?case using Alloc_none by blast
next
  case (4 P s p)
  then show ?case by (rule Free_live)
next
  case (5 P s p q)
  then show ?case using Free_live(2) by (simp add: buddy_foot_def)
next
  case (6 P s p q)
  then show ?case by (rule buddy_foot_disjoint)
qed


section \<open>Properties\<close>

text \<open>A buffer of 832 bytes at address 0 has one block of 128 bytes; the pool after that.\<close>

definition small_pool :: buddy where
  "small_pool = snd (set_bitmap 0 1 (add_block 0 1
     \<lparr>freelist = (\<lambda>_. []), pbmap = (\<lambda>_ _. False), free_area = (\<lambda>_. 0)\<rparr>))"

lemma fill_order_short: "n < 2 ^ k \<Longrightarrow> fill_order k n pos s = (n, pos, s)"
  by (subst fill_order.simps) simp

lemma fill_order_long:
  "2 ^ k \<le> n \<Longrightarrow> fill_order k n pos s
    = fill_order k (n - 2 ^ k) (pos + 2 ^ k) (snd (set_bitmap pos k (add_block pos k s)))"
  by (subst fill_order.simps) simp

lemma fill_orders_two:
  "fill_orders 9 2 0 s = snd (set_bitmap 0 1 (add_block 0 1 s))"
proof -
  have skip: "fill_orders (Suc k) 2 0 s = fill_orders k 2 0 s" if "1 \<le> k" for k
  proof -
    have "(2 :: nat) ^ 1 < 2 ^ Suc k" using that by (intro power_strict_increasing) auto
    then show ?thesis by (simp add: fill_order_short)
  qed
  have "fill_orders 9 2 0 s = fill_orders 1 2 0 s"
    using skip [of 8] skip [of 7] skip [of 6] skip [of 5] skip [of 4] skip [of 3] skip [of 2]
      skip [of 1, unfolded Suc_1] by (simp del: fill_orders.simps)
  also have "\<dots> = snd (set_bitmap 0 1 (add_block 0 1 s))"
    by (simp add: fill_order_long [of "Suc 0"] fill_order_short)
  finally show ?thesis .
qed

lemma small_pool_init: "init_buddy_mem 0 832 = Some (128, small_pool)"
proof -
  have a: "align_area_size 768 = 64" by code_simp
  have "pure_align_ptr 0 64 = 0" "pure_align_ptr 32 64 = 64" by code_simp+
  then have "init_buddy_mem 0 832 = init_free 768" by (simp add: init_buddy_mem_def Let_def)
  also have "\<dots> = Some (128, small_pool)"
    by (simp add: init_free_def a Let_def fill_orders_two small_pool_def)
  finally show ?thesis .
qed

lemma small_pool_live: "buddy_live 2 {} small_pool"
proof -
  from small_pool_init obtain r where "init_free r = Some (128, small_pool)"
    by (auto simp: init_buddy_mem_def Let_def split: if_splits)
  from init_free_inv [OF this] show ?thesis by (simp add: buddy_live_def)
qed

text \<open>
  C28. an allocation. When \<^verbatim>\<open>Alloc\<close> returns a pointer, it is a new one, the block behind it shares
  no byte with a block that is handed out, those keep their place and size, and, for requests up to
  2^30 bytes with the header, the request fits into the block. When it returns \<^verbatim>\<open>NULL\<close> nothing changes.
\<close>

theorem buddy_alloc_sound:
  assumes "buddy_live U P s"
  shows "case Alloc l s of
      (None, s') \<Rightarrow> s' = s
    | (Some p, s') \<Rightarrow> p \<notin> P \<and> buddy_live U (insert p P) s'
        \<and> (\<forall>q \<in> P. buddy_foot s' q = buddy_foot s q \<and> buddy_foot s' p \<inter> buddy_foot s' q = {})
        \<and> (unat l + 24 \<le> 2 ^ 30 \<longrightarrow> {p ..< p + unat l} \<subseteq> buddy_foot s' p)"
proof (cases "Alloc l s")
  case (Pair po s')
  show ?thesis
  proof (cases po)
    case None
    then show ?thesis using Pair Alloc_none [OF _ assms] by simp
  next
    case (Some p)
    note a = Pair [unfolded Some]
    have l: "p \<notin> P" "buddy_live U (insert p P) s'" and o: "fst (block_of s' p) = alloc_order l"
      using Alloc_live [OF assms a] by blast+
    have k: "buddy_foot s' q = buddy_foot s q" if "q \<in> P" for q
      by (rule buddy_alloc.alloc_keeps [OF assms a that])
    have d: "buddy_foot s' p \<inter> buddy_foot s' q = {}" if "q \<in> P" for q
      using buddy_foot_disjoint [OF l(2), of p q] that l(1) by auto
    have "{p ..< p + unat l} \<subseteq> buddy_foot s' p" if "unat l + 24 \<le> 2 ^ 30"
    proof -
      have "24 \<le> p" using a by (rule Alloc_some) simp
      then show ?thesis using alloc_order_fits [OF that] o unfolding buddy_foot_def by auto
    qed
    with l k d show ?thesis using Pair Some by simp
  qed
qed

theorem buddy_alloc_sound_witness:
  "\<exists>s'. Alloc 8 small_pool = (Some 24, s') \<and> buddy_live 2 {24} s' \<and> {24..<32} \<subseteq> buddy_foot s' 24"
proof -
  have "fst (Alloc 8 small_pool) = Some 24" by code_simp
  then obtain s' where a: "Alloc 8 small_pool = (Some 24, s')" by (metis prod.collapse)
  with buddy_alloc_sound [OF small_pool_live, of 8] show ?thesis by simp
qed

text \<open>
  C29. whole histories. After \<^verbatim>\<open>init_buddy_mem\<close>, whatever a client allocates and gives back, the
  blocks it holds at any time lie in the buffer's block area and do not overlap.
\<close>

theorem buddy_history:
  assumes "init_buddy_mem b l = Some (rest, s)" "run_calls Alloc Free cs {} s = (P, s')"
  shows "buddy_live (nat rest div 64) P s' \<and> (\<forall>p \<in> P. buddy_foot s' p \<subseteq> {0..<nat rest}
    \<and> (\<forall>q \<in> P. p \<noteq> q \<longrightarrow> buddy_foot s' p \<inter> buddy_foot s' q = {}))"
proof -
  let ?U = "nat rest div 64"
  from assms(1) obtain r where "init_free r = Some (rest, s)"
    by (auto simp: init_buddy_mem_def Let_def split: if_splits)
  then have i: "buddy_live ?U {} s" using init_free_inv by (simp add: buddy_live_def)
  have live: "buddy_live ?U P s'"
    using buddy_alloc.run_live [OF i, of cs] assms(2) by simp
  have "buddy_foot s' p \<subseteq> {0..<nat rest}" if p: "p \<in> P" for p
  proof -
    obtain i where i: "p = 64 * i + 24" "block_of s' p = (free_area s' i, i)" using live p by (rule buddy_liveD)
    have "tiles ?U (block_of s' ` P \<union> free_blocks s')" using live by (simp add: buddy_live_def binv_def)
    then have "units (free_area s' i, i) \<subseteq> {0..<?U}" using p i(2) unfolding tiles_def by (metis UN_upper UnI1 imageI)
    then have "i + 2 ^ free_area s' i \<le> ?U" by (simp add: units_def)
    then have "64 * (i + 2 ^ free_area s' i) \<le> nat rest" by (simp only: less_eq_div_iff_mult_less_eq mult.commute)
    then show ?thesis using i by (auto simp: buddy_foot_def)
  qed
  then show ?thesis using live buddy_foot_disjoint [OF live] by blast
qed

theorem buddy_history_witness:
  "\<exists>s'. run_calls Alloc Free [Request 8, Request 8, Release 24] {} small_pool = ({88}, s')
    \<and> buddy_live 2 {88} s' \<and> buddy_foot s' 88 \<subseteq> {0..<128}"
proof -
  have "fst (run_calls Alloc Free [Request 8, Request 8, Release 24] {} small_pool) = {88}" by code_simp
  then obtain s' where r: "run_calls Alloc Free [Request 8, Request 8, Release 24] {} small_pool = ({88}, s')"
    by (metis prod.collapse)
  with buddy_history [OF small_pool_init r] show ?thesis by simp
qed

text \<open>
  the length computation wraps. A request for one gigabyte less 23 bytes is answered with a
  block of 64 bytes when one is free, since \<^verbatim>\<open>tlen<<2\<close> drops the top bits.
\<close>

theorem buddy_alloc_wraps:
  assumes "freelist s 0 = pb # blocks"
  shows "\<exists>s'. Alloc 1073741801 s = (Some (64 * pb + 24), s') \<and> card (buddy_foot s' (64 * pb + 24)) = 64"
proof -
  have "alloc_order 1073741801 = 0" by (simp add: alloc_order_def Let_def push_bit_eq_mult drop_bit_eq_div)
  then show ?thesis
    using assms by (simp add: Alloc_def upt_rec [of 0] Let_def buddy_foot_def)
qed


theorem buddy_alloc_wraps_witness:
  "\<exists>s'. Alloc 1073741801 \<lparr>freelist = (\<lambda>k. if k = 0 then [3] else []), pbmap = (\<lambda>_ _. False), free_area = (\<lambda>_. 0)\<rparr>
      = (Some 216, s') \<and> card (buddy_foot s' 216) = 64"
  using buddy_alloc_wraps [of "\<lparr>freelist = (\<lambda>k. if k = 0 then [3] else []), pbmap = (\<lambda>_ _. False), free_area = (\<lambda>_. 0)\<rparr>" 3 "[]"]
  by simp

end
