(* ===== verification/Slab_Pool.thy ===== *)
theory Slab_Pool
  imports Slab_Spec Buddy
begin

text \<open>
  The pool of slabs of \<^verbatim>\<open>src/src/mem_pool/pure_slab_pool.cpp\<close>: one chain of pools per size class. The
  blocks and pools are laid out as in \<open>Slab\<close>, so the store (\<open>heap\<close>) and the loops that chain the
  blocks and search a pool are those of that theory; the fields of \<open>slab\<close> that belong to an object
  of the other class (\<open>m_\<dots>\<close>, \<open>mp_mpool\<close>) are not used. Line 238 of the file lacks a closing
  parenthesis; wherever it is put, the expression has the value modelled here.
\<close>

section \<open>Data\<close>

record slab_pool =
  heap :: slab
  pmpool :: "addr option list"
  mbsize :: "32 word list"
  lvl :: int
  poolnum :: "32 word"
  poolsize :: "32 word list"
  initialsize :: "32 word list"

text \<open>\<open>Exit0\<close> is \<^verbatim>\<open>exit(0)\<close>; \<open>Fault\<close> is an access through a null pointer or out of an array, a
  division by zero, an uncaught exception, or a call that does not return.\<close>

datatype 'a sp_result = Exit0 | Fault | Ret 'a

section \<open>Operations\<close>

text \<open>\<^verbatim>\<open>memset(z, 0, l)\<close>\<close>

definition zero_mem :: "addr \<Rightarrow> 32 word \<Rightarrow> slab \<Rightarrow> slab" where
  "zero_mem z l h =
     h\<lparr>pre := (\<lambda>a. if a \<in> zone_set (z, l) then None else pre h a),
        nxt := (\<lambda>a. if a \<in> zone_set (z, l) then None else nxt h a),
        mp := (\<lambda>a. if a \<in> zone_set (z, l) then 0 else mp h a),
        pnext := (\<lambda>a. if a \<in> zone_set (z, l) then None else pnext h a),
        usedhead := (\<lambda>a. if a \<in> zone_set (z, l) then None else usedhead h a),
        freehead := (\<lambda>a. if a \<in> zone_set (z, l) then None else freehead h a),
        plength := (\<lambda>a. if a \<in> zone_set (z, l) then 0 else plength h a)\<rparr>"

definition CreatePool :: "malloc \<Rightarrow> addr option \<Rightarrow> 32 word \<Rightarrow> slab_pool \<Rightarrow> (addr option \<times> slab_pool) sp_result" where
  "CreatePool ml p l s =
     (let h = heap s in
      case p of
        None \<Rightarrow>
          (case ml (zones h) l of
             None \<Rightarrow> Exit0
           | Some m \<Rightarrow>
               let h1 = zero_mem m l (h\<lparr>zones := (m, l) # zones h\<rparr>);
                   h2 = h1\<lparr>pnext := (pnext h1)(m := None), plength := (plength h1)(m := l)\<rparr>
               in Ret (Some m, s\<lparr>heap := h2, poolnum := poolnum s + 1\<rparr>))
      | Some a \<Rightarrow>
          if pnext h a = None then
            (case ml (zones h) l of
               None \<Rightarrow> Exit0
             | Some m \<Rightarrow>
                 let h1 = zero_mem m l (h\<lparr>zones := (m, l) # zones h, pnext := (pnext h)(a := Some m)\<rparr>);
                     h2 = h1\<lparr>pnext := (pnext h1)(m := None), plength := (plength h1)(m := l)\<rparr>
                 in Ret (Some m, s\<lparr>heap := h2, poolnum := poolnum s + 1\<rparr>))
          else Ret (None, s))"

text \<open>The loop over the blocks is that of \<open>init_memblock\<close>; \<open>None\<close>: it does not end.\<close>

definition InitMemblock :: "addr \<Rightarrow> 32 word \<Rightarrow> slab_pool \<Rightarrow> slab_pool option" where
  "InitMemblock p ul s =
     (let pos = p + unat sizeof_mempool; h = (heap s)\<lparr>freehead := (freehead (heap s))(p := Some pos)\<rparr> in
      case init_memblock_loop p ul pos sizeof_mempool None h of
        None \<Rightarrow> None
      | Some h' \<Rightarrow> Some (s\<lparr>heap := h'\<lparr>usedhead := (usedhead h')(p := None)\<rparr>\<rparr>))"

text \<open>The last part of \<^verbatim>\<open>MPAlloc\<close>: the block at the head of the free list moves to the used list.\<close>

definition move_block :: "addr \<Rightarrow> addr \<Rightarrow> slab \<Rightarrow> slab" where
  "move_block p b h =
     (let h1 = h\<lparr>freehead := (freehead h)(p := nxt h b)\<rparr>;
          h2 = (case freehead h1 p of None \<Rightarrow> h1 | Some f \<Rightarrow> h1\<lparr>pre := (pre h1)(f := None)\<rparr>);
          h3 = h2\<lparr>mp := (mp h2)(b := p)\<rparr>;
          h4 = (case usedhead h3 p of None \<Rightarrow> h3 | Some u \<Rightarrow> h3\<lparr>pre := (pre h3)(u := Some b)\<rparr>);
          h5 = h4\<lparr>nxt := (nxt h4)(b := usedhead h4 p)\<rparr>;
          h6 = h5\<lparr>usedhead := (usedhead h5)(p := Some b)\<rparr>
      in h6\<lparr>pre := (pre h6)(b := None)\<rparr>)"

definition give_block :: "addr \<Rightarrow> slab_pool \<Rightarrow> (addr option \<times> slab_pool) sp_result" where
  "give_block p s =
     (case freehead (heap s) p of
        None \<Rightarrow> Fault
      | Some b \<Rightarrow> Ret (Some (b + unat sizeof_memblock), s\<lparr>heap := move_block p b (heap s)\<rparr>))"

definition MPAlloc :: "malloc \<Rightarrow> addr \<Rightarrow> nat \<Rightarrow> slab_pool \<Rightarrow> (addr option \<times> slab_pool) sp_result" where
  "MPAlloc ml p0 ilvl s =
     (case find_pool (heap s) p0 of
        None \<Rightarrow> Fault
      | Some p \<Rightarrow>
          if freehead (heap s) p = None \<and> pnext (heap s) p = None then
            (case CreatePool ml (Some p) (poolsize s ! ilvl) s of
               Exit0 \<Rightarrow> Exit0
             | Fault \<Rightarrow> Fault
             | Ret (None, s1) \<Rightarrow> Ret (None, s1)
             | Ret (Some q, s1) \<Rightarrow>
                 (case InitMemblock q (mbsize s1 ! ilvl) s1 of
                    None \<Rightarrow> Fault
                  | Some s2 \<Rightarrow> give_block q s2))
          else give_block p s)"

text \<open>The size class of a request: \<^verbatim>\<open>l\<close> is widened to 64 bits, the quotient cut to an \<^verbatim>\<open>int\<close>.\<close>

definition pool_class :: "32 word \<Rightarrow> 32 word \<Rightarrow> nat" where
  "pool_class mb0 l =
     (let i = ucast ((scast l + 24 - 1 :: 64 word) div ucast mb0) :: 32 word
      in if sint i > 0 then bsr i else 0)"

definition pool_Alloc :: "malloc \<Rightarrow> 32 word \<Rightarrow> slab_pool \<Rightarrow> (addr option \<times> slab_pool) sp_result" where
  "pool_Alloc ml l s =
     (if mbsize s = [] \<or> mbsize s ! 0 = 0 then Fault
      else
        let bitp = pool_class (mbsize s ! 0) l in
        if int bitp > lvl s then Ret (None, s)
        else case pmpool s ! bitp of None \<Rightarrow> Fault | Some pmp \<Rightarrow> MPAlloc ml pmp bitp s)"

definition pool_Free :: "addr \<Rightarrow> slab_pool \<Rightarrow> slab_pool" where
  "pool_Free data s =
     (let h = heap s; pmb = data - unat sizeof_memblock; pmp = mp h pmb;
          h2 = (case pre h pmb of
                  Some b \<Rightarrow>
                    let h1 = h\<lparr>nxt := (nxt h)(b := nxt h pmb)\<rparr> in
                    (case nxt h1 pmb of None \<Rightarrow> h1 | Some n \<Rightarrow> h1\<lparr>pre := (pre h1)(n := pre h1 pmb)\<rparr>)
                | None \<Rightarrow>
                    let h1 = h\<lparr>usedhead := (usedhead h)(pmp := nxt h pmb)\<rparr> in
                    (case usedhead h1 pmp of None \<Rightarrow> h1 | Some u \<Rightarrow> h1\<lparr>pre := (pre h1)(u := None)\<rparr>));
          h3 = (case freehead h2 pmp of None \<Rightarrow> h2 | Some f \<Rightarrow> h2\<lparr>pre := (pre h2)(f := Some pmb)\<rparr>);
          h4 = h3\<lparr>pre := (pre h3)(pmb := None)\<rparr>;
          h5 = h4\<lparr>nxt := (nxt h4)(pmb := freehead h4 pmp)\<rparr>
      in s\<lparr>heap := h5\<lparr>freehead := (freehead h5)(pmp := Some pmb)\<rparr>\<rparr>)"

text \<open>The second loop of the constructor.\<close>

fun build_pools :: "malloc \<Rightarrow> nat list \<Rightarrow> slab_pool \<Rightarrow> slab_pool sp_result" where
  "build_pools ml [] s = Ret s"
| "build_pools ml (i # is) s =
     (case CreatePool ml None (initialsize s ! i) s of
        Exit0 \<Rightarrow> Exit0
      | Fault \<Rightarrow> Fault
      | Ret (None, s1) \<Rightarrow> build_pools ml is (s1\<lparr>pmpool := (pmpool s1)[i := None]\<rparr>)
      | Ret (Some q, s1) \<Rightarrow>
          (case InitMemblock q (mbsize s1 ! i) (s1\<lparr>pmpool := (pmpool s1)[i := Some q]\<rparr>) of
             None \<Rightarrow> Fault
           | Some s2 \<Rightarrow> build_pools ml is s2))"

text \<open>\<^verbatim>\<open>new[]\<close> with a negative length throws. A shift by 32 or more is undefined in the language.\<close>

definition pure_slab_pool :: "malloc \<Rightarrow> slab \<Rightarrow> 32 word \<Rightarrow> int \<Rightarrow> slab_pool sp_result" where
  "pure_slab_pool ml h size' ilvl =
     (if ilvl < - 1 then Fault
      else
        let alignedsize = pure_align_u32 size' 8; n = nat (ilvl + 1);
            mbs = map (\<lambda>i. push_bit i alignedsize + sizeof_memblock) [0..<n];
            ini = map (\<lambda>mb. push_bit 6 (pure_align_u32 mb 16)) mbs
        in build_pools ml [0..<n]
             \<lparr>heap = h, pmpool = replicate n None, mbsize = mbs, lvl = ilvl, poolnum = 0, poolsize = ini, initialsize = ini\<rparr>)"

partial_function (option) free_chain :: "addr option \<Rightarrow> slab \<Rightarrow> slab option" where
  "free_chain dpmp h =
     (case dpmp of None \<Rightarrow> Some h | Some pmp \<Rightarrow> free_chain (pnext h pmp) (delete_zone pmp h))"

definition pool_Destroy :: "nat \<Rightarrow> slab_pool \<Rightarrow> slab_pool option" where
  "pool_Destroy i s =
     (case free_chain (pmpool s ! i) (heap s) of
        None \<Rightarrow> None
      | Some h \<Rightarrow> Some (s\<lparr>heap := h, pmpool := (pmpool s)[i := None]\<rparr>))"

text \<open>The destructor: the store it leaves.\<close>

fun destroy_levels :: "nat list \<Rightarrow> slab_pool \<Rightarrow> slab option" where
  "destroy_levels [] s = Some (heap s)"
| "destroy_levels (i # is) s = (case pool_Destroy i s of None \<Rightarrow> None | Some s1 \<Rightarrow> destroy_levels is s1)"

definition pure_slab_pool_destructor :: "slab_pool \<Rightarrow> slab option" where
  "pure_slab_pool_destructor s = destroy_levels [0..<nat (lvl s + 1)] s"

end
