(* ===== verification/Slab_Pool_Proofs.thy ===== *)
theory Slab_Pool_Proofs
  imports Slab_Pool
begin

text \<open>
  The invariant of the pool of slabs: every size class, seen as a slab of its own (\<open>level\<close>), keeps the
  invariant of \<open>Slab_Proofs\<close>, and the pools of different classes share no byte. From this the
  allocator contract follows, and with the arithmetic of the size classes how much room a block has.
\<close>

section \<open>One size class as a slab\<close>

definition level :: "nat \<Rightarrow> slab_pool \<Rightarrow> slab" where
  "level k s = (heap s)\<lparr>mp_mpool := pmpool s ! k, m_mbsize := mbsize s ! k, m_poolsize := poolsize s ! k, m_alignedsize := 24\<rparr>"

lemma level_sel [simp]:
  "pre (level k s) = pre (heap s)" "nxt (level k s) = nxt (heap s)" "mp (level k s) = mp (heap s)"
  "pnext (level k s) = pnext (heap s)" "usedhead (level k s) = usedhead (heap s)" "freehead (level k s) = freehead (heap s)"
  "plength (level k s) = plength (heap s)" "zones (level k s) = zones (heap s)" "mp_mpool (level k s) = pmpool s ! k"
  "m_mbsize (level k s) = mbsize s ! k" "m_poolsize (level k s) = poolsize s ! k" "m_alignedsize (level k s) = 24"
  by (simp_all add: level_def)

lemma own_level [simp]: "own (level k s) q = own (heap s) q"
  by (simp add: own_def)

definition agree :: "addr set \<Rightarrow> slab \<Rightarrow> slab \<Rightarrow> bool" where
  "agree A h h' \<longleftrightarrow> (\<forall>x \<in> A. nxt h' x = nxt h x \<and> pre h' x = pre h x \<and> mp h' x = mp h x \<and> pnext h' x = pnext h x
     \<and> usedhead h' x = usedhead h x \<and> freehead h' x = freehead h x \<and> plength h' x = plength h x)"

abbreviation region :: "slab \<Rightarrow> addr list \<Rightarrow> addr set" where
  "region h Q \<equiv> \<Union>q \<in> set Q. own h q"

lemma slab_inv_self: "slab_inv s Q F V \<Longrightarrow> q \<in> set Q \<Longrightarrow> q \<in> own s q"
  by (auto simp: slab_inv_def pool_ok_def own_def)

text \<open>The invariant of a class reads nothing outside its own pools.\<close>

lemma slab_inv_frame:
  assumes inv: "slab_inv s Q F V" and ag: "agree (region s Q) s s'"
    and e: "mp_mpool s' = mp_mpool s" "m_mbsize s' = m_mbsize s" "m_poolsize s' = m_poolsize s" "m_alignedsize s' = m_alignedsize s"
    and z: "set (zones s) \<subseteq> set (zones s')"
  shows "slab_inv s' Q F V"
proof -
  have at: "nxt s' x = nxt s x \<and> pre s' x = pre s x \<and> mp s' x = mp s x \<and> pnext s' x = pnext s x
    \<and> usedhead s' x = usedhead s x \<and> freehead s' x = freehead s x \<and> plength s' x = plength s x"
    if "q \<in> set Q" "x \<in> own s q" for q x using ag that unfolding agree_def by blast
  note self = at [OF _ slab_inv_self [OF inv]]
  have sz: "slab_sized s" and po: "pools_ok s Q" using inv by (simp_all add: slab_inv_def)
  have ow: "own s' q = own s q" if "q \<in> set Q" for q using self [OF that that] by (simp add: own_def)
  have "path (pnext s') (mp_mpool s') Q"
    unfolding e by (rule path_cong [of "pnext s"]) (use po self in \<open>auto simp: pools_ok_def\<close>)
  moreover have "\<exists>y \<in> set (zones s'). own s' q \<subseteq> zone_set y" if "q \<in> set Q" for q
    using po that z ow [OF that] unfolding pools_ok_def by blast
  moreover have "own s' q \<inter> own s' r = {}" if "q \<in> set Q" "r \<in> set Q" "q \<noteq> r" for q r
    using po that ow unfolding pools_ok_def by blast
  ultimately have "pools_ok s' Q" using po unfolding pools_ok_def by blast
  moreover have "pool_ok s' q (F q) (V q)" if q: "q \<in> set Q" for q
  proof (rule pool_ok_cong [of s])
    show "pool_ok s q (F q) (V q)" using inv q by (simp add: slab_inv_def)
    show "freehead s' q = freehead s q" "usedhead s' q = usedhead s q" "plength s' q = plength s q" "m_mbsize s' = m_mbsize s"
      using self [OF q q] e by simp_all
    show "nxt s' x = nxt s x \<and> pre s' x = pre s x \<and> mp s' x = mp s x" if "x \<in> set (pool_blocks s q)" for x
      using at [OF q pool_block_in_own [OF that sz]] by blast
  qed
  moreover have "slab_sized s'" using sz e by (simp add: slab_sized_def)
  ultimately show ?thesis by (simp add: slab_inv_def)
qed

lemma same_but_agree:
  assumes sb: "same_but q s s'" and sz: "slab_sized s" and d: "A \<inter> own s q = {}" "q \<in> own s q"
  shows "agree A s s'"
proof -
  have "x \<notin> set (pool_blocks s q) \<and> x \<noteq> q" if "x \<in> A" for x
    using pool_block_in_own [OF _ sz, of x q] d that by blast
  then show ?thesis using sb unfolding agree_def same_but_def by simp
qed

section \<open>All size classes\<close>

definition levels :: "slab_pool \<Rightarrow> nat" where
  "levels s = nat (lvl s + 1)"

definition sp_on :: "nat set \<Rightarrow> slab_pool \<Rightarrow> (nat \<Rightarrow> addr list) \<Rightarrow> (nat \<Rightarrow> addr \<Rightarrow> addr list) \<Rightarrow> (nat \<Rightarrow> addr \<Rightarrow> addr list) \<Rightarrow> bool" where
  "sp_on K s Q F V \<longleftrightarrow> (\<forall>k \<in> K. slab_inv (level k s) (Q k) (F k) (V k))
     \<and> (\<forall>j \<in> K. \<forall>k \<in> K. j \<noteq> k \<longrightarrow> region (heap s) (Q j) \<inter> region (heap s) (Q k) = {})"

definition sp_inv :: "slab_pool \<Rightarrow> (nat \<Rightarrow> addr list) \<Rightarrow> (nat \<Rightarrow> addr \<Rightarrow> addr list) \<Rightarrow> (nat \<Rightarrow> addr \<Rightarrow> addr list) \<Rightarrow> bool" where
  "sp_inv s Q F V \<longleftrightarrow> 0 < levels s \<and> length (mbsize s) = levels s \<and> sp_on {..<levels s} s Q F V"

lemma sp_onD: "sp_on K s Q F V \<Longrightarrow> k \<in> K \<Longrightarrow> slab_inv (level k s) (Q k) (F k) (V k)"
  "sp_on K s Q F V \<Longrightarrow> j \<in> K \<Longrightarrow> k \<in> K \<Longrightarrow> j \<noteq> k \<Longrightarrow> region (heap s) (Q j) \<inter> region (heap s) (Q k) = {}"
  unfolding sp_on_def by blast+

text \<open>The classes in \<open>K\<close> hold; one more class, or one of them, gets new pools.\<close>

lemma sp_on_update:
  assumes on: "sp_on K s Q F V" and new: "slab_inv (level k s') Qk Fk Vk"
    and e: "\<And>j. j \<in> K \<Longrightarrow> j \<noteq> k \<Longrightarrow> pmpool s' ! j = pmpool s ! j" "mbsize s' = mbsize s" "poolsize s' = poolsize s"
    and z: "set (zones (heap s)) \<subseteq> set (zones (heap s'))"
    and ag: "\<And>j. j \<in> K \<Longrightarrow> j \<noteq> k \<Longrightarrow> agree (region (heap s) (Q j)) (heap s) (heap s')"
    and dj: "\<And>j. j \<in> K \<Longrightarrow> j \<noteq> k \<Longrightarrow> region (heap s) (Q j) \<inter> region (heap s') Qk = {}"
  shows "sp_on (insert k K) s' (Q(k := Qk)) (F(k := Fk)) (V(k := Vk))"
proof -
  have other: "slab_inv (level j s') (Q j) (F j) (V j)" if j: "j \<in> K" "j \<noteq> k" for j
  proof (rule slab_inv_frame [OF sp_onD(1) [OF on j(1)]])
    show "agree (region (level j s) (Q j)) (level j s) (level j s')" using ag [OF j] by (simp add: agree_def)
  qed (use e j z in simp_all)
  have reg: "region (heap s') (Q j) = region (heap s) (Q j)" if j: "j \<in> K" "j \<noteq> k" for j
  proof -
    have "own (heap s') q = own (heap s) q" if "q \<in> set (Q j)" for q
      using ag [OF j] slab_inv_self [OF sp_onD(1) [OF on j(1)] that] that unfolding agree_def own_def by fastforce
    then show ?thesis by simp
  qed
  have "region (heap s') ((Q(k := Qk)) i) \<inter> region (heap s') ((Q(k := Qk)) j) = {}"
    if ij: "i \<in> insert k K" "j \<in> insert k K" "i \<noteq> j" for i j
  proof -
    consider "i = k" "j \<in> K" | "j = k" "i \<in> K" | "i \<in> K" "j \<in> K" "i \<noteq> k" "j \<noteq> k" using ij by blast
    then show ?thesis
    proof cases
      case 1
      then have "region (heap s') (Q j) \<inter> region (heap s') Qk = {}" using reg [of j] dj [of j] ij by simp
      then show ?thesis using 1 ij(3) by (simp add: Int_commute)
    next
      case 2
      then have "region (heap s') (Q i) \<inter> region (heap s') Qk = {}" using reg [of i] dj [of i] ij by simp
      then show ?thesis using 2 ij(3) by simp
    next
      case 3
      then have "region (heap s) (Q i) \<inter> region (heap s) (Q j) = {}" using sp_onD(2) [OF on] ij by blast
      then show ?thesis using 3 reg by simp
    qed
  qed
  then show ?thesis using new other unfolding sp_on_def by simp
qed

lemma sp_inv_inside:
  assumes inv: "sp_inv s Q F V" and k: "k < levels s" and q: "q \<in> set (Q k)"
    and s': "s' = s\<lparr>heap := h\<rparr>" and sb: "same_but q (level k s) (level k s')" and ok: "pool_ok (level k s') q fl ul"
  shows "sp_inv s' Q (F(k := (F k)(q := fl))) (V(k := (V k)(q := ul)))"
proof -
  have on: "sp_on {..<levels s} s Q F V" using inv by (simp add: sp_inv_def)
  have ik: "slab_inv (level k s) (Q k) (F k) (V k)" using sp_onD(1) [OF on] k by simp
  have f: "zones (heap s') = zones (heap s)" "plength (heap s') = plength (heap s)" using sb by (simp_all add: same_but_def)
  have rs: "own (heap s) q \<subseteq> region (heap s) (Q k)" using q by blast
  have ow: "own (heap s') r = own (heap s) r" for r using f by (simp add: own_def)
  have dj: "region (heap s) (Q j) \<inter> region (heap s) (Q k) = {}" if "j < levels s" "j \<noteq> k" for j
    using sp_onD(2) [OF on, of j k] k that by simp
  have "sp_on (insert k {..<levels s}) s' (Q(k := Q k)) (F(k := (F k)(q := fl))) (V(k := (V k)(q := ul)))"
  proof (rule sp_on_update [OF on slab_inv_update [OF ik q sb ok]])
    show "agree (region (heap s) (Q j)) (heap s) (heap s')" if j: "j \<in> {..<levels s}" "j \<noteq> k" for j
    proof -
      have "agree (region (heap s) (Q j)) (level k s) (level k s')"
        by (rule same_but_agree [OF sb]) (use ik slab_inv_self [OF ik q] dj [of j] j rs in \<open>auto simp: slab_inv_def\<close>)
      then show ?thesis by (simp add: agree_def)
    qed
    show "region (heap s) (Q j) \<inter> region (heap s') (Q k) = {}" if j: "j \<in> {..<levels s}" "j \<noteq> k" for j
      using dj [of j] j by (simp add: ow)
  qed (simp_all add: s' f [unfolded s', simplified])
  moreover have "insert k {..<levels s} = {..<levels s}" "levels s' = levels s" "mbsize s' = mbsize s"
    using k by (auto simp: s' levels_def)
  ultimately show ?thesis using inv by (simp add: sp_inv_def)
qed

section \<open>Moving a block\<close>

lemma level_move_block:
  "level k (s\<lparr>heap := move_block q b (heap s)\<rparr>) = (snd (take_block q b (level k s)))\<lparr>m_alloced_num := m_alloced_num (heap s)\<rparr>"
  by (simp add: level_def move_block_def take_block_def Let_def split: option.splits)

lemma pool_ok_num [simp]: "pool_ok (s\<lparr>m_alloced_num := v\<rparr>) q fl ul = pool_ok s q fl ul"
  by (simp add: pool_ok_def pool_blocks_def)

lemma same_but_num [simp]: "same_but q s (s'\<lparr>m_alloced_num := v\<rparr>) = same_but q s s'"
  by (simp add: same_but_def)

lemma sp_inv_move:
  assumes inv: "sp_inv s Q F V" and k: "k < levels s" and q: "q \<in> set (Q k)" and F: "F k q = b # fl"
  shows "sp_inv (s\<lparr>heap := move_block q b (heap s)\<rparr>) Q (F(k := (F k)(q := fl))) (V(k := (V k)(q := b # V k q)))"
proof -
  have ik: "slab_inv (level k s) (Q k) (F k) (V k)" using inv k by (simp add: sp_inv_def sp_on_def)
  then have ok: "pool_ok (level k s) q (b # fl) (V k q)" using q F by (metis slab_inv_def)
  show ?thesis
    by (rule sp_inv_inside [OF inv k q refl]) (simp_all add: level_move_block take_block_ok [OF ok])
qed

lemma level_Free: "level k (pool_Free p s) = (slab_free p (level k s))\<lparr>m_alloced_num := m_alloced_num (heap s)\<rparr>"
proof (cases "pre (heap s) (p - 24)")
  case None
  then show ?thesis
    by (cases "nxt (heap s) (p - 24)"; cases "freehead (heap s) (mp (heap s) (p - 24))")
      (simp_all add: level_def pool_Free_def slab_free_def sizeof_memblock_def Let_def)
next
  case (Some b)
  then show ?thesis
    by (cases "((nxt (heap s))(b := nxt (heap s) (p - 24))) (p - 24)"; cases "freehead (heap s) (mp (heap s) (p - 24))")
      (simp_all add: level_def pool_Free_def slab_free_def sizeof_memblock_def Let_def del: fun_upd_apply)
qed

lemma sp_inv_Free:
  assumes inv: "sp_inv s Q F V" and k: "k < levels s" and q: "q \<in> set (Q k)" and V: "V k q = xs @ b # ys"
  shows "sp_inv (pool_Free (b + 24) s) Q (F(k := (F k)(q := b # F k q))) (V(k := (V k)(q := xs @ ys)))"
proof -
  have ik: "slab_inv (level k s) (Q k) (F k) (V k)" using inv k by (simp add: sp_inv_def sp_on_def)
  then have ok: "pool_ok (level k s) q (F k q) (xs @ b # ys)" using q V by (metis slab_inv_def)
  have al: "m_alignedsize (level k s) = 24" by simp
  have e: "pool_Free (b + 24) s = s\<lparr>heap := heap (pool_Free (b + 24) s)\<rparr>" by (simp add: pool_Free_def Let_def)
  show ?thesis
    by (rule sp_inv_inside [OF inv k q e]) (simp_all add: level_Free slab_free_ok [OF al ok])
qed


section \<open>A new pool of a class\<close>

definition opened :: "addr option \<Rightarrow> addr \<Rightarrow> 32 word \<Rightarrow> slab \<Rightarrow> slab" where
  "opened p m l h = (let h0 = zero_mem m l h in
     h0\<lparr>zones := (m, l) # zones h, pnext := linked p m h0, plength := (plength h0)(m := l)\<rparr>)"

lemma CreatePool_first:
  "ml (zones (heap s)) l = Some m
    \<Longrightarrow> CreatePool ml None l s = Ret (Some m, s\<lparr>heap := opened None m l (heap s), poolnum := poolnum s + 1\<rparr>)"
  by (simp add: CreatePool_def opened_def linked_def zero_mem_def Let_def cong: if_cong)

lemma CreatePool_next:
  assumes "ml (zones (heap s)) l = Some m" "pnext (heap s) a = None" "a \<notin> zone_set (m, l)"
  shows "CreatePool ml (Some a) l s = Ret (Some m, s\<lparr>heap := opened (Some a) m l (heap s), poolnum := poolnum s + 1\<rparr>)"
proof -
  have "(\<lambda>x. if x \<in> zone_set (m, l) then None else ((pnext (heap s))(a := Some m)) x)
    = (\<lambda>x. if x \<in> zone_set (m, l) then None else pnext (heap s) x)(a := Some m)"
    using assms(3) by auto
  then show ?thesis using assms by (simp add: CreatePool_def opened_def linked_def zero_mem_def Let_def del: fun_upd_apply cong: if_cong)
qed

lemma zero_mem_agree: "A \<inter> zone_set (z, l) = {} \<Longrightarrow> agree A h (zero_mem z l h)"
  by (auto simp: agree_def zero_mem_def)

lemma zero_mem_sel [simp]:
  "zones (zero_mem z l h) = zones h" "mp_mpool (zero_mem z l h) = mp_mpool h" "m_mbsize (zero_mem z l h) = m_mbsize h"
  "m_poolsize (zero_mem z l h) = m_poolsize h" "m_alignedsize (zero_mem z l h) = m_alignedsize h"
  "m_max_num (zero_mem z l h) = m_max_num h" "m_alloced_num (zero_mem z l h) = m_alloced_num h"
  by (simp_all add: zero_mem_def)

lemma fresh_region:
  assumes "slab_inv s Q F V" "malloc_fresh ml" "ml (zones s) l = Some m"
  shows "region s Q \<inter> zone_set (m, l) = {}"
proof -
  have "own s q \<inter> zone_set (m, l) = {}" if q: "q \<in> set Q" for q
  proof -
    obtain y where y: "y \<in> set (zones s)" "own s q \<subseteq> zone_set y"
      using assms(1) q unfolding slab_inv_def pools_ok_def by blast
    have "zone_set (m, l) \<inter> zone_set y = {}"
      using assms(2) [unfolded malloc_fresh_def, rule_format, OF assms(3) y(1)] .
    then show ?thesis using y(2) by blast
  qed
  then show ?thesis by blast
qed

text \<open>A pool opened in a fresh zone is a new pool of its class.\<close>

lemma opened_new_pool:
  assumes mb: "24 \<le> unat (mbsize s ! k)" "32 + unat (mbsize s ! k) \<le> unat l"
    and s1: "heap s1 = opened p m l (heap s)" "mbsize s1 = mbsize s" "poolsize s1 = poolsize s"
    and s0: "s0 = s1\<lparr>heap := zero_mem m l (heap s)\<rparr>"
  shows "\<exists>h. InitMemblock m (mbsize s ! k) s1 = Some (s1\<lparr>heap := h\<rparr>) \<and> new_pool m (level k s0) (level k (s1\<lparr>heap := h\<rparr>))
    \<and> zones h = (m, l) # zones (heap s) \<and> pnext h = linked p m (heap s0)
    \<and> (\<forall>x. x \<notin> zone_set (m, l) \<and> p \<noteq> Some x \<longrightarrow> agree {x} (heap s) h)"
proof -
  let ?u = "mbsize s ! k" and ?h1 = "opened p m l (heap s)" and ?h0 = "zero_mem m l (heap s)"
  have h1: "plength ?h1 m = l" by (simp add: opened_def Let_def)
  obtain h where run: "init_memblock m ?u ?h1 = Some h" and ok: "pool_ok (h\<lparr>m_mbsize := ?u\<rparr>) m (pool_blocks (?h1\<lparr>m_mbsize := ?u\<rparr>) m) []"
      "pool_blocks (?h1\<lparr>m_mbsize := ?u\<rparr>) m \<noteq> []" "\<forall>x. x \<notin> own ?h1 m \<longrightarrow> nxt h x = nxt ?h1 x \<and> pre h x = pre ?h1 x"
    and e: "h = ?h1\<lparr>pre := pre h, nxt := nxt h, freehead := (freehead ?h1)(m := Some (m + 32)), usedhead := (usedhead ?h1)(m := None)\<rparr>"
    using init_memblock_run [of ?u ?h1 m] mb h1 by auto
  have fs: "zones h = (m, l) # zones (heap s)" "pnext h = linked p m ?h0" "plength h = (plength ?h0)(m := l)" "mp h = mp ?h0"
    "freehead h = (freehead ?h0)(m := Some (m + 32))" "usedhead h = (usedhead ?h0)(m := None)"
    "m_max_num h = m_max_num ?h0" "m_alloced_num h = m_alloced_num ?h0"
    by (subst e, simp add: opened_def Let_def)+
  have o1: "own ?h1 m = zone_set (m, l)" by (simp add: own_def h1 zone_set_def)
  have out: "nxt h x = nxt ?h0 x \<and> pre h x = pre ?h0 x" if "x \<notin> zone_set (m, l)" for x
    using ok(3) that unfolding o1 by (simp add: opened_def Let_def)
  let ?s2 = "s1\<lparr>heap := h\<rparr>"
  have a: "InitMemblock m ?u s1 = Some ?s2"
    using run by (auto simp: InitMemblock_def init_memblock_def s1(1) sizeof_mempool_def pure_align_u32_def Let_def split: option.splits)
  have lv: "pool_ok (level k ?s2) m B [] = pool_ok (h\<lparr>m_mbsize := ?u\<rparr>) m B []" for B
    by (simp add: pool_ok_def pool_blocks_def s1)
  have pb: "pool_blocks (level k ?s2) m = pool_blocks (?h1\<lparr>m_mbsize := ?u\<rparr>) m"
    by (simp add: pool_blocks_def s1 fs h1)
  have np: "new_pool m (level k s0) (level k ?s2)"
    unfolding new_pool_def pb lv using ok out by (simp add: s0 s1 fs own_def zone_set_def level_def)
  have "agree {x} (heap s) h" if "x \<notin> zone_set (m, l)" "p \<noteq> Some x" for x
  proof -
    have "m \<in> zone_set (m, l)" using mb by (auto simp: zone_set_def)
    then have "x \<noteq> m" using that(1) by blast
    then show ?thesis using that out [OF that(1)]
      by (auto simp: agree_def fs linked_def zero_mem_def split: option.splits)
  qed
  then show ?thesis using a np fs by (auto simp: s0)
qed


lemma agree_all: "(\<And>x. x \<in> A \<Longrightarrow> agree {x} h h') \<Longrightarrow> agree A h h'"
  by (simp add: agree_def)

lemma slab_inv_sizes:
  assumes "slab_inv (level k s) Q F V"
  shows "24 \<le> unat (mbsize s ! k)" "32 + unat (mbsize s ! k) \<le> unat (poolsize s ! k)" "slab_sized (level k s)"
  using assms by (auto simp: slab_inv_def slab_sized_def)

lemma sp_on_grow:
  assumes on: "sp_on K s Q F V" and k: "k \<in> K" and ml: "malloc_fresh ml" "ml (zones (heap s)) (poolsize s ! k) = Some m"
    and s1: "heap s1 = opened (Some (last (Q k))) m (poolsize s ! k) (heap s)" "mbsize s1 = mbsize s" "poolsize s1 = poolsize s"
      "pmpool s1 = pmpool s"
  shows "\<exists>h. InitMemblock m (mbsize s ! k) s1 = Some (s1\<lparr>heap := h\<rparr>) \<and> m \<notin> set (Q k) \<and> (\<exists>b fl. freehead h m = Some b
    \<and> sp_on K (s1\<lparr>heap := h\<rparr>) (Q(k := Q k @ [m])) (F(k := (F k)(m := b # fl))) (V(k := (V k)(m := []))))"
proof -
  let ?l = "poolsize s ! k" and ?s0 = "s1\<lparr>heap := zero_mem m (poolsize s ! k) (heap s)\<rparr>"
  have inv: "slab_inv (level k s) (Q k) (F k) (V k)" by (rule sp_onD(1) [OF on k])
  note sz = slab_inv_sizes [OF inv]
  have fresh: "region (heap s) (Q j) \<inter> zone_set (m, ?l) = {}" if "j \<in> K" for j
    using fresh_region [OF sp_onD(1) [OF on that], of ml ?l m] ml by simp
  have "agree (region (heap s) (Q k)) (heap s) (heap ?s0)" using zero_mem_agree fresh [OF k] by simp
  then have inv0: "slab_inv (level k ?s0) (Q k) (F k) (V k)"
    by (intro slab_inv_frame [OF inv]) (simp_all add: s1 agree_def)
  obtain h where h: "InitMemblock m (mbsize s ! k) s1 = Some (s1\<lparr>heap := h\<rparr>)" "zones h = (m, ?l) # zones (heap s)"
      "pnext h = linked (Some (last (Q k))) m (heap ?s0)"
    and np: "new_pool m (level k ?s0) (level k (s1\<lparr>heap := h\<rparr>))"
    and out: "\<forall>x. x \<notin> zone_set (m, ?l) \<and> Some (last (Q k)) \<noteq> Some x \<longrightarrow> agree {x} (heap s) h"
    using opened_new_pool [OF sz(1,2) s1(1-3) refl] by blast
  let ?s2 = "s1\<lparr>heap := h\<rparr>"
  have mz: "m \<in> zone_set (m, ?l)" using sz(2) by (auto simp: zone_set_def)
  have "zones (level k ?s2) = (m, ?l) # zones (level k ?s0)" "pnext (level k ?s2) = (pnext (level k ?s0))(last (Q k) := Some m, m := None)"
    "mp_mpool (level k ?s2) = mp_mpool (level k ?s0)" "slab_sized (level k ?s2)" "ml (zones (level k ?s0)) ?l = Some m"
    using h sz(3) ml(2) by (simp_all add: linked_def slab_sized_def s1)
  note g = slab_inv_grow [OF inv0 np ml(1) this(5,1-3) mz this(4)]
  obtain b fl where b: "pool_blocks (level k ?s2) m = b # fl" using np unfolding new_pool_def by (cases "pool_blocks (level k ?s2) m") auto
  have fh: "freehead h m = Some b" using np b by (simp add: new_pool_def pool_ok_def)
  have lq: "last (Q k) \<in> region (heap s) (Q k)"
    using slab_inv_self [OF inv, of "last (Q k)"] inv by (auto simp: slab_inv_def pools_ok_def)
  have dj: "region (heap s) (Q j) \<inter> region (heap s) (Q k) = {}" if "j \<in> K" "j \<noteq> k" for j
    using sp_onD(2) [OF on that(1) k that(2)] .
  have ow: "own h q = own (heap s) q" if q: "q \<in> set (Q k)" for q
  proof -
    have "q \<noteq> m" using g(2) q by blast
    then have "plength h q = plength (heap ?s0) q" using np unfolding new_pool_def by simp
    moreover have "q \<notin> zone_set (m, ?l)" using slab_inv_self [OF inv q] fresh [OF k] q by auto
    ultimately show ?thesis by (simp add: own_def zero_mem_def)
  qed
  have om: "own h m \<subseteq> zone_set (m, ?l)" using np h(2) by (simp add: new_pool_def)
  have "sp_on (insert k K) ?s2 (Q(k := Q k @ [m])) (F(k := (F k)(m := b # fl))) (V(k := (V k)(m := [])))"
  proof (rule sp_on_update [OF on])
    show "slab_inv (level k ?s2) (Q k @ [m]) ((F k)(m := b # fl)) ((V k)(m := []))" using g(1) unfolding b .
    show "agree (region (heap s) (Q j)) (heap s) (heap ?s2)" if j: "j \<in> K" "j \<noteq> k" for j
    proof (rule agree_all)
      fix x assume "x \<in> region (heap s) (Q j)"
      then have "x \<notin> zone_set (m, ?l)" "last (Q k) \<noteq> x" using fresh [OF j(1)] dj [OF j] lq by blast+
      then show "agree {x} (heap s) (heap ?s2)" using out by simp
    qed
    show "region (heap s) (Q j) \<inter> region (heap ?s2) (Q k @ [m]) = {}" if j: "j \<in> K" "j \<noteq> k" for j
      using fresh [OF j(1)] dj [OF j] om ow by (simp add: Int_Un_distrib) blast
  qed (use h s1 in \<open>auto\<close>)
  then show ?thesis using h(1) g(2) fh k by (auto simp: insert_absorb)
qed


section \<open>Allocation and release\<close>

text \<open>The pointers handed out, each with its size class.\<close>

definition handed :: "nat \<Rightarrow> (nat \<Rightarrow> addr list) \<Rightarrow> (nat \<Rightarrow> addr \<Rightarrow> addr list) \<Rightarrow> (addr \<times> nat) set" where
  "handed n Q V = (\<Union>k < n. (\<lambda>b. (b + 24, k)) ` used (Q k) (V k))"

definition sp_live :: "(addr \<times> nat) set \<Rightarrow> slab_pool \<Rightarrow> bool" where
  "sp_live P s \<longleftrightarrow> (\<exists>Q F V. sp_inv s Q F V \<and> P = handed (levels s) Q V)"

lemma handed_mem [simp]: "(p, k) \<in> handed n Q V \<longleftrightarrow> k < n \<and> (\<exists>b \<in> used (Q k) (V k). p = b + 24)"
  by (auto simp: handed_def)

lemma handed_used:
  assumes "used (Q' k) (V' k) = insert b (used (Q k) (V k))" "\<And>j. j \<noteq> k \<Longrightarrow> used (Q' j) (V' j) = used (Q j) (V j)" "k < n"
  shows "handed n Q' V' = insert (b + 24, k) (handed n Q V)"
proof (rule set_eqI)
  fix x show "x \<in> handed n Q' V' \<longleftrightarrow> x \<in> insert (b + 24, k) (handed n Q V)"
    by (cases x; cases "snd x = k") (use assms in auto)
qed

lemma used_cons: "q \<in> set Q \<Longrightarrow> used Q (V(q := b # V q)) = insert b (used Q V)"
  by (auto simp: used_def split: if_splits)

lemma used_new: "q \<notin> set Q \<Longrightarrow> used (Q @ [q]) (V(q := [])) = used Q V"
  by (auto simp: used_def split: if_splits)

lemma give_block_live:
  assumes inv: "sp_inv s Q F V" and k: "k < levels s" and q: "q \<in> set (Q k)" and f: "freehead (heap s) q = Some b"
  shows "give_block q s = Ret (Some (b + 24), s\<lparr>heap := move_block q b (heap s)\<rparr>)"
    "(b + 24, k) \<notin> handed (levels s) Q V"
    "sp_live (insert (b + 24, k) (handed (levels s) Q V)) (s\<lparr>heap := move_block q b (heap s)\<rparr>)"
proof -
  let ?s = "s\<lparr>heap := move_block q b (heap s)\<rparr>"
  have ik: "slab_inv (level k s) (Q k) (F k) (V k)" using inv k by (simp add: sp_inv_def sp_on_def)
  then have ok: "pool_ok (level k s) q (F k q) (V k q)" using q by (metis slab_inv_def)
  then obtain fl where F: "F k q = b # fl" using f by (cases "F k q") (auto simp: pool_ok_def)
  show "give_block q s = Ret (Some (b + 24), ?s)" by (simp add: give_block_def f sizeof_memblock_def)
  have "b \<notin> used (Q k) (V k)"
  proof
    assume "b \<in> used (Q k) (V k)"
    then obtain r where r: "r \<in> set (Q k)" "b \<in> set (V k r)" by (auto simp: used_def)
    then have "r = q" using used_pool [OF ik q r(1) _ r(2)] F by simp
    with r ok F show False by (simp add: pool_ok_def)
  qed
  then show "(b + 24, k) \<notin> handed (levels s) Q V" by simp
  have "handed (levels s) Q (V(k := (V k)(q := b # V k q))) = insert (b + 24, k) (handed (levels s) Q V)"
    by (rule handed_used) (use q k used_cons in auto)
  moreover have "levels ?s = levels s" by (simp add: levels_def)
  ultimately show "sp_live (insert (b + 24, k) (handed (levels s) Q V)) ?s"
    using sp_inv_move [of s Q F V k q b fl, OF inv k q F] unfolding sp_live_def by metis
qed

lemma MPAlloc_live:
  assumes inv: "sp_inv s Q F V" and k: "k < levels s" and ml: "malloc_fresh ml"
  obtains p0 where "pmpool s ! k = Some p0"
    "(ml (zones (heap s)) (poolsize s ! k) = None \<and> MPAlloc ml p0 k s = Exit0)
     \<or> (\<exists>p s'. MPAlloc ml p0 k s = Ret (Some p, s') \<and> (p, k) \<notin> handed (levels s) Q V
          \<and> sp_live (insert (p, k) (handed (levels s) Q V)) s' \<and> mbsize s' = mbsize s \<and> poolsize s' = poolsize s \<and> lvl s' = lvl s)"
proof -
  have on: "sp_on {..<levels s} s Q F V" using inv by (simp add: sp_inv_def)
  have ik: "slab_inv (level k s) (Q k) (F k) (V k)" using sp_onD(1) [OF on] k by simp
  then obtain p0 where p0: "pmpool s ! k = Some p0" "path (pnext (heap s)) (Some p0) (Q k)"
    unfolding slab_inv_def pools_ok_def by (cases "Q k") auto
  obtain r where r: "r \<in> set (Q k)" "find_pool (heap s) p0 = Some r"
    "freehead (heap s) r \<noteq> None \<or> pnext (heap s) r = None \<and> r = last (Q k)"
    using find_pool_spec [OF p0(2)] by blast
  show thesis
  proof (cases "freehead (heap s) r")
    case (Some b)
    then have "MPAlloc ml p0 k s = give_block r s" by (simp add: MPAlloc_def r(2))
    then show thesis using give_block_live [OF inv k r(1) Some] p0(1)
      by (intro that [of p0]) auto
  next
    case None
    then have lr: "pnext (heap s) r = None" "r = last (Q k)" using r(3) by blast+
    show thesis
    proof (cases "ml (zones (heap s)) (poolsize s ! k)")
      case n: None
      then have "MPAlloc ml p0 k s = Exit0" using None lr r(2) by (simp add: MPAlloc_def CreatePool_def)
      then show thesis using n p0(1) by (intro that [of p0]) auto
    next
      case m: (Some m)
      have "region (heap s) (Q k) \<inter> zone_set (m, poolsize s ! k) = {}"
        using fresh_region [OF ik ml, of "poolsize s ! k" m] m by simp
      then have rz: "r \<notin> zone_set (m, poolsize s ! k)" using slab_inv_self [OF ik r(1)] r(1) by auto
      let ?s1 = "s\<lparr>heap := opened (Some r) m (poolsize s ! k) (heap s), poolnum := poolnum s + 1\<rparr>"
      have kk: "k \<in> {..<levels s}" using k by simp
      from sp_on_grow [OF on kk ml m, of ?s1] obtain h b fl where
        h: "InitMemblock m (mbsize s ! k) ?s1 = Some (?s1\<lparr>heap := h\<rparr>)" "m \<notin> set (Q k)" "freehead h m = Some b"
        "sp_on {..<levels s} (?s1\<lparr>heap := h\<rparr>) (Q(k := Q k @ [m])) (F(k := (F k)(m := b # fl))) (V(k := (V k)(m := [])))"
        unfolding lr(2) by auto
      let ?s2 = "?s1\<lparr>heap := h\<rparr>" and ?Q = "Q(k := Q k @ [m])" and ?V = "V(k := (V k)(m := []))"
      have lv: "levels ?s2 = levels s" by (simp add: levels_def)
      have inv2: "sp_inv ?s2 ?Q (F(k := (F k)(m := b # fl))) ?V" using inv h(4) unfolding sp_inv_def lv by simp
      have hd: "handed (levels s) ?Q ?V = handed (levels s) Q V"
      proof -
        have "used (?Q j) (?V j) = used (Q j) (V j)" for j using used_new [OF h(2)] by simp
        then show ?thesis by (simp only: handed_def)
      qed
      have k2: "k < levels ?s2" and m2: "m \<in> set (?Q k)" and f2: "freehead (heap ?s2) m = Some b" using k lv h(3) by auto
      have "MPAlloc ml p0 k s = give_block m ?s2"
        unfolding MPAlloc_def using r(2) None lr(1) CreatePool_next [of ml s "poolsize s ! k" m r] m rz h(1) by simp
      then show thesis using give_block_live [OF inv2 k2 m2 f2] p0(1) unfolding lv hd
        by (intro that [of p0]) auto
    qed
  qed
qed


lemma pool_Alloc_live:
  assumes live: "sp_live P s" and ml: "malloc_fresh ml" and c: "k = pool_class (mbsize s ! 0) l"
  shows "if lvl s < int k then pool_Alloc ml l s = Ret (None, s)
    else (ml (zones (heap s)) (poolsize s ! k) = None \<and> pool_Alloc ml l s = Exit0)
      \<or> (\<exists>p s'. pool_Alloc ml l s = Ret (Some p, s') \<and> (p, k) \<notin> P \<and> sp_live (insert (p, k) P) s'
           \<and> mbsize s' = mbsize s \<and> poolsize s' = poolsize s \<and> lvl s' = lvl s)"
proof -
  obtain Q F V where inv: "sp_inv s Q F V" and P: "P = handed (levels s) Q V" using live by (auto simp: sp_live_def)
  have "slab_inv (level 0 s) (Q 0) (F 0) (V 0)" using inv by (simp add: sp_inv_def sp_on_def)
  then have "mbsize s ! 0 \<noteq> 0" using slab_inv_sizes(1) [of 0 s] by auto
  moreover have "mbsize s \<noteq> []" using inv by (auto simp: sp_inv_def)
  ultimately have run: "pool_Alloc ml l s = (if lvl s < int k then Ret (None, s)
      else case pmpool s ! k of None \<Rightarrow> Fault | Some pmp \<Rightarrow> MPAlloc ml pmp k s)"
    unfolding c by (simp add: pool_Alloc_def Let_def)
  show ?thesis
  proof (cases "lvl s < int k")
    case True
    then show ?thesis by (simp add: run)
  next
    case False
    then have "k < levels s" by (simp add: levels_def)
    then obtain p0 where p0: "pmpool s ! k = Some p0" and m:
      "(ml (zones (heap s)) (poolsize s ! k) = None \<and> MPAlloc ml p0 k s = Exit0)
       \<or> (\<exists>p s'. MPAlloc ml p0 k s = Ret (Some p, s') \<and> (p, k) \<notin> handed (levels s) Q V
          \<and> sp_live (insert (p, k) (handed (levels s) Q V)) s' \<and> mbsize s' = mbsize s \<and> poolsize s' = poolsize s \<and> lvl s' = lvl s)"
      using MPAlloc_live [OF inv _ ml] by blast
    have "pool_Alloc ml l s = MPAlloc ml p0 k s" using False p0 by (simp add: run)
    then show ?thesis using False m unfolding P by (simp only: if_False)
  qed
qed

lemma pool_Free_live:
  assumes live: "sp_live P s" and p: "(p, k) \<in> P"
  shows "sp_live (P - {(p, k)}) (pool_Free p s)" "mbsize (pool_Free p s) = mbsize s" "lvl (pool_Free p s) = lvl s"
    "poolsize (pool_Free p s) = poolsize s"
proof -
  obtain Q F V where inv: "sp_inv s Q F V" and P: "P = handed (levels s) Q V" using live by (auto simp: sp_live_def)
  obtain q b where b: "k < levels s" "q \<in> set (Q k)" "b \<in> set (V k q)" "p = b + 24" using p unfolding P by (auto simp: used_def)
  obtain xs ys where V: "V k q = xs @ b # ys" using split_list [OF b(3)] by blast
  have ik: "slab_inv (level k s) (Q k) (F k) (V k)" using inv b(1) by (simp add: sp_inv_def sp_on_def)
  let ?V = "V(k := (V k)(q := xs @ ys))"
  have u: "used (Q k) (?V k) = used (Q k) (V k) - {b}" using used_remove [OF ik b(2) V] by simp
  have "handed (levels s) Q ?V = P - {(p, k)}"
  proof (rule set_eqI)
    fix x :: "addr \<times> nat"
    obtain a j where x: "x = (a, j)" by (cases x)
    have e: "used (Q j) (?V j) = used (Q j) (V j) - (if j = k then {b} else {})" using u by simp
    show "x \<in> handed (levels s) Q ?V \<longleftrightarrow> x \<in> P - {(p, k)}"
      unfolding P b(4) x Diff_iff handed_mem e singleton_iff prod.inject by (cases "j = k") auto
  qed
  moreover show l: "mbsize (pool_Free p s) = mbsize s" "lvl (pool_Free p s) = lvl s" "poolsize (pool_Free p s) = poolsize s"
    by (simp_all add: pool_Free_def Let_def)
  moreover have "levels (pool_Free p s) = levels s" using l by (simp add: levels_def)
  ultimately show "sp_live (P - {(p, k)}) (pool_Free p s)"
    using sp_inv_Free [of s Q F V k q xs b ys, OF inv b(1,2) V] b(4)
    unfolding sp_live_def by - (rule exI [of _ Q], rule exI [of _ "F(k := (F k)(q := b # F k q))"], rule exI [of _ ?V], simp)
qed

section \<open>The contract\<close>

definition pool_foot :: "slab_pool \<Rightarrow> addr \<times> nat \<Rightarrow> addr set" where
  "pool_foot s pk = {fst pk - 24 ..< fst pk - 24 + unat (mbsize s ! snd pk)}"

lemma slab_inv_num [simp]: "slab_inv (s\<lparr>m_alloced_num := v\<rparr>) Q F V = slab_inv s Q F V"
  by (simp add: slab_inv_def slab_sized_def pools_ok_def own_def)

lemma level_live:
  assumes "sp_inv s Q F V" "k < levels s"
  shows "slab_live ((\<lambda>b. b + 24) ` used (Q k) (V k)) ((level k s)\<lparr>m_alloced_num := of_nat (card ((\<lambda>b. b + 24) ` used (Q k) (V k)))\<rparr>)"
  by (rule slab_liveI [of _ "Q k" "F k" "V k", OF _ refl]) (use assms in \<open>simp_all add: sp_inv_def sp_on_def\<close>)

lemma pool_foot_own:
  assumes inv: "sp_inv s Q F V" and p: "(p, k) \<in> handed (levels s) Q V"
  shows "24 \<le> p" "pool_foot s (p, k) \<subseteq> region (heap s) (Q k)" "\<exists>z \<in> set (zones (heap s)). pool_foot s (p, k) \<subseteq> zone_set z"
proof -
  obtain q b where b: "k < levels s" "q \<in> set (Q k)" "b \<in> set (V k q)" "p = b + 24" using p by (auto simp: used_def)
  have ik: "slab_inv (level k s) (Q k) (F k) (V k)" using inv b(1) by (simp add: sp_inv_def sp_on_def)
  then have "b \<in> set (pool_blocks (level k s) q)" using b(2,3) unfolding slab_inv_def pool_ok_def by blast
  from pool_blocks_own [OF this] show "pool_foot s (p, k) \<subseteq> region (heap s) (Q k)"
    using b(2,4) by (auto simp: pool_foot_def)
  have "p \<in> (\<lambda>b. b + 24) ` used (Q k) (V k)" using b by (auto simp: used_def)
  from slab_foot_zone [OF level_live [OF inv b(1)] this]
  show "\<exists>z \<in> set (zones (heap s)). pool_foot s (p, k) \<subseteq> zone_set z" by (simp add: slab_foot_def pool_foot_def)
  show "24 \<le> p" using b(4) by simp
qed

lemma pool_foot_disjoint:
  assumes live: "sp_live P s" and p: "x \<in> P" "y \<in> P" "x \<noteq> y"
  shows "pool_foot s x \<inter> pool_foot s y = {}"
proof -
  obtain Q F V where inv: "sp_inv s Q F V" and P: "P = handed (levels s) Q V" using live by (auto simp: sp_live_def)
  obtain p j where x: "x = (p, j)" by (cases x)
  obtain q k where y: "y = (q, k)" by (cases y)
  have l: "j < levels s" "k < levels s" "p \<in> (\<lambda>b. b + 24) ` used (Q j) (V j)" "q \<in> (\<lambda>b. b + 24) ` used (Q k) (V k)"
    using p unfolding x y P by auto
  show ?thesis
  proof (cases "j = k")
    case True
    then have "p \<noteq> q" using p(3) x y by simp
    from slab_foot_disjoint [OF level_live [OF inv l(2)] _ l(4) this] l(3) True
    show ?thesis by (simp add: slab_foot_def pool_foot_def x y)
  next
    case False
    then have "region (heap s) (Q j) \<inter> region (heap s) (Q k) = {}"
      using inv l(1,2) sp_onD(2) [of "{..<levels s}" s Q F V j k] by (simp add: sp_inv_def)
    then show ?thesis
      using pool_foot_own(2) [OF inv, of p j] pool_foot_own(2) [OF inv, of q k] p(1,2) unfolding x y P by fast
  qed
qed

text \<open>A client's view: a request that ends the process leaves the state as it is.\<close>

definition pool_request :: "malloc \<Rightarrow> 32 word \<Rightarrow> slab_pool \<Rightarrow> (addr \<times> nat) option \<times> slab_pool" where
  "pool_request ml l s = (case pool_Alloc ml l s of
     Ret (Some p, s') \<Rightarrow> (Some (p, pool_class (mbsize s ! 0) l), s') | _ \<Rightarrow> (None, s))"

definition sp_sized :: "32 word list \<Rightarrow> (addr \<times> nat) set \<Rightarrow> slab_pool \<Rightarrow> bool" where
  "sp_sized mbs P s \<longleftrightarrow> sp_live P s \<and> mbsize s = mbs"

lemma pool_request_cases:
  assumes "sp_live P s" "malloc_fresh ml"
  shows "case pool_request ml l s of (None, s') \<Rightarrow> s' = s
    | (Some (p, k), s') \<Rightarrow> k = pool_class (mbsize s ! 0) l \<and> (p, k) \<notin> P \<and> sp_live (insert (p, k) P) s' \<and> mbsize s' = mbsize s"
  using pool_Alloc_live [OF assms refl, of l] by (auto simp: pool_request_def split: if_splits sp_result.splits)

lemma pool_allocator:
  assumes ml: "malloc_fresh ml"
  shows "allocator (pool_request ml) (\<lambda>x. pool_Free (fst x)) (sp_sized mbs) pool_foot"
proof
  fix P s r x s' y
  assume w: "sp_sized mbs P s"
  then have live: "sp_live P s" by (simp add: sp_sized_def)
  note c = pool_request_cases [OF live ml, of r]
  show "x \<notin> P \<and> sp_sized mbs (insert x P) s'" if "pool_request ml r s = (Some x, s')"
    using c that w by (cases x) (simp add: sp_sized_def)
  show "pool_foot s' y = pool_foot s y" if "pool_request ml r s = (Some x, s')"
    using c that by (cases x) (simp add: pool_foot_def)
  show "sp_sized mbs P s' \<and> (\<forall>y \<in> P. pool_foot s' y = pool_foot s y)" if "pool_request ml r s = (None, s')"
    using c that w by simp
  show "sp_sized mbs (P - {x}) (pool_Free (fst x) s)" if "x \<in> P"
    using pool_Free_live [OF live, of "fst x" "snd x"] that w by (simp add: sp_sized_def)
  show "pool_foot (pool_Free (fst x) s) y = pool_foot s y" if "x \<in> P"
    using pool_Free_live(2) [OF live, of "fst x" "snd x"] that by (simp add: pool_foot_def)
  show "pool_foot s x \<inter> pool_foot s y = {}" if "x \<in> P" "y \<in> P" "x \<noteq> y" by (rule pool_foot_disjoint [OF live that])
qed


section \<open>Construction\<close>

lemma first_level:
  assumes on: "sp_on {..<i} s Q F V" and i: "i < length (pmpool s)" and ml: "malloc_fresh ml" "ml (zones (heap s)) (poolsize s ! i) = Some m"
    and sz: "24 \<le> unat (mbsize s ! i)" "95 + unat (mbsize s ! i) \<le> unat (poolsize s ! i)"
    and s1: "s1 = s\<lparr>heap := opened None m (poolsize s ! i) (heap s), poolnum := n, pmpool := (pmpool s)[i := Some m]\<rparr>"
  shows "\<exists>h F'. InitMemblock m (mbsize s ! i) s1 = Some (s1\<lparr>heap := h\<rparr>)
    \<and> sp_on {..<Suc i} (s1\<lparr>heap := h\<rparr>) (Q(i := [m])) F' (V(i := \<lambda>_. []))"
proof -
  let ?l = "poolsize s ! i" and ?s0 = "s1\<lparr>heap := zero_mem m (poolsize s ! i) (heap s)\<rparr>"
  have sz': "32 + unat (mbsize s ! i) \<le> unat ?l" using sz(2) by simp
  have e: "heap s1 = opened None m ?l (heap s)" "mbsize s1 = mbsize s" "poolsize s1 = poolsize s" by (simp_all add: s1)
  obtain h where h: "InitMemblock m (mbsize s ! i) s1 = Some (s1\<lparr>heap := h\<rparr>)" "zones h = (m, ?l) # zones (heap s)"
      "pnext h = linked None m (heap ?s0)"
    and np: "new_pool m (level i ?s0) (level i (s1\<lparr>heap := h\<rparr>))"
    and out: "\<forall>x. x \<notin> zone_set (m, ?l) \<and> None \<noteq> Some x \<longrightarrow> agree {x} (heap s) h"
    using opened_new_pool [OF sz(1) sz' e refl] by blast
  let ?s2 = "s1\<lparr>heap := h\<rparr>"
  have "zones (level i ?s2) = (m, ?l) # zones (level i ?s0)" "pnext (level i ?s2) m = None" "mp_mpool (level i ?s2) = Some m"
    "slab_sized (level i ?s2)" using h i sz by (simp_all add: linked_def slab_sized_def s1)
  note f = first_pool_inv [OF np this]
  have fresh: "region (heap s) (Q j) \<inter> zone_set (m, ?l) = {}" if "j \<in> {..<i}" for j
    using fresh_region [OF sp_onD(1) [OF on that], of ml ?l m] ml by simp
  have om: "own h m \<subseteq> zone_set (m, ?l)" using np h(2) by (simp add: new_pool_def)
  have "sp_on (insert i {..<i}) ?s2 (Q(i := [m])) (F(i := \<lambda>_. pool_blocks (level i ?s2) m)) (V(i := \<lambda>_. []))"
  proof (rule sp_on_update [OF on f])
    show "agree (region (heap s) (Q j)) (heap s) (heap ?s2)" if j: "j \<in> {..<i}" for j
    proof (rule agree_all)
      fix x assume "x \<in> region (heap s) (Q j)"
      then have "x \<notin> zone_set (m, ?l)" using fresh [OF j] by blast
      then show "agree {x} (heap s) (heap ?s2)" using out by simp
    qed
    show "region (heap s) (Q j) \<inter> region (heap ?s2) [m] = {}" if j: "j \<in> {..<i}" for j
      using fresh [OF j] om by (simp, blast)
  qed (use h in \<open>auto simp: s1\<close>)
  moreover have "insert i {..<i} = {..<Suc i}" by auto
  ultimately show ?thesis using h(1) by (simp only:) blast
qed

text \<open>The second loop of the constructor from class \<open>i\<close> on: it ends the process when \<^verbatim>\<open>malloc\<close> fails.\<close>

lemma build_pools_inv:
  assumes "n = i + d" "sp_on {..<i} s Q F V" "\<And>k. k < i \<Longrightarrow> used (Q k) (V k) = {}" "length (pmpool s) = n" "malloc_fresh ml"
    "initialsize s = poolsize s"
    "\<And>k. k < n \<Longrightarrow> 24 \<le> unat (mbsize s ! k) \<and> 95 + unat (mbsize s ! k) \<le> unat (poolsize s ! k)"
  shows "case build_pools ml [i..<n] s of Fault \<Rightarrow> False | Exit0 \<Rightarrow> \<exists>zs l. ml zs l = None
    | Ret s' \<Rightarrow> mbsize s' = mbsize s \<and> lvl s' = lvl s \<and> poolsize s' = poolsize s
        \<and> (\<exists>Q F V. sp_on {..<n} s' Q F V \<and> (\<forall>k < n. used (Q k) (V k) = {}))"
  using assms
proof (induction d arbitrary: i s Q F V)
  case 0
  then show ?case by auto
next
  case (Suc d)
  let ?l = "poolsize s ! i"
  have i: "i < n" "[i..<n] = i # [Suc i..<n]" "n = Suc i + d" using Suc.prems(1) by (auto simp: upt_conv_Cons)
  show ?case
  proof (cases "ml (zones (heap s)) ?l")
    case None
    then have "build_pools ml [i..<n] s = Exit0" unfolding i(2) using Suc.prems(6) by (simp add: CreatePool_def)
    then show ?thesis using None by auto
  next
    case (Some m)
    let ?s1 = "s\<lparr>heap := opened None m ?l (heap s), poolnum := poolnum s + 1, pmpool := (pmpool s)[i := Some m]\<rparr>"
    have sz: "24 \<le> unat (mbsize s ! i)" "95 + unat (mbsize s ! i) \<le> unat ?l" "i < length (pmpool s)"
      using Suc.prems(4,7) i(1) by simp_all
    obtain h F' where h: "InitMemblock m (mbsize s ! i) ?s1 = Some (?s1\<lparr>heap := h\<rparr>)"
      "sp_on {..<Suc i} (?s1\<lparr>heap := h\<rparr>) (Q(i := [m])) F' (V(i := \<lambda>_. []))"
      using first_level [OF Suc.prems(2) sz(3) Suc.prems(5) Some sz(1,2) refl] by blast
    have run: "build_pools ml [i..<n] s = build_pools ml [Suc i..<n] (?s1\<lparr>heap := h\<rparr>)"
      unfolding i(2) using Suc.prems(6) CreatePool_first [of ml s ?l m] Some h(1) by simp
    have u: "used ((Q(i := [m])) k) ((V(i := \<lambda>_. [])) k) = {}" if "k < Suc i" for k
      using that Suc.prems(3) [of k] by (auto simp: used_def)
    have "case build_pools ml [Suc i..<n] (?s1\<lparr>heap := h\<rparr>) of Fault \<Rightarrow> False | Exit0 \<Rightarrow> \<exists>zs l. ml zs l = None
    | Ret s' \<Rightarrow> mbsize s' = mbsize (?s1\<lparr>heap := h\<rparr>) \<and> lvl s' = lvl (?s1\<lparr>heap := h\<rparr>) \<and> poolsize s' = poolsize (?s1\<lparr>heap := h\<rparr>)
        \<and> (\<exists>Q F V. sp_on {..<n} s' Q F V \<and> (\<forall>k < n. used (Q k) (V k) = {}))"
      by (rule Suc.IH [OF i(3) h(2) u]) (use Suc.prems in auto)
    then show ?thesis unfolding run by (simp split: sp_result.splits)
  qed
qed


section \<open>The sizes of the classes\<close>

lemma unat_push_bit: "2 ^ k * unat w < 2 ^ 32 \<Longrightarrow> unat (push_bit k (w :: 32 word)) = 2 ^ k * unat w"
  by (subst unsigned_push_bit_eq) (simp add: push_bit_eq_mult take_bit_nat_eq_self mult.commute)

lemma class_sizes:
  assumes fits: "(unat sz + 7) * 2 ^ n + 39 < 2 ^ 26" and k: "k \<le> n"
  shows "unat (push_bit k (pure_align_u32 sz 8) + sizeof_memblock) = 2 ^ k * unat (pure_align_u32 sz 8) + 24"
    "64 * unat (push_bit k (pure_align_u32 sz 8) + sizeof_memblock)
       \<le> unat (push_bit 6 (pure_align_u32 (push_bit k (pure_align_u32 sz 8) + sizeof_memblock) 16))"
proof -
  let ?a = "pure_align_u32 sz 8"
  have "unat sz + 7 \<le> (unat sz + 7) * 2 ^ n" by simp
  then have s: "unat sz + 7 < 2 ^ 26" using add_lessD1 [OF fits] by (rule le_less_trans)
  have "unat ?a = (unat sz + (8 - 1)) div 8 * 8" using unat_pure_align [of sz 3] s by simp
  then have a: "unat ?a \<le> unat sz + 7" using round_up_bounds(2) [of 8 "unat sz"] by simp
  have "2 ^ k * unat ?a \<le> 2 ^ n * (unat sz + 7)" using a k by (intro mult_le_mono) (auto intro: power_increasing)
  then have b: "2 ^ k * unat ?a + 39 < 2 ^ 26" using fits by (simp add: mult.commute)
  then have p: "unat (push_bit k ?a) = 2 ^ k * unat ?a" by (intro unat_push_bit) simp
  show m: "unat (push_bit k ?a + sizeof_memblock) = 2 ^ k * unat ?a + 24"
    using b p by (simp add: unat_word_ariths(1) sizeof_memblock_def)
  let ?m = "push_bit k ?a + sizeof_memblock"
  have al: "unat (pure_align_u32 ?m 16) = (unat ?m + (16 - 1)) div 16 * 16"
    using unat_pure_align [of ?m 4] m b by simp
  have r: "unat ?m \<le> unat (pure_align_u32 ?m 16)" "unat (pure_align_u32 ?m 16) < unat ?m + 16"
    unfolding al using round_up_bounds [of 16 "unat ?m"] by simp_all
  then have "unat (push_bit 6 (pure_align_u32 ?m 16)) = 2 ^ 6 * unat (pure_align_u32 ?m 16)"
    using m b by (intro unat_push_bit) simp
  then show "64 * unat ?m \<le> unat (push_bit 6 (pure_align_u32 ?m 16))" using r by simp
qed

definition sp_fits :: "32 word \<Rightarrow> int \<Rightarrow> bool" where
  "sp_fits sz ilvl \<longleftrightarrow> 0 \<le> ilvl \<and> (unat sz + 7) * 2 ^ nat ilvl + 39 < 2 ^ 26"

lemma pool_constructed:
  assumes fits: "sp_fits sz ilvl" and ml: "malloc_fresh ml"
  shows "case pure_slab_pool ml h sz ilvl of Fault \<Rightarrow> False | Exit0 \<Rightarrow> \<exists>zs l. ml zs l = None
    | Ret s \<Rightarrow> lvl s = ilvl \<and> (\<forall>k \<le> nat ilvl. unat (mbsize s ! k) = 2 ^ k * unat (pure_align_u32 sz 8) + 24) \<and> sp_live {} s"
proof -
  let ?n = "nat (ilvl + 1)" and ?mb = "\<lambda>i. push_bit i (pure_align_u32 sz 8) + sizeof_memblock"
  let ?mbs = "map ?mb [0..<?n]" and ?ini = "map (\<lambda>mb. push_bit 6 (pure_align_u32 mb 16)) (map ?mb [0..<?n])"
  let ?s = "\<lparr>heap = h, pmpool = replicate ?n None, mbsize = ?mbs, lvl = ilvl, poolnum = 0, poolsize = ?ini, initialsize = ?ini\<rparr>"
  have n: "0 \<le> ilvl" "k < ?n \<Longrightarrow> k \<le> nat ilvl" for k using fits by (auto simp: sp_fits_def)
  have c: "unat (?mb k) = 2 ^ k * unat (pure_align_u32 sz 8) + 24" "64 * unat (?mb k) \<le> unat (push_bit 6 (pure_align_u32 (?mb k) 16))"
    if "k < ?n" for k using class_sizes [of sz "nat ilvl" k] fits n(2) [OF that] by (simp_all add: sp_fits_def)
  have sz: "24 \<le> unat (mbsize ?s ! k) \<and> 95 + unat (mbsize ?s ! k) \<le> unat (poolsize ?s ! k)" if k: "k < ?n" for k
  proof -
    have "mbsize ?s ! k = ?mb k" "poolsize ?s ! k = push_bit 6 (pure_align_u32 (?mb k) 16)" using k by simp_all
    moreover have ge: "24 \<le> unat (?mb k)" using c(1) [OF k] by simp
    moreover have "95 + unat (?mb k) \<le> 64 * unat (?mb k)" using ge by linarith
    ultimately show ?thesis using le_trans [OF _ c(2) [OF k]] by (simp only:)
  qed
  have run: "pure_slab_pool ml h sz ilvl = build_pools ml [0..<?n] ?s" using n(1) by (simp add: pure_slab_pool_def Let_def)
  have "case build_pools ml [0..<?n] ?s of Fault \<Rightarrow> False | Exit0 \<Rightarrow> \<exists>zs l. ml zs l = None
    | Ret s' \<Rightarrow> mbsize s' = mbsize ?s \<and> lvl s' = lvl ?s \<and> poolsize s' = poolsize ?s
        \<and> (\<exists>Q F V. sp_on {..<?n} s' Q F V \<and> (\<forall>k < ?n. used (Q k) (V k) = {}))"
    by (rule build_pools_inv [where Q = "\<lambda>_. []" and F = "\<lambda>_ _. []" and V = "\<lambda>_ _. []" and d = ?n]) (use sz ml in \<open>auto simp: sp_on_def\<close>)
  moreover have "sp_live {} s'" if s': "mbsize s' = ?mbs" "lvl s' = ilvl" "sp_on {..<?n} s' Q F V" "\<forall>k < ?n. used (Q k) (V k) = {}" for s' Q F V
  proof -
    have "levels s' = ?n" using s'(2) by (simp add: levels_def)
    then have "sp_inv s' Q F V" "handed (levels s') Q V = {}" using s' n(1) by (auto simp: sp_inv_def handed_def)
    then show ?thesis unfolding sp_live_def by metis
  qed
  ultimately show ?thesis using c n unfolding run by (auto split: sp_result.splits)
qed

lemma bsr_lower:
  assumes "0 < (i :: 32 word)"
  shows "2 ^ bsr i \<le> unat i"
proof -
  have "filter (bit i) [0..<32] \<noteq> []"
  proof
    assume "filter (bit i) [0..<32] = []"
    then have "\<not> bit i k" if "k < 32" for k using that by (auto simp: filter_empty_conv)
    then have "i = 0" by (intro bit_word_eqI) simp
    then show False using assms by simp
  qed
  then have "bsr i \<in> set (filter (bit i) [0..<32])" unfolding bsr_def by (rule last_in_set)
  then have "bit (unat i) (bsr i)" by (simp add: bit_unsigned_iff)
  then have "odd (unat i div 2 ^ bsr i)" by (simp add: bit_iff_odd)
  then have "1 \<le> unat i div 2 ^ bsr i" by (cases "unat i div 2 ^ bsr i") auto
  then show ?thesis by (simp add: less_eq_div_iff_mult_less_eq)
qed

text \<open>The block of the class that a request is given has room for it only when the smallest class has.\<close>

lemma pool_class_room:
  assumes mb: "unat mb0 = a + 24" and l: "0 \<le> sint l"
  shows "unat l \<le> 2 ^ pool_class mb0 l * a \<longleftrightarrow> unat l \<le> a"
proof -
  let ?q = "(unat l + 23) div unat mb0" and ?i = "ucast ((scast l + 24 - 1 :: 64 word) div ucast mb0) :: 32 word"
  have u: "unat l < 2 ^ 31" "sint l = int (unat l)"
  proof -
    have "sint l < 2 ^ 31" using sint_lt [of l] by simp
    moreover from this have "uint l = sint l" using uint_sint [of l] l \<open>sint l < 2 ^ 31\<close> by (simp add: take_bit_int_eq_self)
    ultimately show "unat l < 2 ^ 31" "sint l = int (unat l)" using l by (simp_all add: unat_eq_nat_uint)
  qed
  have "(scast l :: 64 word) = of_nat (unat l)" by (simp only: scast_eq u(2) of_int_of_nat_eq)
  then have "(scast l + 24 - 1 :: 64 word) = of_nat (unat l + 23)" by simp
  then have w: "unat (scast l + 24 - 1 :: 64 word) = unat l + 23" using u(1) by (simp only: unat_of_nat) simp
  have "unat mb0 < 2 ^ 32" using unsigned_less [of mb0] by simp
  then have "unat (ucast mb0 :: 64 word) = unat mb0" by (simp add: unsigned_ucast_eq take_bit_nat_eq_self)
  then have d: "unat ((scast l + 24 - 1 :: 64 word) div ucast mb0) = ?q" by (simp only: unat_div_distrib w)
  have q: "?q \<le> unat l"
  proof -
    have "?q \<le> (unat l + 23) div 24" using mb by (intro div_le_mono2) auto
    also have "\<dots> \<le> unat l" by (cases "unat l") auto
    finally show ?thesis .
  qed
  have i: "unat ?i = ?q" using d q u(1) by (simp add: unsigned_ucast_eq take_bit_nat_eq_self)
  have "sint ?i = int ?q"
  proof -
    have "?i = of_nat ?q" using i by (metis of_nat_unat ucast_id)
    moreover have "int ?q \<le> sint l" unfolding u(2) of_nat_le_iff by (rule q)
    ultimately show ?thesis using sint_of_nat [of ?q l] by (simp only:)
  qed
  then have cls: "pool_class mb0 l = (if 0 < ?q then bsr ?i else 0)" by (simp add: pool_class_def Let_def)
  show ?thesis
  proof (cases "0 < ?q")
    case True
    let ?b = "2 ^ bsr ?i :: nat"
    have "0 < ?i" using i True by (metis unat_gt_0 word_gt_0 unat_0 less_numeral_extra(3))
    then have "?b \<le> ?q" using bsr_lower [of ?i] i by simp
    then have "?b * unat mb0 \<le> unat l + 23" using mb by (simp add: less_eq_div_iff_mult_less_eq)
    then have big: "?b * a + 24 * ?b \<le> unat l + 23" unfolding mb by (simp add: algebra_simps)
    have "1 \<le> ?b" by simp
    then have "24 \<le> 24 * ?b" "a \<le> ?b * a" by simp_all
    then have "\<not> unat l \<le> ?b * a" "\<not> unat l \<le> a" using big by linarith+
    then show ?thesis using cls True by simp
  next
    case False
    then show ?thesis using cls by simp
  qed
qed


section \<open>Destruction\<close>

text \<open>The chain of a class is freed to its end: a pool starts where its zone does.\<close>

lemma free_chain_all:
  "path (pnext h) p Q \<Longrightarrow> free_chain p h = Some (h\<lparr>zones := filter (\<lambda>z. fst z \<notin> set Q) (zones h)\<rparr>)"
proof (induction Q arbitrary: p h)
  case Nil
  then show ?case by (subst free_chain.simps) simp
next
  case (Cons q Q)
  have "path (pnext (delete_zone q h)) (pnext h q) Q" using Cons.prems by (simp add: delete_zone_def)
  from Cons.IH [OF this] show ?case
    using Cons.prems by (subst free_chain.simps) (simp add: delete_zone_def conj_commute)
qed

lemma destroy_levels_all:
  assumes "distinct is" "\<And>k. k \<in> set is \<Longrightarrow> path (pnext (heap s)) (pmpool s ! k) (Q k)"
  shows "destroy_levels is s = Some ((heap s)\<lparr>zones := filter (\<lambda>z. \<forall>k \<in> set is. fst z \<notin> set (Q k)) (zones (heap s))\<rparr>)"
  using assms
proof (induction "is" arbitrary: s)
  case (Cons i "is")
  let ?h = "(heap s)\<lparr>zones := filter (\<lambda>z. fst z \<notin> set (Q i)) (zones (heap s))\<rparr>"
  let ?s1 = "s\<lparr>heap := ?h, pmpool := (pmpool s)[i := None]\<rparr>"
  have "pool_Destroy i s = Some ?s1" using free_chain_all [of "heap s" "pmpool s ! i" "Q i"] Cons.prems(2) by (simp add: pool_Destroy_def)
  moreover have "path (pnext (heap ?s1)) (pmpool ?s1 ! k) (Q k)" if "k \<in> set is" for k
  proof -
    have "k \<noteq> i" using that Cons.prems(1) by auto
    then show ?thesis using Cons.prems(2) [of k] that by simp
  qed
  then have "destroy_levels is ?s1 = Some (?h\<lparr>zones := filter (\<lambda>z. \<forall>k \<in> set is. fst z \<notin> set (Q k)) (zones ?h)\<rparr>)"
    using Cons.IH [of ?s1] Cons.prems(1) by simp
  ultimately show ?case by (simp add: conj_commute)
qed simp

lemma pool_destructor:
  assumes "sp_inv s Q F V"
  shows "pure_slab_pool_destructor s
    = Some ((heap s)\<lparr>zones := filter (\<lambda>z. \<forall>k < levels s. fst z \<notin> set (Q k)) (zones (heap s))\<rparr>)"
proof -
  have "path (pnext (heap s)) (pmpool s ! k) (Q k)" if "k < levels s" for k
  proof -
    have "slab_inv (level k s) (Q k) (F k) (V k)" using assms that by (simp add: sp_inv_def sp_on_def)
    then show ?thesis by (simp add: slab_inv_def pools_ok_def)
  qed
  then have "destroy_levels [0..<levels s] s
    = Some ((heap s)\<lparr>zones := filter (\<lambda>z. \<forall>k \<in> set [0..<levels s]. fst z \<notin> set (Q k)) (zones (heap s))\<rparr>)"
    by (intro destroy_levels_all) auto
  then show ?thesis by (simp add: pure_slab_pool_destructor_def levels_def [symmetric] Ball_def)
qed

section \<open>Properties\<close>



end
