(* ===== verification/Membox.thy ===== *)
theory Membox
  imports Slab_Proofs
begin

text \<open>
  The lock-free memory box of \<^verbatim>\<open>src/src/mem_pool/p_membox.h\<close>: one pool of equal blocks, each with a
  flag that is claimed and released by compare and swap. The fields are functions from addresses
  as in \<open>Slab\<close>; \<open>sizeof_block\<close> is \<^verbatim>\<open>sizeof(memblock)\<close>, which depends on the template argument. First the
  operations as one thread runs them, then the threads with every interleaving of their atomic steps.
\<close>

section \<open>Data\<close>

record membox =
  b_seq :: "addr \<Rightarrow> 32 word"
  b_mp :: "addr \<Rightarrow> addr"
  b_next :: "addr \<Rightarrow> addr option"
  b_length :: "addr \<Rightarrow> 32 word"
  b_off_t :: "addr \<Rightarrow> nat"
  block_num :: "addr \<Rightarrow> 32 word"
  free_num :: "addr \<Rightarrow> 32 word"
  b_pa :: "addr \<Rightarrow> addr"
  b_mpool :: "addr option"
  b_mbsize :: "32 word"
  b_poolsize :: "32 word"
  sizeof_block :: "32 word"
  b_zones :: "zone list"

definition MEMBLOCKHEAD :: nat where "MEMBLOCKHEAD = 16"

definition memblock_size :: "32 word \<Rightarrow> 32 word" where
  "memblock_size sizeof_T = pure_align_u32 (pure_align_u32 sizeof_T 8 + 16) 64"

section \<open>Operations\<close>

definition box_new_zone :: "malloc \<Rightarrow> 32 word \<Rightarrow> membox \<Rightarrow> addr option \<times> membox" where
  "box_new_zone ml l s =
     (case ml (b_zones s) l of
        None \<Rightarrow> (None, s)
      | Some z \<Rightarrow> (Some z, s\<lparr>b_zones := (z, l) # b_zones s,
                          b_seq := (\<lambda>a. if a \<in> zone_set (z, l) then 0 else b_seq s a)\<rparr>))"

definition box_creat_mempool :: "malloc \<Rightarrow> addr option \<Rightarrow> 32 word \<Rightarrow> membox \<Rightarrow> addr option \<times> membox" where
  "box_creat_mempool ml p l s =
     (case p of
        None \<Rightarrow>
          (case box_new_zone ml l s of
             (None, s1) \<Rightarrow> (None, s1)
           | (Some true_mem, s1) \<Rightarrow>
               let q = align_ptr true_mem 64; off = (q - true_mem) mod 256 in
               (Some q, s1\<lparr>b_off_t := (b_off_t s1)(q := off), b_next := (b_next s1)(q := None),
                  b_length := (b_length s1)(q := l - of_nat off)\<rparr>))
      | Some a \<Rightarrow>
          if b_next s a = None then
            case box_new_zone ml l s of
              (None, s1) \<Rightarrow> (None, s1)
            | (Some true_mem, s1) \<Rightarrow>
                let q = align_ptr true_mem 64; off = (q - true_mem) mod 256 in
                (Some q, s1\<lparr>b_off_t := (b_off_t s1)(q := off), b_next := (b_next s1)(a := Some q, q := None),
                   b_length := (b_length s1)(q := l - of_nat off)\<rparr>)
          else (None, s))"

text \<open>\<^verbatim>\<open>sizeof(mempool)\<close> is 32 on x86-64.\<close>

definition box_init_memblock :: "addr \<Rightarrow> 32 word \<Rightarrow> membox \<Rightarrow> membox" where
  "box_init_memblock p ul s =
     (let mpalignsize = pure_align_u32 32 64; content_len = b_length s p - ul - mpalignsize;
          s1 = s\<lparr>b_pa := (b_pa s)(p := p + unat mpalignsize)\<rparr>;
          s2 = s1\<lparr>block_num := (block_num s1)(p := content_len div sizeof_block s1)\<rparr>
      in s2\<lparr>free_num := (free_num s2)(p := block_num s2 p)\<rparr>)"

definition membox_new :: "malloc \<Rightarrow> membox \<Rightarrow> 32 word \<Rightarrow> 32 word \<Rightarrow> membox" where
  "membox_new ml heap sizeof_T pool_size =
     (let s = heap\<lparr>sizeof_block := memblock_size sizeof_T,
                b_mbsize := pure_align_u32 (pure_align_u32 sizeof_T 8 + 8) 64,
                b_poolsize := pure_align_u32 pool_size 4096, b_mpool := None\<rparr>
      in case box_creat_mempool ml None (b_poolsize s) s of
           (None, s1) \<Rightarrow> s1\<lparr>b_mpool := None\<rparr>
         | (Some q, s1) \<Rightarrow> box_init_memblock q (sizeof_block s1) (s1\<lparr>b_mpool := Some q\<rparr>))"

text \<open>The address of \<^verbatim>\<open>p->pa[(startpos+i)%p->block_num]\<close>.\<close>

definition box_block :: "membox \<Rightarrow> addr \<Rightarrow> 32 word \<Rightarrow> nat \<Rightarrow> addr" where
  "box_block s p startpos i = b_pa s p + unat ((startpos + of_nat i) mod block_num s p) * unat (sizeof_block s)"

text \<open>\<open>n\<close> rounds of the search are left.\<close>

fun box_scan :: "addr \<Rightarrow> 32 word \<Rightarrow> nat \<Rightarrow> nat \<Rightarrow> membox \<Rightarrow> addr option \<times> membox" where
  "box_scan p startpos i 0 s = (None, s)"
| "box_scan p startpos i (Suc n) s =
     (let b = box_block s p startpos i in
      if b_seq s b = 0 then
        case CAS (b_seq s b) 0 1 of (ok, v) \<Rightarrow>
          let s1 = s\<lparr>b_seq := (b_seq s)(b := v)\<rparr> in
          if ok then (Some (b + MEMBLOCKHEAD),
                      s1\<lparr>free_num := (free_num s1)(p := free_num s1 p - 1), b_mp := (b_mp s1)(b := p)\<rparr>)
          else box_scan p startpos (Suc i) n s1
      else box_scan p startpos (Suc i) n s)"

definition box_mempool_alloc :: "addr \<Rightarrow> membox \<Rightarrow> addr option \<times> membox" where
  "box_mempool_alloc p s =
     (if free_num s p = 0 then (None, s)
      else box_scan p (block_num s p - free_num s p) 0 (unat (block_num s p)) s)"

text \<open>\<open>None\<close>: the pool pointer is null.\<close>

definition box_alloc :: "membox \<Rightarrow> (addr option \<times> membox) option" where
  "box_alloc s = map_option (\<lambda>p. box_mempool_alloc p s) (b_mpool s)"

definition box_free :: "addr \<Rightarrow> membox \<Rightarrow> membox" where
  "box_free data s =
     (let pmb = data - MEMBLOCKHEAD in
      case CAS (b_seq s pmb) 1 0 of (ok, v) \<Rightarrow>
        let s1 = s\<lparr>b_seq := (b_seq s)(pmb := v)\<rparr> in
        if ok then s1\<lparr>free_num := (free_num s1)(b_mp s1 pmb := free_num s1 (b_mp s1 pmb) + 1)\<rparr> else s1)"

definition box_delete_zone :: "addr \<Rightarrow> membox \<Rightarrow> membox" where
  "box_delete_zone z s = s\<lparr>b_zones := filter (\<lambda>y. fst y \<noteq> z) (b_zones s)\<rparr>"

partial_function (option) box_destroy_loop :: "addr option \<Rightarrow> membox \<Rightarrow> membox option" where
  "box_destroy_loop dpmp s =
     (case dpmp of None \<Rightarrow> Some s
      | Some pmp \<Rightarrow> box_destroy_loop (b_next s pmp) (box_delete_zone (pmp - b_off_t s pmp) s))"

definition box_destroy :: "membox \<Rightarrow> membox option" where
  "box_destroy s = map_option (\<lambda>s'. s'\<lparr>b_mpool := None\<rparr>) (box_destroy_loop (b_mpool s) s)"

section \<open>The invariant\<close>

definition box_blocks :: "membox \<Rightarrow> addr \<Rightarrow> addr set" where
  "box_blocks s p = (\<lambda>k. b_pa s p + k * unat (sizeof_block s)) ` {..<unat (block_num s p)}"

text \<open>The data pointers \<open>P\<close> are handed out.\<close>

definition box_live :: "addr \<Rightarrow> addr set \<Rightarrow> membox \<Rightarrow> bool" where
  "box_live p P s \<longleftrightarrow> b_mpool s = Some p \<and> 0 < unat (sizeof_block s)
     \<and> (\<forall>b \<in> box_blocks s p. b_seq s b = (if b + 16 \<in> P then 1 else 0))
     \<and> (\<forall>d \<in> P. 16 \<le> d \<and> d - 16 \<in> box_blocks s p \<and> b_mp s (d - 16) = p)
     \<and> unat (free_num s p) + card P = unat (block_num s p) \<and> unat (block_num s p) \<le> 2 ^ 31"

definition box_foot :: "membox \<Rightarrow> addr \<Rightarrow> addr set" where
  "box_foot s d = {d - 16 ..< d - 16 + unat (sizeof_block s)}"

lemma box_blocks_card: "0 < unat (sizeof_block s) \<Longrightarrow> card (box_blocks s p) = unat (block_num s p)"
  unfolding box_blocks_def by (subst card_image) (auto simp: inj_on_def)

lemma box_live_sub:
  assumes "box_live p P s"
  shows "P = (\<lambda>b. b + 16) ` {b \<in> box_blocks s p. b + 16 \<in> P}" "finite P"
proof -
  have "d \<in> (\<lambda>b. b + 16) ` {b \<in> box_blocks s p. b + 16 \<in> P}" if "d \<in> P" for d
    using assms that by (intro image_eqI [of _ _ "d - 16"]) (auto simp: box_live_def)
  then show e: "P = (\<lambda>b. b + 16) ` {b \<in> box_blocks s p. b + 16 \<in> P}" by auto
  show "finite P" by (subst e) (simp add: box_blocks_def)
qed

text \<open>The search visits every block.\<close>

lemma box_block_in: "0 < unat (block_num s p) \<Longrightarrow> box_block s p st i \<in> box_blocks s p"
  unfolding box_blocks_def box_block_def by (auto simp: unat_mod intro!: imageI mod_less_divisor)

definition box_claim :: "addr \<Rightarrow> addr \<Rightarrow> membox \<Rightarrow> membox" where
  "box_claim p b s =
     s\<lparr>b_seq := (b_seq s)(b := 1), free_num := (free_num s)(p := free_num s p - 1), b_mp := (b_mp s)(b := p)\<rparr>"

lemma box_scan_spec:
  assumes "\<forall>j < n. box_block s p st (i + j) \<in> box_blocks s p"
  shows "case box_scan p st i n s of
      (None, s') \<Rightarrow> s' = s \<and> (\<forall>j < n. b_seq s (box_block s p st (i + j)) \<noteq> 0)
    | (Some d, s') \<Rightarrow> (\<exists>b \<in> box_blocks s p. b_seq s b = 0 \<and> d = b + 16 \<and> s' = box_claim p b s)"
  using assms
proof (induction n arbitrary: i)
  case (Suc n)
  show ?case
  proof (cases "b_seq s (box_block s p st i) = 0")
    case True
    have "box_block s p st i \<in> box_blocks s p" using Suc.prems by force
    then show ?thesis using True by (auto simp: Let_def CAS_def MEMBLOCKHEAD_def box_claim_def)
  next
    case False
    have "\<forall>j < n. box_block s p st (Suc i + j) \<in> box_blocks s p" using Suc.prems by force
    from Suc.IH [OF this] False show ?thesis
      by (auto simp: Let_def less_Suc_eq_0_disj split: prod.splits option.splits)
  qed
qed simp


lemma box_scan_all:
  assumes N: "0 < unat (block_num s p)" "unat (block_num s p) \<le> 2 ^ 31" and st: "unat st \<le> unat (block_num s p)"
    and b: "b \<in> box_blocks s p"
  shows "\<exists>j < unat (block_num s p). box_block s p st j = b"
proof -
  let ?N = "unat (block_num s p)" and ?s = "unat st"
  obtain k where k: "k < ?N" "b = b_pa s p + k * unat (sizeof_block s)" using b by (auto simp: box_blocks_def)
  let ?j = "(k + (?N - ?s)) mod ?N"
  have j: "?j < ?N" using N(1) by simp
  have "unat (of_nat ?j :: 32 word) = ?j" using j N(2) by (simp only: unat_of_nat) simp
  then have "unat (st + of_nat ?j) = ?s + ?j" using j N(2) st by (simp add: unat_word_ariths(1))
  then have "unat ((st + of_nat ?j) mod block_num s p) = (?s + ?j) mod ?N" by (simp add: unat_mod)
  also have "\<dots> = (?s + (k + (?N - ?s))) mod ?N" by (simp add: mod_add_right_eq)
  also have "?s + (k + (?N - ?s)) = k + ?N" using st by simp
  also have "(k + ?N) mod ?N = k" using k(1) by simp
  finally have "box_block s p st ?j = b" by (simp add: box_block_def k(2))
  with j show ?thesis by blast
qed

lemma box_claim_live:
  assumes live: "box_live p P s" and b: "b \<in> box_blocks s p" "b_seq s b = 0" and f: "free_num s p \<noteq> 0"
  shows "b + 16 \<notin> P" "box_live p (insert (b + 16) P) (box_claim p b s)" "sizeof_block (box_claim p b s) = sizeof_block s"
proof -
  show nP: "b + 16 \<notin> P" using live b unfolding box_live_def by auto
  have bl: "box_blocks (box_claim p b s) p = box_blocks s p" by (simp add: box_blocks_def box_claim_def)
  have "unat (free_num s p - 1) = unat (free_num s p) - 1" "0 < unat (free_num s p)"
    using f by (simp_all add: unat_minus_one unat_gt_0)
  moreover have "card (insert (b + 16) P) = Suc (card P)" using nP box_live_sub(2) [OF live] by simp
  ultimately show "box_live p (insert (b + 16) P) (box_claim p b s)"
    using live b unfolding box_live_def bl by (auto simp: box_claim_def)
  show "sizeof_block (box_claim p b s) = sizeof_block s" by (simp add: box_claim_def)
qed

lemma box_alloc_live:
  assumes live: "box_live p P s"
  shows "\<exists>r s'. box_alloc s = Some (r, s') \<and> (case r of
      None \<Rightarrow> s' = s \<and> card P = unat (block_num s p)
    | Some d \<Rightarrow> d \<notin> P \<and> box_live p (insert d P) s' \<and> sizeof_block s' = sizeof_block s)"
proof -
  have pl: "b_mpool s = Some p" and n: "unat (free_num s p) + card P = unat (block_num s p)"
    "unat (block_num s p) \<le> 2 ^ 31" and sz: "0 < unat (sizeof_block s)" using live by (simp_all add: box_live_def)
  show ?thesis
  proof (cases "free_num s p = 0")
    case True
    then show ?thesis using n pl by (simp add: box_alloc_def box_mempool_alloc_def)
  next
    case False
    let ?st = "block_num s p - free_num s p" and ?N = "unat (block_num s p)"
    have N: "0 < ?N" using False n(1) unat_gt_0 [of "free_num s p"] by linarith
    have "free_num s p \<le> block_num s p" using n(1) by (simp add: word_le_nat_alt)
    then have st: "unat ?st = card P" using n(1) by (simp add: unat_sub)
    obtain r s' where r: "box_scan p ?st 0 ?N s = (r, s')" by fastforce
    have run: "box_alloc s = Some (r, s')" using False pl r by (simp add: box_alloc_def box_mempool_alloc_def)
    have sp: "case (r, s') of
        (None, s') \<Rightarrow> s' = s \<and> (\<forall>j < ?N. b_seq s (box_block s p ?st (0 + j)) \<noteq> 0)
      | (Some d, s') \<Rightarrow> (\<exists>b \<in> box_blocks s p. b_seq s b = 0 \<and> d = b + 16 \<and> s' = box_claim p b s)"
      using box_scan_spec [of ?N s p ?st 0] box_block_in [OF N] unfolding r by simp
    show ?thesis
    proof (cases r)
      case (Some d)
      then obtain b where b: "b \<in> box_blocks s p" "b_seq s b = 0" "d = b + 16" "s' = box_claim p b s" using sp by auto
      then show ?thesis using run Some box_claim_live [OF live b(1,2) False] by simp
    next
      case None
      have full: "b + 16 \<in> P" if b: "b \<in> box_blocks s p" for b
      proof -
        obtain j where "j < ?N" "box_block s p ?st j = b"
          using box_scan_all [OF N n(2) _ b, of ?st] st n(1) by auto
        then have "b_seq s b \<noteq> 0" using sp None by auto
        then show ?thesis using live b unfolding box_live_def by metis
      qed
      then have "(\<lambda>b. b + 16) ` box_blocks s p \<subseteq> P" by blast
      then have "card ((\<lambda>b. b + 16) ` box_blocks s p) \<le> card P" by (rule card_mono [OF box_live_sub(2) [OF live]])
      moreover have "card ((\<lambda>b. b + 16) ` box_blocks s p) = card (box_blocks s p)" by (rule card_image) simp
      ultimately have "card (box_blocks s p) \<le> card P" by simp
      then have "?N \<le> card P" using box_blocks_card [OF sz] by simp
      then show ?thesis using run None sp n(1) by auto
    qed
  qed
qed

lemma box_free_live:
  assumes live: "box_live p P s" and d: "d \<in> P"
  shows "box_live p (P - {d}) (box_free d s)" "sizeof_block (box_free d s) = sizeof_block s"
proof -
  obtain b where b: "d = b + 16" "b \<in> box_blocks s p" "b_mp s b = p" "b_seq s b = 1"
  proof
    have dd: "16 \<le> d" "d - 16 \<in> box_blocks s p" "b_mp s (d - 16) = p" using live d by (auto simp: box_live_def)
    then show "d = d - 16 + 16" "d - 16 \<in> box_blocks s p" "b_mp s (d - 16) = p" by simp_all
    have "d - 16 + 16 \<in> P" using dd(1) d by simp
    then show "b_seq s (d - 16) = 1" using live dd(2) unfolding box_live_def by metis
  qed
  let ?s = "s\<lparr>b_seq := (b_seq s)(b := 0), free_num := (free_num s)(p := free_num s p + 1)\<rparr>"
  have f: "box_free d s = ?s" using b by (simp add: box_free_def Let_def CAS_def MEMBLOCKHEAD_def)
  have bl: "box_blocks ?s p = box_blocks s p" by (simp add: box_blocks_def)
  have c: "card P = Suc (card (P - {d}))" using box_live_sub(2) [OF live] d by (rule card.remove)
  have n: "unat (free_num s p) + card P = unat (block_num s p)" "unat (block_num s p) \<le> 2 ^ 31"
    using live by (simp_all add: box_live_def)
  then have "unat (free_num s p + 1) = unat (free_num s p) + 1"
    using c by (simp add: unat_word_ariths(1))
  then show "box_live p (P - {d}) (box_free d s)"
    using live b(1,2) c unfolding f box_live_def bl by auto
  show "sizeof_block (box_free d s) = sizeof_block s" by (simp add: f)
qed


lemma box_foot_disjoint:
  assumes live: "box_live p P s" and d: "d \<in> P" "e \<in> P" "d \<noteq> e"
  shows "box_foot s d \<inter> box_foot s e = {}"
proof -
  let ?u = "unat (sizeof_block s)"
  have g: "16 \<le> d" "16 \<le> e" "d - 16 \<in> box_blocks s p" "e - 16 \<in> box_blocks s p" using live d by (auto simp: box_live_def)
  then obtain j k where jk: "d - 16 = b_pa s p + j * ?u" "e - 16 = b_pa s p + k * ?u" by (auto simp: box_blocks_def)
  then have "j \<noteq> k" using d(3) g(1,2) by auto
  then consider "Suc j \<le> k" | "Suc k \<le> j" by linarith
  then have "d - 16 + ?u \<le> e - 16 \<or> e - 16 + ?u \<le> d - 16"
  proof cases
    case 1
    then have "Suc j * ?u \<le> k * ?u" by (rule mult_le_mono1)
    then show ?thesis using jk by simp
  next
    case 2
    then have "Suc k * ?u \<le> j * ?u" by (rule mult_le_mono1)
    then show ?thesis using jk by simp
  qed
  then show ?thesis by (auto simp: box_foot_def)
qed

interpretation box: allocator "\<lambda>(_ :: unit) s. the (box_alloc s)" box_free "box_live p" box_foot for p
proof
  fix P s r d s' e
  assume live: "box_live p P s"
  obtain r0 s0 where a: "box_alloc s = Some (r0, s0)" and c: "case r0 of
      None \<Rightarrow> s0 = s \<and> card P = unat (block_num s p)
    | Some d \<Rightarrow> d \<notin> P \<and> box_live p (insert d P) s0 \<and> sizeof_block s0 = sizeof_block s"
    using box_alloc_live [OF live] by blast
  show "d \<notin> P \<and> box_live p (insert d P) s'" if "the (box_alloc s) = (Some d, s')"
    using that a c by simp
  show "box_foot s' e = box_foot s e" if "the (box_alloc s) = (Some d, s')" "e \<in> P"
    using that a c by (simp add: box_foot_def)
  show "box_live p P s' \<and> (\<forall>q \<in> P. box_foot s' q = box_foot s q)" if "the (box_alloc s) = (None, s')"
    using that a c live by simp
  show "box_live p (P - {d}) (box_free d s)" if "d \<in> P" by (rule box_free_live [OF live that])
  show "box_foot (box_free d s) e = box_foot s e" if "d \<in> P"
    using box_free_live(2) [OF live that] by (simp add: box_foot_def)
  show "box_foot s d \<inter> box_foot s e = {}" if "d \<in> P" "e \<in> P" "d \<noteq> e" by (rule box_foot_disjoint [OF live that])
qed

section \<open>Construction\<close>

lemma memblock_size_bounds:
  assumes "unat sizeof_T + 86 < 2 ^ 32"
  shows "unat sizeof_T + 16 \<le> unat (memblock_size sizeof_T)" "64 \<le> unat (memblock_size sizeof_T)"
    "unat (memblock_size sizeof_T) < unat sizeof_T + 87"
proof -
  let ?a = "pure_align_u32 sizeof_T 8"
  have "unat ?a = (unat sizeof_T + (8 - 1)) div 8 * 8" using unat_pure_align [of sizeof_T 3] assms by simp
  then have a: "unat sizeof_T \<le> unat ?a" "unat ?a < unat sizeof_T + 8"
    using round_up_bounds [of 8 "unat sizeof_T"] by simp_all
  then have a16: "unat (?a + 16) = unat ?a + 16" using assms by (simp add: unat_word_ariths(1))
  then have m: "unat (memblock_size sizeof_T) = (unat (?a + 16) + (64 - 1)) div 64 * 64"
    unfolding memblock_size_def using unat_pure_align [of "?a + 16" 6] a assms by simp
  then show "unat sizeof_T + 16 \<le> unat (memblock_size sizeof_T)" "unat (memblock_size sizeof_T) < unat sizeof_T + 87"
    using round_up_bounds [of 64 "unat (?a + 16)"] a a16 by simp_all
  have "1 \<le> (unat (?a + 16) + (64 - 1)) div 64" using a16 by simp
  then show "64 \<le> unat (memblock_size sizeof_T)" unfolding m by simp
qed

lemma box_init_live:
  assumes l: "unat (b_length s p) = L" "64 + unat (sizeof_block s) \<le> L" and sz: "64 \<le> unat (sizeof_block s)"
    and z: "\<And>a. a \<in> {p ..< p + L} \<Longrightarrow> b_seq s a = 0" and p: "b_mpool s = Some p"
  shows "box_live p {} (box_init_memblock p (sizeof_block s) s)"
    "\<And>b. b \<in> box_blocks (box_init_memblock p (sizeof_block s) s) p \<Longrightarrow> {b ..< b + unat (sizeof_block s)} \<subseteq> {p ..< p + L}"
proof -
  let ?u = "unat (sizeof_block s)" and ?s = "box_init_memblock p (sizeof_block s) s"
  have m: "pure_align_u32 32 64 = 64" by code_simp
  have "unat (b_length s p - sizeof_block s) = L - ?u" using l by (simp add: unat_sub word_le_nat_alt)
  then have c: "unat (b_length s p - sizeof_block s - 64) = L - ?u - 64" using l by (simp add: unat_sub word_le_nat_alt)
  have f: "b_pa ?s p = p + 64" "block_num ?s p = (b_length s p - sizeof_block s - 64) div sizeof_block s"
    "free_num ?s p = block_num ?s p" "b_seq ?s = b_seq s" "b_mpool ?s = Some p" "sizeof_block ?s = sizeof_block s"
    using p by (simp_all add: box_init_memblock_def m Let_def)
  have N: "unat (block_num ?s p) = (L - ?u - 64) div ?u" unfolding f(2) using c by (simp add: unat_div)
  have sub: "{b ..< b + ?u} \<subseteq> {p ..< p + L}" if bb: "b \<in> box_blocks ?s p" for b
  proof -
    obtain k where k: "k < (L - ?u - 64) div ?u" "b = p + 64 + k * ?u"
      using bb unfolding box_blocks_def N f(1,6) by auto
    have "Suc k * ?u \<le> (L - ?u - 64) div ?u * ?u" using k(1) by (intro mult_le_mono1) simp
    also have "\<dots> \<le> L - ?u - 64" by (rule div_times_less_eq_dividend)
    finally have "k * ?u + ?u \<le> L - ?u - 64" by simp
    then show ?thesis using k(2) l(2) by auto
  qed
  then show "\<And>b. b \<in> box_blocks ?s p \<Longrightarrow> {b ..< b + ?u} \<subseteq> {p ..< p + L}" .
  have "b_seq ?s b = 0" if "b \<in> box_blocks ?s p" for b
  proof -
    have "b \<in> {b ..< b + ?u}" using sz by simp
    then show ?thesis unfolding f using sub [OF that] z by blast
  qed
  moreover have "(L - ?u - 64) div ?u \<le> L div 64"
  proof -
    have "(L - ?u - 64) div ?u \<le> L div ?u" by (intro div_le_mono) simp
    also have "\<dots> \<le> L div 64" by (rule div_le_mono2 [OF _ sz]) simp
    finally show ?thesis .
  qed
  moreover have "L < 2 ^ 32"
  proof -
    have "unat (b_length s p) < 2 ^ 32" using unsigned_less [of "b_length s p"] by simp
    then show ?thesis unfolding l(1) .
  qed
  ultimately show "box_live p {} ?s" unfolding box_live_def f using N f sz by auto
qed


text \<open>The blocks stay where they are, whatever is allocated and released.\<close>

lemma box_layout_kept:
  "box_live p P s \<Longrightarrow> box_blocks (snd (run_calls (\<lambda>(_ :: unit) s. the (box_alloc s)) box_free cs P s)) p = box_blocks s p
    \<and> sizeof_block (snd (run_calls (\<lambda>(_ :: unit) s. the (box_alloc s)) box_free cs P s)) = sizeof_block s"
proof (induction cs arbitrary: P s)
  case (Cons c cs)
  have "b_pa (snd (box_scan p st i n s)) = b_pa s \<and> block_num (snd (box_scan p st i n s)) = block_num s
      \<and> sizeof_block (snd (box_scan p st i n s)) = sizeof_block s"
    for st i n s by (induction n arbitrary: i) (auto simp: Let_def CAS_def)
  then have scan: "box_blocks (snd (box_scan p st i n s)) p = box_blocks s p \<and> sizeof_block (snd (box_scan p st i n s)) = sizeof_block s"
    for st i n s by (simp add: box_blocks_def)
  have pl: "b_mpool s = Some p" using Cons.prems by (simp add: box_live_def)
  have al: "box_blocks (snd (the (box_alloc s))) p = box_blocks s p \<and> sizeof_block (snd (the (box_alloc s))) = sizeof_block s"
    using scan by (simp add: box_alloc_def pl box_mempool_alloc_def)
  have fr: "box_blocks (box_free d s) p = box_blocks s p \<and> sizeof_block (box_free d s) = sizeof_block s" for d
    by (simp add: box_free_def Let_def CAS_def box_blocks_def)
  show ?case
  proof (cases c)
    case (Request r)
    obtain po s' where a: "the (box_alloc s) = (po, s')" by fastforce
    have "case po of None \<Rightarrow> box_live p P s' | Some d \<Rightarrow> box_live p (insert d P) s'"
      using box.alloc_none [OF Cons.prems, of s'] box.alloc_some [OF Cons.prems, of _ s'] a
      by (auto split: option.splits)
    then show ?thesis using Cons.IH al a Request by (cases po) auto
  next
    case (Release d)
    then show ?thesis
      using Cons.IH [OF Cons.prems] Cons.IH [OF box.free_live [OF Cons.prems]] fr by simp
  qed
qed simp

lemma membox_new_live:
  assumes T: "unat sizeof_T + 300 \<le> unat pool_size" "unat pool_size + 4095 < 2 ^ 32"
    and new: "membox_new ml heap sizeof_T pool_size = s" "b_mpool s = Some p"
  shows "box_live p {} s" "sizeof_block s = memblock_size sizeof_T"
    "\<And>b. b \<in> box_blocks s p \<Longrightarrow> {b ..< b + unat (sizeof_block s)} \<subseteq> zone_set (hd (b_zones s))"
proof -
  let ?l = "pure_align_u32 pool_size 4096" and ?m = "memblock_size sizeof_T"
  have m: "unat sizeof_T + 16 \<le> unat ?m" "64 \<le> unat ?m" "unat ?m < unat sizeof_T + 87"
    using memblock_size_bounds [of sizeof_T] T by simp_all
  obtain z where z: "ml (b_zones heap) ?l = Some z"
  proof (cases "ml (b_zones heap) ?l")
    case None
    then have "b_mpool s = None"
      unfolding new(1) [symmetric] by (simp add: membox_new_def box_creat_mempool_def box_new_zone_def Let_def)
    then show ?thesis using new(2) by simp
  qed
  let ?q = "align_ptr z 64"
  let ?off = "(?q - z) mod 256"
  let ?s1 = "heap\<lparr>sizeof_block := ?m, b_mbsize := pure_align_u32 (pure_align_u32 sizeof_T 8 + 8) 64,
      b_poolsize := ?l, b_zones := (z, ?l) # b_zones heap, b_seq := (\<lambda>a. if a \<in> zone_set (z, ?l) then 0 else b_seq heap a),
      b_off_t := (b_off_t heap)(?q := ?off), b_next := (b_next heap)(?q := None),
      b_length := (b_length heap)(?q := ?l - of_nat ?off), b_mpool := Some ?q\<rparr>"
  have s: "s = box_init_memblock ?q (sizeof_block ?s1) ?s1"
    unfolding new(1) [symmetric] using z
    by (simp add: membox_new_def box_creat_mempool_def box_new_zone_def Let_def cong: if_cong)
  have p: "p = ?q" using new(2) unfolding s by (simp add: box_init_memblock_def Let_def)
  have "unat ?l = (unat pool_size + (4096 - 1)) div 4096 * 4096"
    using unat_pure_align [of pool_size 12] T(2) by simp
  then have l: "unat pool_size \<le> unat ?l" using round_up_bounds(1) [of 4096 "unat pool_size"] by simp
  let ?L = "unat ?l - (?q - z)"
  have zq: "z \<le> ?q" "?q < z + 64" by (rule align_ptr_64)+
  have len: "unat (b_length ?s1 ?q) = ?L"
  proof -
    have "?off = ?q - z" using zq by simp
    moreover have "unat (of_nat (?q - z) :: 32 word) = ?q - z" using zq by (simp only: unat_of_nat) simp
    ultimately show ?thesis using zq l T by (simp add: unat_sub word_le_nat_alt)
  qed
  have sub: "{?q ..< ?q + ?L} \<subseteq> zone_set (z, ?l)" using zq l T by (auto simp: zone_set_def)
  have h2: "64 + unat (sizeof_block ?s1) \<le> ?L" "64 \<le> unat (sizeof_block ?s1)" using m l T(1) zq by auto
  have h3: "b_seq ?s1 a = 0" if "a \<in> {?q ..< ?q + ?L}" for a
  proof -
    have "a \<in> zone_set (z, ?l)" using sub that by blast
    then show ?thesis by simp
  qed
  have h4: "b_mpool ?s1 = Some ?q" by simp
  show "box_live p {} s" unfolding s p by (rule box_init_live(1) [OF len h2 _ h4]) (rule h3)
  show "sizeof_block s = ?m" unfolding s by (simp add: box_init_memblock_def Let_def)
  show "{b ..< b + unat (sizeof_block s)} \<subseteq> zone_set (hd (b_zones s))" if "b \<in> box_blocks s p" for b
  proof -
    have "{b ..< b + unat (sizeof_block ?s1)} \<subseteq> {?q ..< ?q + ?L}"
      by (rule box_init_live(2) [OF len h2 _ h4, OF h3]) (use that in \<open>simp_all only: s p\<close>)
    moreover have "hd (b_zones s) = (z, ?l)" unfolding s by (simp add: box_init_memblock_def Let_def)
    moreover have "sizeof_block s = sizeof_block ?s1" unfolding s by (simp add: box_init_memblock_def Let_def)
    ultimately show ?thesis using sub by (simp only:)
  qed
qed

section \<open>Threads\<close>

text \<open>
  The atomic steps of \<^verbatim>\<open>mempool_alloc\<close> and \<^verbatim>\<open>box_free\<close>: between any two of them other threads run.
  \<open>Found st i\<close>: the flag was read as 0; \<open>Won b\<close>: the flag of \<open>b\<close> is set, the count not yet lowered;
  \<open>Counted b\<close>: the owner pointer is not yet stored; \<open>Freed b\<close>: the flag is cleared, the count not yet raised.
\<close>

datatype pc = Idle | Checked | Scan "32 word" nat | Found "32 word" nat | Won addr | Counted addr | Freed addr

record boxes =
  box :: membox
  at :: "nat \<Rightarrow> pc"
  held :: "addr set"

abbreviation go :: "nat \<Rightarrow> pc \<Rightarrow> boxes \<Rightarrow> boxes" where
  "go t c w \<equiv> w\<lparr>at := (at w)(t := c)\<rparr>"

inductive box_step :: "addr \<Rightarrow> boxes \<Rightarrow> boxes \<Rightarrow> bool" for p where
  check: "at w t = Idle \<Longrightarrow> free_num (box w) p \<noteq> 0 \<Longrightarrow> box_step p w (go t Checked w)"
| start: "at w t = Checked \<Longrightarrow>
    box_step p w (go t (Scan (block_num (box w) p - free_num (box w) p) 0) w)"
| look: "at w t = Scan st i \<Longrightarrow> i < unat (block_num (box w) p) \<Longrightarrow>
    box_step p w (go t (if b_seq (box w) (box_block (box w) p st i) = 0 then Found st i else Scan st (Suc i)) w)"
| full: "at w t = Scan st i \<Longrightarrow> \<not> i < unat (block_num (box w) p) \<Longrightarrow> box_step p w (go t Idle w)"
| cas: "at w t = Found st i \<Longrightarrow> b = box_block (box w) p st i \<Longrightarrow> CAS (b_seq (box w) b) 0 1 = (ok, v) \<Longrightarrow>
    box_step p w (go t (if ok then Won b else Scan st (Suc i))
      (w\<lparr>box := (box w)\<lparr>b_seq := (b_seq (box w))(b := v)\<rparr>\<rparr>))"
| count: "at w t = Won b \<Longrightarrow>
    box_step p w (go t (Counted b) (w\<lparr>box := (box w)\<lparr>free_num := (free_num (box w))(p := free_num (box w) p - 1)\<rparr>\<rparr>))"
| give: "at w t = Counted b \<Longrightarrow>
    box_step p w (go t Idle (w\<lparr>box := (box w)\<lparr>b_mp := (b_mp (box w))(b := p)\<rparr>,
      held := insert (b + MEMBLOCKHEAD) (held w)\<rparr>))"
| release: "at w t = Idle \<Longrightarrow> d \<in> held w \<Longrightarrow> b = d - MEMBLOCKHEAD \<Longrightarrow> CAS (b_seq (box w) b) 1 0 = (ok, v) \<Longrightarrow>
    box_step p w (go t (if ok then Freed b else Idle)
      (w\<lparr>box := (box w)\<lparr>b_seq := (b_seq (box w))(b := v)\<rparr>, held := held w - {d}\<rparr>))"
| credit: "at w t = Freed b \<Longrightarrow> q = b_mp (box w) b \<Longrightarrow>
    box_step p w (go t Idle (w\<lparr>box := (box w)\<lparr>free_num := (free_num (box w))(q := free_num (box w) q + 1)\<rparr>\<rparr>))"

text \<open>The block a thread has claimed and not yet handed out.\<close>

definition claims :: "boxes \<Rightarrow> nat \<Rightarrow> addr \<Rightarrow> bool" where
  "claims w t b \<longleftrightarrow> at w t = Won b \<or> at w t = Counted b"

definition box_excl :: "boxes \<Rightarrow> bool" where
  "box_excl w \<longleftrightarrow> (\<forall>t b. claims w t b \<longrightarrow> b_seq (box w) b = 1 \<and> b + 16 \<notin> held w)
     \<and> (\<forall>t u b. claims w t b \<and> claims w u b \<longrightarrow> t = u)
     \<and> (\<forall>d \<in> held w. 16 \<le> d \<and> b_seq (box w) (d - 16) = 1)"

lemma box_exclD:
  assumes "box_excl w"
  shows "claims w t b \<Longrightarrow> b_seq (box w) b = 1 \<and> b + 16 \<notin> held w" "claims w t b \<Longrightarrow> claims w u b \<Longrightarrow> t = u"
    "d \<in> held w \<Longrightarrow> 16 \<le> d \<and> b_seq (box w) (d - 16) = 1"
  using assms unfolding box_excl_def by blast+

lemma box_exclI:
  assumes "\<And>t b. claims w t b \<Longrightarrow> b_seq (box w) b = 1 \<and> b + 16 \<notin> held w" "\<And>t u b. claims w t b \<Longrightarrow> claims w u b \<Longrightarrow> t = u"
    "\<And>d. d \<in> held w \<Longrightarrow> 16 \<le> d \<and> b_seq (box w) (d - 16) = 1"
  shows "box_excl w"
  unfolding box_excl_def using assms by blast

text \<open>A step that claims nothing and writes no flag keeps the invariant.\<close>

lemma box_excl_quiet:
  assumes w: "box_excl w" and s: "b_seq (box w') = b_seq (box w)" "held w' = held w"
    and c: "\<And>u b. claims w' u b \<Longrightarrow> claims w u b"
  shows "box_excl w'"
proof (rule box_exclI)
  show "b_seq (box w') b = 1 \<and> b + 16 \<notin> held w'" if "claims w' t b" for t b
    unfolding s by (rule box_exclD(1) [OF w c [OF that]])
  show "t = u" if "claims w' t b" "claims w' u b" for t u b
    by (rule box_exclD(2) [OF w c [OF that(1)] c [OF that(2)]])
  show "16 \<le> d \<and> b_seq (box w') (d - 16) = 1" if "d \<in> held w'" for d
    using box_exclD(3) [OF w] that unfolding s .
qed

lemma box_step_cas:
  assumes w: "box_excl w" and t: "at w t = Found st i" and z: "b_seq (box w) b = 0"
  shows "box_excl (go t (Won b) (w\<lparr>box := (box w)\<lparr>b_seq := (b_seq (box w))(b := 1)\<rparr>\<rparr>))" (is "box_excl ?w")
proof (rule box_exclI)
  have c: "claims ?w u e \<longleftrightarrow> (if u = t then e = b else claims w u e)" for u e by (auto simp: claims_def)
  have no: "\<not> claims w u b" for u
  proof
    assume "claims w u b"
    from box_exclD(1) [OF w this] z show False by simp
  qed
  have nh: "b + 16 \<notin> held w"
  proof
    assume "b + 16 \<in> held w"
    from box_exclD(3) [OF w this] z show False by simp
  qed
  show "b_seq (box ?w) e = 1 \<and> e + 16 \<notin> held ?w" if "claims ?w u e" for u e
    using that box_exclD(1) [OF w, of u e] nh unfolding c by (auto split: if_splits)
  show "u = v" if "claims ?w u e" "claims ?w v e" for u v e
    using that box_exclD(2) [OF w, of u e v] no unfolding c by (auto split: if_splits)
  show "16 \<le> d \<and> b_seq (box ?w) (d - 16) = 1" if "d \<in> held ?w" for d
    using that box_exclD(3) [OF w, of d] by simp
qed

lemma box_step_give:
  assumes w: "box_excl w" and t: "claims w t b"
  shows "box_excl (go t Idle (w\<lparr>box := (box w)\<lparr>b_mp := f\<rparr>, held := insert (b + 16) (held w)\<rparr>))" (is "box_excl ?w")
proof (rule box_exclI)
  have c: "claims ?w u e \<longleftrightarrow> u \<noteq> t \<and> claims w u e" for u e by (auto simp: claims_def)
  show "b_seq (box ?w) e = 1 \<and> e + 16 \<notin> held ?w" if "claims ?w u e" for u e
    using that box_exclD(1) [OF w, of u e] box_exclD(2) [OF w t, of u] unfolding c by auto
  show "u = v" if "claims ?w u e" "claims ?w v e" for u v e
    using that box_exclD(2) [OF w, of u e v] unfolding c by simp
  show "16 \<le> d \<and> b_seq (box ?w) (d - 16) = 1" if "d \<in> held ?w" for d
    using that box_exclD(3) [OF w, of d] box_exclD(1) [OF w t] by auto
qed

lemma box_step_release:
  assumes w: "box_excl w" and d: "d \<in> held w" "d = b + 16" and t: "at w t = Idle"
  shows "box_excl (go t (Freed b) (w\<lparr>box := (box w)\<lparr>b_seq := (b_seq (box w))(b := 0)\<rparr>, held := held w - {d}\<rparr>))" (is "box_excl ?w")
proof (rule box_exclI)
  have c: "claims ?w u e \<longleftrightarrow> claims w u e" for u e using t by (auto simp: claims_def)
  show "b_seq (box ?w) e = 1 \<and> e + 16 \<notin> held ?w" if "claims ?w u e" for u e
    using that box_exclD(1) [OF w, of u e] d unfolding c by auto
  show "u = v" if "claims ?w u e" "claims ?w v e" for u v e
    using that box_exclD(2) [OF w, of u e v] unfolding c by simp
  show "16 \<le> e \<and> b_seq (box ?w) (e - 16) = 1" if "e \<in> held ?w" for e
    using that box_exclD(3) [OF w, of e] d(2) by auto
qed

lemma box_step_excl: "box_step p w w' \<Longrightarrow> box_excl w \<Longrightarrow> box_excl w'"
proof (induction rule: box_step.induct)
  case (cas w t st i b ok v)
  show ?case
  proof (cases "b_seq (box w) b = 0")
    case True
    then show ?thesis using box_step_cas [OF cas(4,1) True] cas(3) by (simp add: CAS_def)
  next
    case False
    then have "\<not> ok" "v = b_seq (box w) b" using cas(3) by (auto simp: CAS_def split: if_splits)
    then show ?thesis by (intro box_excl_quiet [OF cas(4)]) (auto simp: claims_def split: if_splits)
  qed
next
  case (give w t b)
  then have "claims w t b" by (simp add: claims_def)
  then show ?case using box_step_give [OF give(2)] by (simp add: MEMBLOCKHEAD_def)
next
  case (release w t d b ok v)
  have d: "16 \<le> d" "b_seq (box w) b = 1" using box_exclD(3) [OF release(5,2)] release(3) by (simp_all add: MEMBLOCKHEAD_def)
  then have "d = b + 16" using release(3) by (simp add: MEMBLOCKHEAD_def)
  from box_step_release [OF release(5,2) this release(1)] show ?case
    using release(4) d(2) by (simp add: CAS_def)
qed (rule box_excl_quiet, assumption, auto simp: claims_def split: if_splits)+


section \<open>Properties\<close>

text \<open>
  C34. A memory box with room for at least one block, run by one thread: through any sequence of
  \<^verbatim>\<open>box_alloc\<close> and \<^verbatim>\<open>box_free\<close> the objects handed out fit into their blocks, which lie in the zone
  and never overlap, and \<^verbatim>\<open>box_alloc\<close> returns \<^verbatim>\<open>NULL\<close> exactly when all blocks are out.
\<close>

theorem membox_history:
  assumes "unat sizeof_T + 300 \<le> unat pool_size" "unat pool_size + 4095 < 2 ^ 32"
    "membox_new ml heap sizeof_T pool_size = s" "b_mpool s = Some p"
    "run_calls (\<lambda>(_ :: unit) s. the (box_alloc s)) box_free cs {} s = (P, s')"
  shows "(\<forall>d \<in> P. {d ..< d + unat sizeof_T} \<subseteq> box_foot s' d \<and> box_foot s' d \<subseteq> zone_set (hd (b_zones s))
      \<and> (\<forall>e \<in> P. d \<noteq> e \<longrightarrow> box_foot s' d \<inter> box_foot s' e = {}))
    \<and> (\<exists>r t. box_alloc s' = Some (r, t) \<and> (r = None \<longleftrightarrow> card P = unat (block_num s' p)))"
proof -
  note n = membox_new_live [OF assms(1-4)]
  have live: "box_live p P s'" using box.run_live [OF n(1), of cs] assms(5) by simp
  have lay: "box_blocks s' p = box_blocks s p" "sizeof_block s' = sizeof_block s"
    using box_layout_kept [OF n(1), of cs] assms(5) by simp_all
  have T: "unat sizeof_T + 16 \<le> unat (sizeof_block s)"
    unfolding n(2) using memblock_size_bounds(1) [of sizeof_T] assms(1,2) by simp
  have d: "{d ..< d + unat sizeof_T} \<subseteq> box_foot s' d \<and> box_foot s' d \<subseteq> zone_set (hd (b_zones s))" if "d \<in> P" for d
  proof -
    have b: "16 \<le> d" "d - 16 \<in> box_blocks s p" using live that lay(1) by (auto simp: box_live_def)
    have "box_foot s' d \<subseteq> zone_set (hd (b_zones s))" using n(3) [OF b(2)] unfolding box_foot_def lay(2) .
    then show ?thesis using b(1) T by (auto simp: box_foot_def lay(2))
  qed
  obtain r t where a: "box_alloc s' = Some (r, t)" and c: "case r of
      None \<Rightarrow> t = s' \<and> card P = unat (block_num s' p)
    | Some d \<Rightarrow> d \<notin> P \<and> box_live p (insert d P) t \<and> sizeof_block t = sizeof_block s'"
    using box_alloc_live [OF live] by blast
  have "card P \<noteq> unat (block_num s' p)" if "r = Some d" for d
  proof
    assume "card P = unat (block_num s' p)"
    then have "free_num s' p = 0" using live unfolding box_live_def by (metis add_cancel_left_left unat_eq_zero)
    then have "box_alloc s' = Some (None, s')" using live by (simp add: box_alloc_def box_mempool_alloc_def box_live_def)
    then show False using a that by simp
  qed
  then have "r = None \<longleftrightarrow> card P = unat (block_num s' p)" using c by (cases r) auto
  then show ?thesis using a d box_foot_disjoint [OF live] by blast
qed

definition no_box :: membox where
  "no_box = \<lparr>b_seq = (\<lambda>_. 0), b_mp = (\<lambda>_. 0), b_next = (\<lambda>_. None), b_length = (\<lambda>_. 0), b_off_t = (\<lambda>_. 0),
     block_num = (\<lambda>_. 2), free_num = (\<lambda>_. 2), b_pa = (\<lambda>_. 64), b_mpool = None, b_mbsize = 0, b_poolsize = 0,
     sizeof_block = 64, b_zones = []\<rparr>"

theorem membox_history_witness:
  "\<exists>s p P s' r t. membox_new (\<lambda>_ _. Some 64) no_box 100 4096 = s \<and> b_mpool s = Some p
    \<and> run_calls (\<lambda>(_ :: unit) s. the (box_alloc s)) box_free [Request (), Request ()] {} s = (P, s')
    \<and> box_alloc s' = Some (r, t) \<and> (r = None) = (card P = unat (block_num s' p))"
proof -
  let ?s = "membox_new (\<lambda>_ _. Some 64) no_box 100 4096"
  have p: "b_mpool ?s = Some 64"
    by (simp add: membox_new_def box_creat_mempool_def box_new_zone_def box_init_memblock_def align_ptr_def Let_def)
  obtain P s' where r: "run_calls (\<lambda>(_ :: unit) s. the (box_alloc s)) box_free [Request (), Request ()] {} ?s = (P, s')"
    by fastforce
  have h: "unat (100 :: 32 word) + 300 \<le> unat (4096 :: 32 word)" "unat (4096 :: 32 word) + 4095 < 2 ^ 32" by simp_all
  from membox_history [OF h refl p r] obtain q t where "box_alloc s' = Some (q, t)" "(q = None) = (card P = unat (block_num s' 64))"
    by blast
  with p r show ?thesis by blast
qed

text \<open>
  C35. In every interleaving of the atomic steps of any number of threads, no two threads claim the
  same block, no block is claimed while its data is still held, and a release finds its flag set,
  so that \<^verbatim>\<open>free error\<close> is never printed for a pointer that is held.
\<close>

theorem membox_exclusive:
  assumes "(box_step p)\<^sup>*\<^sup>* w w'" "\<forall>t. at w t = Idle" "held w = {}"
  shows "(\<forall>t u b. claims w' t b \<and> claims w' u b \<longrightarrow> t = u) \<and> (\<forall>t b. claims w' t b \<longrightarrow> b + 16 \<notin> held w')
    \<and> (\<forall>d \<in> held w'. b_seq (box w') (d - 16) = 1)"
proof -
  have "box_excl w" by (rule box_exclI) (use assms(2,3) in \<open>simp_all add: claims_def\<close>)
  with assms(1) have "box_excl w'" by (induction rule: rtranclp_induct) (auto intro: box_step_excl)
  then show ?thesis unfolding box_excl_def by blast
qed


theorem membox_exclusive_witness:
  "\<exists>w'. (box_step 0)\<^sup>*\<^sup>* \<lparr>box = no_box, at = (\<lambda>_. Idle), held = {}\<rparr> w' \<and> claims w' 7 64 \<and> 80 \<notin> held w'"
proof -
  let ?w = "\<lparr>box = no_box, at = (\<lambda>_. Idle), held = {}\<rparr>"
  let ?w1 = "go 7 Checked ?w" and ?w2 = "go 7 (Scan 0 0) ?w" and ?w3 = "go 7 (Found 0 0) ?w"
  let ?w4 = "go 7 (Won 64) (?w\<lparr>box := no_box\<lparr>b_seq := (b_seq no_box)(64 := 1)\<rparr>\<rparr>)"
  have s1: "box_step 0 ?w ?w1" by (rule box_step.check) (simp_all add: no_box_def)
  have s2: "box_step 0 ?w1 ?w2" using box_step.start [of ?w1 7 0] by (simp add: no_box_def)
  have s3: "box_step 0 ?w2 ?w3" using box_step.look [of ?w2 7 0 0 0] by (simp add: no_box_def)
  have s4: "box_step 0 ?w3 ?w4"
  proof -
    have "64 = box_block (box ?w3) 0 0 0" by (simp add: no_box_def box_block_def)
    moreover have "CAS (b_seq (box ?w3) 64) 0 1 = (True, 1)" by (simp add: no_box_def CAS_def)
    moreover have "at ?w3 7 = Found 0 0" by simp
    ultimately have "box_step 0 ?w3 (go 7 (if True then Won 64 else Scan 0 (Suc 0))
        (?w3\<lparr>box := (box ?w3)\<lparr>b_seq := (b_seq (box ?w3))(64 := 1)\<rparr>\<rparr>))" by (rule box_step.cas [rotated 1])
    then show ?thesis by simp
  qed
  have r: "(box_step 0)\<^sup>*\<^sup>* ?w ?w4"
    by (rule converse_rtranclp_into_rtranclp [of "box_step 0", OF s1], rule converse_rtranclp_into_rtranclp [of "box_step 0", OF s2],
        rule converse_rtranclp_into_rtranclp [of "box_step 0", OF s3], rule converse_rtranclp_into_rtranclp [of "box_step 0", OF s4], rule rtranclp.rtrancl_refl)
  have c: "claims ?w4 7 64" by (simp add: claims_def)
  have "(\<forall>t. at ?w t = Idle)" "held ?w = {}" by simp_all
  from membox_exclusive [OF r this] c have "64 + 16 \<notin> held ?w4" by blast
  then have "80 \<notin> held ?w4" by simp
  with r c show ?thesis by blast
qed

end
