(* ===== verification/Sync.thy ===== *)
theory Sync
  imports Prelude
begin

text \<open>
  Lock-free helpers: the sequence lock of \<^verbatim>\<open>src/src/lock/seqlock.h\<close>, with one writer and one reader that
  interleave, and the reference count of \<^verbatim>\<open>src/src/ref/refc.cpp\<close>. Memory is sequentially consistent: the
  barriers of the code have no effect of their own here. The mutexes are in \<open>Locks\<close>.
\<close>

section \<open>Model\<close>

subsection \<open>Sequence lock\<close>

record seqlock_t =
  sequence :: "32 word"

definition init_seqlock :: "seqlock_t \<Rightarrow> seqlock_t" where
  "init_seqlock pl = pl\<lparr>sequence := 0\<rparr>"

definition write_sequnlock :: "seqlock_t \<Rightarrow> seqlock_t" where
  "write_sequnlock pl = pl\<lparr>sequence := sequence pl + 1\<rparr>"

definition write_seqlock :: "seqlock_t \<Rightarrow> seqlock_t" where
  "write_seqlock pl = pl\<lparr>sequence := sequence pl + 1\<rparr>"

text \<open>One turn of the loop: \<open>None\<close> is \<^verbatim>\<open>goto repeat\<close>.\<close>

definition read_seqbegin_turn :: "seqlock_t \<Rightarrow> 32 word option" where
  "read_seqbegin_turn pl = (let ret = sequence pl in if ret AND 1 \<noteq> 0 then None else Some ret)"

definition read_seqretry :: "seqlock_t \<Rightarrow> 32 word \<Rightarrow> bool" where
  "read_seqretry pl start \<longleftrightarrow> sequence pl \<noteq> start"

text \<open>
  A writer stores to the protected cells between \<^verbatim>\<open>write_seqlock\<close> and \<^verbatim>\<open>write_sequnlock\<close>; a reader copies
  \<open>n\<close> cells, one at a time, between \<^verbatim>\<open>read_seqbegin\<close> and \<^verbatim>\<open>read_seqretry\<close>. Besides the program's variables
  the state has what the proof speaks of: how often the sequence was increased, its number at the reader's
  begin and end, and the contents after each write.
\<close>

datatype reader_pc = R_begin | R_copy nat | R_done

record 'v seq_state =
  pl :: seqlock_t
  shared :: "nat \<Rightarrow> 'v"
  writing :: bool
  r_pc :: reader_pc
  r_start :: "32 word"
  r_buf :: "nat \<Rightarrow> 'v"
  incs :: nat
  begin_incs :: nat
  end_incs :: nat
  versions :: "(nat \<Rightarrow> 'v) list"

definition seq_init :: "(nat \<Rightarrow> 'v) \<Rightarrow> 'v seq_state" where
  "seq_init d = \<lparr>pl = init_seqlock \<lparr>sequence = 0\<rparr>, shared = d, writing = False, r_pc = R_begin, r_start = 0, r_buf = d,
     incs = 0, begin_incs = 0, end_incs = 0, versions = [d]\<rparr>"

inductive seq_step :: "nat \<Rightarrow> 'v seq_state \<Rightarrow> 'v seq_state \<Rightarrow> bool" for n where
  w_lock: "\<not> writing s \<Longrightarrow> seq_step n s (s\<lparr>pl := write_seqlock (pl s), writing := True, incs := Suc (incs s)\<rparr>)"
| w_store: "writing s \<Longrightarrow> seq_step n s (s\<lparr>shared := (shared s)(i := v)\<rparr>)"
| w_unlock: "writing s \<Longrightarrow>
    seq_step n s (s\<lparr>pl := write_sequnlock (pl s), writing := False, incs := Suc (incs s), versions := versions s @ [shared s]\<rparr>)"
| r_spin: "r_pc s = R_begin \<Longrightarrow> read_seqbegin_turn (pl s) = None \<Longrightarrow> seq_step n s s"
| r_enter: "r_pc s = R_begin \<Longrightarrow> read_seqbegin_turn (pl s) = Some start \<Longrightarrow>
    seq_step n s (s\<lparr>r_pc := R_copy 0, r_start := start, begin_incs := incs s\<rparr>)"
| r_copy: "r_pc s = R_copy k \<Longrightarrow> k < n \<Longrightarrow> seq_step n s (s\<lparr>r_pc := R_copy (Suc k), r_buf := (r_buf s)(k := shared s k)\<rparr>)"
| r_again: "r_pc s = R_copy n \<Longrightarrow> read_seqretry (pl s) (r_start s) \<Longrightarrow> seq_step n s (s\<lparr>r_pc := R_begin\<rparr>)"
| r_accept: "r_pc s = R_copy n \<Longrightarrow> \<not> read_seqretry (pl s) (r_start s) \<Longrightarrow>
    seq_step n s (s\<lparr>r_pc := R_done, end_incs := incs s\<rparr>)"

subsection \<open>Reference count\<close>

text \<open>\<open>None\<close>: the object is deleted. \<^verbatim>\<open>release\<close> returns a value only then.\<close>

definition refc_new :: "32 word" where "refc_new = 1"

definition add_ref :: "32 word \<Rightarrow> 32 word \<times> 32 word" where
  "add_ref m_refc = (m_refc + 1, m_refc + 1)"

definition refc_release :: "32 word \<Rightarrow> 32 word option" where
  "refc_release m_refc = (let ret = m_refc - 1 in if ret = 0 then None else Some ret)"

section \<open>Consistent snapshots\<close>

lemma even_word_of_nat: "(of_nat m :: 32 word) AND 1 \<noteq> 0 \<longleftrightarrow> odd m"
  by (simp add: and_one_eq mod_2_eq_odd)

text \<open>The sequence counts the increments, and a copy that saw none is a copy of the last version.\<close>

definition seq_inv :: "nat \<Rightarrow> 'v seq_state \<Rightarrow> bool" where
  "seq_inv n s \<longleftrightarrow> sequence (pl s) = of_nat (incs s) \<and> (writing s \<longleftrightarrow> odd (incs s)) \<and> length (versions s) = Suc (incs s div 2)
     \<and> (\<not> writing s \<longrightarrow> shared s = last (versions s))
     \<and> (case r_pc s of R_begin \<Rightarrow> True
        | R_copy k \<Rightarrow> even (begin_incs s) \<and> begin_incs s \<le> incs s \<and> r_start s = of_nat (begin_incs s) \<and> k \<le> n
            \<and> (begin_incs s = incs s \<longrightarrow> (\<forall>i < k. r_buf s i = shared s i))
        | R_done \<Rightarrow> begin_incs s \<le> end_incs s \<and> end_incs s \<le> incs s
            \<and> (end_incs s < begin_incs s + 2 ^ 32 \<longrightarrow> begin_incs s div 2 < length (versions s)
                 \<and> (\<forall>i < n. r_buf s i = (versions s ! (begin_incs s div 2)) i)))"

lemma seq_inv_init: "seq_inv n (seq_init d)"
  by (simp add: seq_inv_def seq_init_def init_seqlock_def)

lemma of_nat_word_eq_near:
  assumes "(of_nat a :: 32 word) = of_nat b" "b \<le> a" "a < b + 2 ^ 32"
  shows "a = b"
proof -
  have "(2 ^ 32 :: nat) dvd a - b"
    using assms(1,2) by (simp add: word_of_nat_eq_iff take_bit_eq_mod mod_eq_dvd_iff_nat)
  then show ?thesis using assms(2,3) by (auto dest: dvd_imp_le)
qed

lemma seq_inv_step: "seq_step n s s' \<Longrightarrow> seq_inv n s \<Longrightarrow> seq_inv n s'"
proof (induction rule: seq_step.induct)
  case (r_accept s)
  then have i: "sequence (pl s) = of_nat (incs s)" "r_start s = of_nat (begin_incs s)" "begin_incs s \<le> incs s"
    "even (begin_incs s)" "sequence (pl s) = r_start s" "length (versions s) = Suc (incs s div 2)"
    "writing s \<longleftrightarrow> odd (incs s)" "\<not> writing s \<longrightarrow> shared s = last (versions s)"
    "begin_incs s = incs s \<longrightarrow> (\<forall>i < n. r_buf s i = shared s i)"
    by (auto simp: seq_inv_def read_seqretry_def)
  have "begin_incs s div 2 < length (versions s) \<and> (\<forall>i < n. r_buf s i = (versions s ! (begin_incs s div 2)) i)"
    if "incs s < begin_incs s + 2 ^ 32"
  proof -
    have "incs s = begin_incs s" using of_nat_word_eq_near [of "incs s" "begin_incs s"] i that by simp
    moreover from this have "last (versions s) = versions s ! (begin_incs s div 2)"
      using i(6) by (simp add: last_conv_nth flip: length_0_conv)
    ultimately show ?thesis using i by simp
  qed
  then show ?case using i by (simp add: seq_inv_def)
next
  case (r_enter s start)
  then show ?case using even_word_of_nat [of "incs s"]
    by (simp add: seq_inv_def read_seqbegin_turn_def Let_def split: if_splits)
next
  case (w_unlock s)
  then show ?case
    by (auto simp: seq_inv_def write_sequnlock_def nth_append elim: oddE split: reader_pc.splits)
next
  case (w_lock s)
  then show ?case by (auto simp: seq_inv_def write_seqlock_def split: reader_pc.splits)
qed (auto simp: seq_inv_def less_Suc_eq split: reader_pc.splits)

text \<open>
  C22. A reader that is let through has copied the contents that one
  write, or the start, left behind, namely the one that was current when it began, whatever the writer did
  in between, provided the sequence did not wrap around during the copy.
\<close>

theorem seqlock_snapshot:
  assumes "(seq_step n)\<^sup>*\<^sup>* (seq_init d) s" "r_pc s = R_done" "end_incs s < begin_incs s + 2 ^ 32"
  shows "begin_incs s div 2 < length (versions s) \<and> (\<forall>i < n. r_buf s i = (versions s ! (begin_incs s div 2)) i)"
proof -
  have "seq_inv n s"
    using assms(1) by (induction rule: rtranclp_induct) (auto intro: seq_inv_init seq_inv_step)
  then show ?thesis using assms(2,3) by (simp add: seq_inv_def)
qed


text \<open>A read next to a write: the copy is the first version although the second is there at the end.\<close>

lemma seq_run_example:
  defines "s1 \<equiv> (seq_init (\<lambda>_. 0 :: nat))\<lparr>r_pc := R_copy 0, r_start := 0, begin_incs := 0\<rparr>"
  defines "s2 \<equiv> s1\<lparr>r_pc := R_copy 1, r_buf := (\<lambda>_. 0)(0 := 0)\<rparr>"
  defines "s3 \<equiv> s2\<lparr>r_pc := R_done, end_incs := 0\<rparr>"
  shows "(seq_step 1)\<^sup>*\<^sup>* (seq_init (\<lambda>_. 0 :: nat))
     (s3\<lparr>pl := write_seqlock (pl s3), writing := True, incs := Suc (incs s3)\<rparr>)"
proof -
  have "seq_step 1 (seq_init (\<lambda>_. 0 :: nat)) s1"
    using seq_step.r_enter [of "seq_init (\<lambda>_. 0 :: nat)" 0 1]
    by (simp add: s1_def seq_init_def init_seqlock_def read_seqbegin_turn_def)
  moreover have "seq_step 1 s1 s2"
    using seq_step.r_copy [of s1 0 1] by (simp add: s2_def s1_def seq_init_def)
  moreover have "seq_step 1 s2 s3"
    using seq_step.r_accept [of s2 1] by (simp add: s3_def s2_def s1_def seq_init_def init_seqlock_def read_seqretry_def)
  moreover have "seq_step 1 s3 (s3\<lparr>pl := write_seqlock (pl s3), writing := True, incs := Suc (incs s3)\<rparr>)"
    by (rule seq_step.w_lock) (simp add: s3_def s2_def s1_def seq_init_def)
  ultimately show ?thesis by (meson converse_rtranclp_into_rtranclp rtranclp.rtrancl_refl)
qed

theorem seqlock_snapshot_witness:
  "\<exists>s. (seq_step 1)\<^sup>*\<^sup>* (seq_init (\<lambda>_. 0 :: nat)) s \<and> r_pc s = R_done
     \<and> begin_incs s div 2 < length (versions s) \<and> (\<forall>i < 1. r_buf s i = (versions s ! (begin_incs s div 2)) i)"
proof -
  have "r_pc s = R_done \<and> begin_incs s div 2 < length (versions s) \<and> (\<forall>i < 1. r_buf s i = (versions s ! (begin_incs s div 2)) i)"
    if "(seq_step 1)\<^sup>*\<^sup>* (seq_init (\<lambda>_. 0 :: nat)) s" "r_pc s = R_done" "end_incs s = 0" for s
    using seqlock_snapshot [OF that(1,2)] that(2,3) by simp
  from this [OF seq_run_example] seq_run_example show ?thesis by (auto simp: seq_init_def)
qed

text \<open>
  Two writers break the protocol: the spin lock that excluded one is commented out, and after two
  \<^verbatim>\<open>write_seqlock\<close> the sequence is even again, so a reader is let in while both write.
\<close>

lemma two_writers_admit_reader:
  "sequence p = of_nat (2 * m) \<Longrightarrow> read_seqbegin_turn (write_seqlock (write_seqlock p)) = Some (of_nat (2 * m + 2))"
  using even_word_of_nat [of "2 * m + 2"] by (simp add: read_seqbegin_turn_def write_seqlock_def Let_def)

section \<open>Reference count\<close>

text \<open>
  \<open>k\<close> further references and \<open>j\<close> releases: the object is alive as long as there are fewer releases than
  references, and the last release deletes it.
\<close>

fun releases :: "nat \<Rightarrow> 32 word \<Rightarrow> 32 word option" where
  "releases 0 m = Some m"
| "releases (Suc j) m = (case refc_release m of None \<Rightarrow> None | Some m' \<Rightarrow> releases j m')"

lemma refc_release_of_nat:
  "0 < m \<Longrightarrow> m < 2 ^ 32 \<Longrightarrow> refc_release (of_nat m) = (if m = 1 then None else Some (of_nat (m - 1)))"
proof -
  assume m: "0 < m" "m < 2 ^ 32"
  have "(of_nat m :: 32 word) = 1 \<longleftrightarrow> m = 1"
    using of_nat_word_eq_near [of m 1] m by (metis Suc_leI One_nat_def of_nat_1 trans_less_add2)
  moreover have "(of_nat m :: 32 word) - 1 = of_nat (m - 1)" using m by (simp add: of_nat_diff)
  ultimately show ?thesis unfolding refc_release_def Let_def by (metis eq_iff_diff_eq_0)
qed

lemma releases_delete_last:
  assumes "0 < m" "m < 2 ^ 32"
  shows "releases j (of_nat m) = (if j < m then Some (of_nat (m - j)) else None)"
  using assms
proof (induction j arbitrary: m)
  case (Suc j)
  show ?case
  proof (cases "m = 1")
    case False
    then show ?thesis using Suc.IH [of "m - 1"] Suc.prems by (auto simp: refc_release_of_nat)
  qed (use Suc.prems in \<open>simp add: refc_release_of_nat [of 1, simplified]\<close>)
qed simp

end
