(* ===== verification/Conn_Pool.thy ===== *)
theory Conn_Pool
  imports Slab_Spec Sync
begin

text \<open>
  Pooled connections: \<^verbatim>\<open>CConn_pool\<close> of \<^verbatim>\<open>src/src/base/base_conn_pool.h\<close> with the reference count of
  \<^verbatim>\<open>CBase_connect\<close> (\<^verbatim>\<open>src/src/base/base_connect.cpp\<close>), on top of the slab allocator. Of a connection only
  what the pool touches is kept: the count, the descriptor and whether the delete callback is set. The
  size of the template argument is a parameter.
\<close>

section \<open>Model\<close>

record pconn =
  c_sockfd :: int
  c_refc :: "32 word"
  c_pdelete :: bool

record conn_pool =
  connect_pool :: slab
  live_conns :: "addr \<rightharpoonup> pconn"

text \<open>The constructor of a connection, and \<^verbatim>\<open>set_func\<close>.\<close>

definition CBase_connect :: "int \<Rightarrow> pconn" where
  "CBase_connect connfd = \<lparr>c_sockfd = connfd, c_refc = 1, c_pdelete = False\<rparr>"

definition set_func :: "pconn \<Rightarrow> pconn" where
  "set_func c = c\<lparr>c_pdelete := True\<rparr>"

definition CConn_pool :: "malloc \<Rightarrow> slab \<Rightarrow> 32 word \<Rightarrow> 32 word \<Rightarrow> conn_pool option" where
  "CConn_pool ml heap sizeof_T i_limit =
     map_option (\<lambda>s. \<lparr>connect_pool = s, live_conns = Map.empty\<rparr>)
       (if sint i_limit > 0 then pure_slab ml heap sizeof_T (sizeof_T * i_limit) i_limit
        else pure_slab ml heap sizeof_T (sizeof_T * 128) (-1))"

definition connect_create :: "malloc \<Rightarrow> int \<Rightarrow> conn_pool \<Rightarrow> (addr option \<times> conn_pool) option" where
  "connect_create ml connfd st =
     (case slab_alloc ml (connect_pool st) of None \<Rightarrow> None
      | Some (mempt, s) \<Rightarrow>
          (case mempt of None \<Rightarrow> Some (None, st\<lparr>connect_pool := s\<rparr>)
           | Some r \<Rightarrow> Some (Some r, st\<lparr>connect_pool := s, live_conns := (live_conns st)(r \<mapsto> set_func (CBase_connect connfd))\<rparr>)))"

definition conn_free :: "addr \<Rightarrow> conn_pool \<Rightarrow> conn_pool" where
  "conn_free pd_todel st = st\<lparr>connect_pool := slab_free pd_todel (connect_pool st), live_conns := (live_conns st)(pd_todel := None)\<rparr>"

text \<open>\<open>None\<close>: the connection does not exist (any more), or is deleted without having been allocated alone.\<close>

definition conn_add_ref :: "addr \<Rightarrow> conn_pool \<Rightarrow> conn_pool option" where
  "conn_add_ref p st =
     (case live_conns st p of None \<Rightarrow> None
      | Some c \<Rightarrow> Some (st\<lparr>live_conns := (live_conns st)(p \<mapsto> c\<lparr>c_refc := fst (add_ref (c_refc c))\<rparr>)\<rparr>))"

definition conn_release :: "addr \<Rightarrow> conn_pool \<Rightarrow> conn_pool option" where
  "conn_release p st =
     (case live_conns st p of None \<Rightarrow> None
      | Some c \<Rightarrow> (case refc_release (c_refc c) of
            Some n \<Rightarrow> Some (st\<lparr>live_conns := (live_conns st)(p \<mapsto> c\<lparr>c_refc := n\<rparr>)\<rparr>)
          | None \<Rightarrow> if c_pdelete c then Some (conn_free p st) else None))"

definition connect_delete :: "addr \<Rightarrow> conn_pool \<Rightarrow> conn_pool option" where
  "connect_delete con st = conn_release con st"

text \<open>A history of the users of a pool; calls for connections that do not exist are not made.\<close>

datatype pool_op = Create int | Add_ref addr | Delete addr

fun run_pool :: "malloc \<Rightarrow> pool_op list \<Rightarrow> conn_pool \<Rightarrow> conn_pool option" where
  "run_pool ml [] st = Some st"
| "run_pool ml (Create fd # ops) st = (case connect_create ml fd st of None \<Rightarrow> None | Some (_, st') \<Rightarrow> run_pool ml ops st')"
| "run_pool ml (Add_ref p # ops) st =
     (if live_conns st p = None then run_pool ml ops st
      else case conn_add_ref p st of None \<Rightarrow> None | Some st' \<Rightarrow> run_pool ml ops st')"
| "run_pool ml (Delete p # ops) st =
     (if live_conns st p = None then run_pool ml ops st
      else case connect_delete p st of None \<Rightarrow> None | Some st' \<Rightarrow> run_pool ml ops st')"

section \<open>Connections own their blocks\<close>

definition pool_inv :: "32 word \<Rightarrow> 32 word \<Rightarrow> conn_pool \<Rightarrow> bool" where
  "pool_inv mb num st \<longleftrightarrow> within_limit mb num (dom (live_conns st)) (connect_pool st)
     \<and> (\<forall>p c. live_conns st p = Some c \<longrightarrow> c_pdelete c)"

lemma connect_create_inv:
  assumes inv: "pool_inv mb num st" and ml: "malloc_fresh ml"
  shows "\<exists>r st'. connect_create ml fd st = Some (r, st') \<and> pool_inv mb num st'
     \<and> (case r of None \<Rightarrow> live_conns st' = live_conns st
        | Some p \<Rightarrow> live_conns st p = None \<and> live_conns st' = (live_conns st)(p \<mapsto> set_func (CBase_connect fd)))"
proof -
  let ?P = "dom (live_conns st)"
  have w: "within_limit mb num ?P (connect_pool st)" using inv by (simp add: pool_inv_def)
  then have live: "slab_live ?P (connect_pool st)" by (simp add: within_limit_def)
  obtain r s where r: "slab_alloc ml (connect_pool st) = Some (r, s)" and n: "r = None \<Longrightarrow> s = connect_pool st"
    using slab_alloc_live [OF live ml] by (auto split: option.splits)
  show ?thesis
  proof (cases r)
    case None
    then show ?thesis using r n inv by (simp add: connect_create_def)
  next
    case (Some p)
    have "p \<notin> ?P" "within_limit mb num (insert p ?P) s" using alloc_within [OF w ml] r Some by auto
    then show ?thesis using r Some inv
      by (auto simp: connect_create_def pool_inv_def set_func_def CBase_connect_def)
  qed
qed

lemma conn_add_ref_inv:
  assumes "pool_inv mb num st" "live_conns st p = Some c"
  shows "\<exists>st'. conn_add_ref p st = Some st' \<and> pool_inv mb num st' \<and> live_conns st' = (live_conns st)(p \<mapsto> c\<lparr>c_refc := c_refc c + 1\<rparr>)"
proof -
  have "insert p (dom (live_conns st)) = dom (live_conns st)" using assms(2) by auto
  then show ?thesis using assms by (auto simp: conn_add_ref_def add_ref_def pool_inv_def)
qed

lemma connect_delete_inv:
  assumes "pool_inv mb num st" "live_conns st p = Some c"
  shows "\<exists>st'. connect_delete p st = Some st' \<and> pool_inv mb num st'
     \<and> live_conns st' = (live_conns st)(p := if c_refc c = 1 then None else Some (c\<lparr>c_refc := c_refc c - 1\<rparr>))"
proof -
  have i: "insert p (dom (live_conns st)) = dom (live_conns st)" and d: "c_pdelete c" using assms by (auto simp: pool_inv_def)
  show ?thesis
  proof (cases "c_refc c = 1")
    case True
    have "within_limit mb num (dom (live_conns st) - {p}) (slab_free p (connect_pool st))"
      using assms by (intro free_within) (auto simp: pool_inv_def)
    then show ?thesis using True assms d
      by (auto simp: connect_delete_def conn_release_def refc_release_def conn_free_def pool_inv_def)
  next
    case False
    then show ?thesis using assms i by (auto simp: connect_delete_def conn_release_def refc_release_def Let_def pool_inv_def)
  qed
qed

lemma run_pool_inv:
  assumes "pool_inv mb num st" "malloc_fresh ml"
  shows "\<exists>st'. run_pool ml ops st = Some st' \<and> pool_inv mb num st'"
  using assms(1)
proof (induction ops arbitrary: st)
  case (Cons op ops)
  show ?case
  proof (cases op)
    case (Create fd)
    then show ?thesis using connect_create_inv [OF Cons.prems assms(2), of fd] Cons.IH by fastforce
  next
    case (Add_ref p)
    then show ?thesis using conn_add_ref_inv [OF Cons.prems, of p] Cons.IH Cons.prems by (cases "live_conns st p") fastforce+
  next
    case (Delete p)
    then show ?thesis using connect_delete_inv [OF Cons.prems, of p] Cons.IH Cons.prems by (cases "live_conns st p") fastforce+
  qed
qed simp


lemma slab_live_header: "slab_live P s \<Longrightarrow> p \<in> P \<Longrightarrow> 24 \<le> p"
  by (auto elim!: slab_liveE)

lemma CConn_pool_inv:
  assumes "CConn_pool ml heap sizeof_T i_limit = Some st" "mp_mpool (connect_pool st) \<noteq> None" "0 < sint i_limit"
    "unat sizeof_T + 126 \<le> unat sizeof_T * unat i_limit" "unat sizeof_T * unat i_limit + 4095 < 2 ^ 32"
  obtains mb where "pool_inv mb i_limit st" "unat sizeof_T + 24 \<le> unat mb"
proof -
  have u: "unat (sizeof_T * i_limit) = unat sizeof_T * unat i_limit"
    using assms(5) by (simp add: unat_word_ariths(2))
  have "i_limit = - 1 \<or> 0 \<le> sint i_limit" using assms(3) by simp
  then obtain s mb where s: "pure_slab ml heap sizeof_T (sizeof_T * i_limit) i_limit = Some s" "unat sizeof_T + 24 \<le> unat mb"
    "mp_mpool s \<noteq> None \<longrightarrow> within_limit mb i_limit {} s"
    using pure_slab_live [of sizeof_T "sizeof_T * i_limit" i_limit ml heap] assms(4,5) unfolding u by blast
  have st: "st = \<lparr>connect_pool = s, live_conns = Map.empty\<rparr>" using assms(1,3) s(1) by (simp add: CConn_pool_def)
  then have "pool_inv mb i_limit st" using s(3) assms(2) by (simp add: pool_inv_def)
  then show thesis using that s(2) by blast
qed



end
