(* ===== verification/Mconn_Pool.thy ===== *)
theory Mconn_Pool
  imports Membox Conn_Pool
begin

text \<open>
  The second pool of connections, \<^verbatim>\<open>CMConn_pool\<close> of \<^verbatim>\<open>src/src/base/base_conn_pool.h\<close>. It owns a memory box but
  allocates its connections with \<^verbatim>\<open>new\<close>; the call back it gives them still returns their memory to the box.
\<close>

section \<open>Model\<close>

text \<open>\<open>new_conns\<close>: the connections obtained with \<^verbatim>\<open>new\<close> and not deleted. \<open>nw\<close> is \<^verbatim>\<open>new\<close>, given what is in use.\<close>

record mconn_pool =
  connect_box :: membox
  new_conns :: "addr \<rightharpoonup> pconn"

definition CMConn_pool :: "malloc \<Rightarrow> membox \<Rightarrow> 32 word \<Rightarrow> 32 word \<Rightarrow> mconn_pool" where
  "CMConn_pool ml heap sizeof_T i_limit =
     \<lparr>connect_box = (if sint i_limit > 0 then membox_new ml heap sizeof_T (sizeof_T * (i_limit + 16))
                     else membox_new ml heap sizeof_T (sizeof_T * (128 + 16))),
      new_conns = Map.empty\<rparr>"

definition m_connect_create :: "(addr set \<Rightarrow> addr) \<Rightarrow> int \<Rightarrow> mconn_pool \<Rightarrow> addr \<times> mconn_pool" where
  "m_connect_create nw connfd st =
     (let r = nw (dom (new_conns st)) in (r, st\<lparr>new_conns := (new_conns st)(r \<mapsto> set_func (CBase_connect connfd))\<rparr>))"

text \<open>\<open>None\<close>: the connection was deleted before.\<close>

definition m_connect_delete :: "addr \<Rightarrow> mconn_pool \<Rightarrow> mconn_pool option" where
  "m_connect_delete con st =
     (case new_conns st con of None \<Rightarrow> None | Some c \<Rightarrow> Some (st\<lparr>new_conns := (new_conns st)(con := None)\<rparr>))"

text \<open>The call back, which \<^verbatim>\<open>release\<close> runs for the last reference: the destructor, and \<^verbatim>\<open>box_free\<close>.\<close>

definition m_conn_free :: "addr \<Rightarrow> mconn_pool \<Rightarrow> mconn_pool" where
  "m_conn_free pd_todel st =
     st\<lparr>connect_box := box_free pd_todel (connect_box st), new_conns := (new_conns st)(pd_todel := None)\<rparr>"

definition m_conn_release :: "addr \<Rightarrow> mconn_pool \<Rightarrow> mconn_pool option" where
  "m_conn_release p st =
     (case new_conns st p of None \<Rightarrow> None
      | Some c \<Rightarrow> (case refc_release (c_refc c) of
            Some n \<Rightarrow> Some (st\<lparr>new_conns := (new_conns st)(p \<mapsto> c\<lparr>c_refc := n\<rparr>)\<rparr>)
          | None \<Rightarrow> if c_pdelete c then Some (m_conn_free p st) else None))"

section \<open>Results\<close>

text \<open>The box is never used for a connection: creating and deleting leave it as it is.\<close>

lemma m_create_box: "connect_box (snd (m_connect_create nw fd st)) = connect_box st"
  by (simp add: m_connect_create_def Let_def)

lemma m_delete_box: "m_connect_delete p st = Some st' \<Longrightarrow> connect_box st' = connect_box st"
  by (auto simp: m_connect_delete_def split: option.splits)

text \<open>
  The reference count is not asked: a connection with other references is deleted under them, and the
  next \<^verbatim>\<open>release\<close> is a use after free.
\<close>

lemma m_delete_ignores_refs:
  assumes "new_conns st p = Some c"
  shows "\<exists>st'. m_connect_delete p st = Some st' \<and> new_conns st' p = None \<and> m_conn_release p st' = None"
  using assms by (simp add: m_connect_delete_def m_conn_release_def)

text \<open>
  The other way round, a connection that is released instead of deleted is given to the box, which never had it. The
  word 16 bytes before it is taken for the flag of a block; when that happens to be 1, the word behind it is
  taken for the pool and a count there is increased: with the address of the box's own pool the count of
  free blocks is one too high.
\<close>

lemma m_release_spoils_box:
  assumes "box_live q P (connect_box st)" "new_conns st p = Some c" "c_refc c = 1" "c_pdelete c"
    and foreign: "16 \<le> p" "p - 16 \<notin> box_blocks (connect_box st) q"
    and before: "b_seq (connect_box st) (p - 16) = 1" "b_mp (connect_box st) (p - 16) = q"
  shows "\<exists>st'. m_conn_release p st = Some st' \<and> \<not> box_live q P (connect_box st')"
proof -
  let ?s = "connect_box st" and ?s' = "box_free p (connect_box st)"
  have run: "m_conn_release p st = Some (m_conn_free p st)"
    using assms(2-4) by (simp add: m_conn_release_def refc_release_def)
  have f: "free_num ?s' q = free_num ?s q + 1" "block_num ?s' = block_num ?s"
    using before by (simp_all add: box_free_def CAS_def MEMBLOCKHEAD_def)
  have "\<not> box_live q P ?s'"
  proof
    assume l: "box_live q P ?s'"
    then have "unat (free_num ?s q + 1) + card P = unat (block_num ?s q)" using f by (simp add: box_live_def)
    moreover have "unat (free_num ?s q) + card P = unat (block_num ?s q)" using assms(1) by (simp add: box_live_def)
    ultimately have "unat (free_num ?s q + 1) = unat (free_num ?s q)" by linarith
    then have "free_num ?s q + 1 = free_num ?s q" by (simp only: word_unat_eq_iff)
    then show False by simp
  qed
  then show ?thesis using run by (simp add: m_conn_free_def)
qed

end
