(* ===== verification/Rbtree.thy ===== *)
theory Rbtree
  imports Prelude
begin

text \<open>
  The red-black tree of \<^verbatim>\<open>src/src/datas/pure_rbtree.cpp\<close>, statement by statement on an explicit store:
  each field of \<^verbatim>\<open>rb_node\<close> is a function from node addresses, \<^verbatim>\<open>nil\<close> is the address of the sentinel,
  whose own fields the code reads and writes. Loops are partial functions into \<open>option\<close>: \<open>None\<close> is not
  returning. The virtual hooks \<^verbatim>\<open>rb_del_element\<close>, \<^verbatim>\<open>free_element\<close> and \<^verbatim>\<open>traversal_element\<close> do nothing
  in this class.
\<close>

section \<open>Data\<close>

type_synonym node = nat

datatype colour = BLACK | RED

record rb =
  parent :: "node \<Rightarrow> node"
  lson :: "node \<Rightarrow> node"
  rson :: "node \<Rightarrow> node"
  colour :: "node \<Rightarrow> colour"
  key :: "node \<Rightarrow> 64 word"
  data :: "node \<Rightarrow> nat"
  nil :: node
  root :: node

definition set_parent :: "node \<Rightarrow> node \<Rightarrow> rb \<Rightarrow> rb" where
  "set_parent a v s = s\<lparr>parent := (parent s)(a := v)\<rparr>"

definition set_lson :: "node \<Rightarrow> node \<Rightarrow> rb \<Rightarrow> rb" where
  "set_lson a v s = s\<lparr>lson := (lson s)(a := v)\<rparr>"

definition set_rson :: "node \<Rightarrow> node \<Rightarrow> rb \<Rightarrow> rb" where
  "set_rson a v s = s\<lparr>rson := (rson s)(a := v)\<rparr>"

definition set_colour :: "node \<Rightarrow> colour \<Rightarrow> rb \<Rightarrow> rb" where
  "set_colour a v s = s\<lparr>colour := (colour s)(a := v)\<rparr>"

section \<open>Operations\<close>

text \<open>The constructor; \<open>n\<close> is the address of the node it allocates, \<open>heap\<close> the store before.\<close>

definition pure_rbtree :: "node \<Rightarrow> rb \<Rightarrow> rb" where
  "pure_rbtree n heap =
     heap\<lparr>nil := n, root := n, parent := (parent heap)(n := n), lson := (lson heap)(n := n), rson := (rson heap)(n := n),
       colour := (colour heap)(n := BLACK), key := (key heap)(n := 0), data := (data heap)(n := 0)\<rparr>"

text \<open>What stood at \<open>x\<close> below its parent, or at the root, is replaced by \<open>y\<close>.\<close>

definition relink :: "node \<Rightarrow> node \<Rightarrow> rb \<Rightarrow> rb" where
  "relink x y s =
     (if parent s x = nil s then s\<lparr>root := y\<rparr>
      else if x = lson s (parent s x) then set_lson (parent s x) y s
      else set_rson (parent s x) y s)"

definition left_rotate :: "node \<Rightarrow> rb \<Rightarrow> rb" where
  "left_rotate x s =
     (let y = rson s x;
          s1 = set_rson x (lson s y) s;
          s2 = (if lson s1 y \<noteq> nil s1 then set_parent (lson s1 y) x s1 else s1);
          s3 = set_parent y (parent s2 x) s2;
          s4 = relink x y s3;
          s5 = set_lson y x s4
      in set_parent x y s5)"

definition right_rotate :: "node \<Rightarrow> rb \<Rightarrow> rb" where
  "right_rotate x s =
     (let y = lson s x;
          s1 = set_lson x (rson s y) s;
          s2 = (if rson s1 y \<noteq> nil s1 then set_parent (rson s1 y) x s1 else s1);
          s3 = set_parent y (parent s2 x) s2;
          s4 = relink x y s3;
          s5 = set_rson y x s4
      in set_parent x y s5)"

text \<open>The loop of \<^verbatim>\<open>rb_insert\<close> that looks for the place of a key; the result is \<^verbatim>\<open>y\<close>.\<close>

partial_function (option) insert_loop :: "rb \<Rightarrow> 64 word \<Rightarrow> node \<Rightarrow> node \<Rightarrow> node option" where
  "insert_loop s k x y =
     (if x \<noteq> nil s then insert_loop s k (if k < key s x then lson s x else rson s x) x else Some y)"

text \<open>One round of \<^verbatim>\<open>rb_insert_fixup\<close>, with the branch for a parent that is a left child and its mirror.\<close>

definition insert_left :: "node \<Rightarrow> rb \<Rightarrow> node \<times> rb" where
  "insert_left z s =
     (let y = rson s (parent s (parent s z)) in
      if colour s y = RED then
        let s1 = set_colour (parent s z) BLACK s;
            s2 = set_colour y BLACK s1;
            s3 = set_colour (parent s2 (parent s2 z)) RED s2
        in (parent s3 (parent s3 z), s3)
      else
        let (z1, s1) = (if z = rson s (parent s z) then (parent s z, left_rotate (parent s z) s) else (z, s));
            s2 = set_colour (parent s1 z1) BLACK s1;
            s3 = set_colour (parent s2 (parent s2 z1)) RED s2
        in (z1, right_rotate (parent s3 (parent s3 z1)) s3))"

definition insert_right :: "node \<Rightarrow> rb \<Rightarrow> node \<times> rb" where
  "insert_right z s =
     (let y = lson s (parent s (parent s z)) in
      if colour s y = RED then
        let s1 = set_colour (parent s z) BLACK s;
            s2 = set_colour y BLACK s1;
            s3 = set_colour (parent s2 (parent s2 z)) RED s2
        in (parent s3 (parent s3 z), s3)
      else
        let (z1, s1) = (if z = lson s (parent s z) then (parent s z, right_rotate (parent s z) s) else (z, s));
            s2 = set_colour (parent s1 z1) BLACK s1;
            s3 = set_colour (parent s2 (parent s2 z1)) RED s2
        in (z1, left_rotate (parent s3 (parent s3 z1)) s3))"

partial_function (option) insert_fixup_loop :: "node \<Rightarrow> rb \<Rightarrow> rb option" where
  "insert_fixup_loop z s =
     (if colour s (parent s z) = RED then
        let r = (if parent s z = lson s (parent s (parent s z)) then insert_left z s else insert_right z s)
        in insert_fixup_loop (fst r) (snd r)
      else Some s)"

definition rb_insert_fixup :: "node \<Rightarrow> rb \<Rightarrow> rb option" where
  "rb_insert_fixup z s = map_option (\<lambda>s'. set_colour (root s') BLACK s') (insert_fixup_loop z s)"

definition rb_insert :: "node \<Rightarrow> rb \<Rightarrow> rb option" where
  "rb_insert z s =
     (case insert_loop s (key s z) (root s) (nil s) of None \<Rightarrow> None | Some y \<Rightarrow>
        let s1 = set_parent z y s;
            s2 = (if y = nil s1 then s1\<lparr>root := z\<rparr>
                  else if key s1 z < key s1 y then set_lson y z s1 else set_rson y z s1);
            s3 = set_lson z (nil s2) s2;
            s4 = set_rson z (nil s3) s3;
            s5 = set_colour z RED s4
        in rb_insert_fixup z s5)"

text \<open>\<open>z\<close> is what \<^verbatim>\<open>new_rbnode\<close> returns; \<open>None\<close> is the null pointer.\<close>

definition rb_insert_key_data :: "node option \<Rightarrow> 64 word \<Rightarrow> nat \<Rightarrow> rb \<Rightarrow> (int \<times> rb) option" where
  "rb_insert_key_data z i_key i_data s =
     (case z of None \<Rightarrow> Some (- 1, s)
      | Some z \<Rightarrow> map_option (Pair 0)
          (rb_insert z (s\<lparr>key := (key s)(z := i_key), data := (data s)(z := i_data)\<rparr>)))"

definition rb_transplant :: "node \<Rightarrow> node \<Rightarrow> rb \<Rightarrow> rb" where
  "rb_transplant u v s = (let s1 = relink u v s in set_parent v (parent s1 u) s1)"

partial_function (option) tree_minimum :: "rb \<Rightarrow> node \<Rightarrow> node option" where
  "tree_minimum s x = (if lson s x \<noteq> nil s then tree_minimum s (lson s x) else Some x)"

text \<open>One round of \<^verbatim>\<open>rb_delete_fixup\<close> for a left child, and its mirror.\<close>

definition delete_left :: "node \<Rightarrow> rb \<Rightarrow> node \<times> rb" where
  "delete_left x s =
     (let w = rson s (parent s x);
          (w, s) = (if colour s w = RED then
                      let s1 = set_colour w BLACK s;
                          s2 = set_colour (parent s1 x) RED s1;
                          s3 = left_rotate (parent s2 x) s2
                      in (rson s3 (parent s3 x), s3)
                    else (w, s))
      in if colour s (lson s w) = BLACK \<and> colour s (rson s w) = BLACK then
           let s1 = set_colour w RED s in (parent s1 x, s1)
         else
           let (w, s) = (if colour s (rson s w) = BLACK then
                           let s1 = set_colour (lson s w) BLACK s;
                               s2 = set_colour w RED s1;
                               s3 = right_rotate w s2
                           in (rson s3 (parent s3 x), s3)
                         else (w, s));
               s1 = set_colour w (colour s (parent s x)) s;
               s2 = set_colour (parent s1 x) BLACK s1;
               s3 = set_colour (rson s2 w) BLACK s2;
               s4 = left_rotate (parent s3 x) s3
           in (root s4, s4))"

definition delete_right :: "node \<Rightarrow> rb \<Rightarrow> node \<times> rb" where
  "delete_right x s =
     (let w = lson s (parent s x);
          (w, s) = (if colour s w = RED then
                      let s1 = set_colour w BLACK s;
                          s2 = set_colour (parent s1 x) RED s1;
                          s3 = right_rotate (parent s2 x) s2
                      in (lson s3 (parent s3 x), s3)
                    else (w, s))
      in if colour s (lson s w) = BLACK \<and> colour s (rson s w) = BLACK then
           let s1 = set_colour w RED s in (parent s1 x, s1)
         else
           let (w, s) = (if colour s (lson s w) = BLACK then
                           let s1 = set_colour (rson s w) BLACK s;
                               s2 = set_colour w RED s1;
                               s3 = left_rotate w s2
                           in (lson s3 (parent s3 x), s3)
                         else (w, s));
               s1 = set_colour w (colour s (parent s x)) s;
               s2 = set_colour (parent s1 x) BLACK s1;
               s3 = set_colour (lson s2 w) BLACK s2;
               s4 = right_rotate (parent s3 x) s3
           in (root s4, s4))"

partial_function (option) delete_fixup_loop :: "node \<Rightarrow> rb \<Rightarrow> (node \<times> rb) option" where
  "delete_fixup_loop x s =
     (if x \<noteq> root s \<and> colour s x = BLACK then
        let r = (if x = lson s (parent s x) then delete_left x s else delete_right x s)
        in delete_fixup_loop (fst r) (snd r)
      else Some (x, s))"

definition rb_delete_fixup :: "node \<Rightarrow> rb \<Rightarrow> rb option" where
  "rb_delete_fixup x s = map_option (\<lambda>(x', s'). set_colour x' BLACK s') (delete_fixup_loop x s)"

text \<open>The removal before the repair: the node \<^verbatim>\<open>x\<close>, the colour that is gone, and the store.\<close>

definition rb_unlink :: "node \<Rightarrow> rb \<Rightarrow> (node \<times> colour \<times> rb) option" where
  "rb_unlink z s =
     (if lson s z = nil s then Some (rson s z, colour s z, rb_transplant z (rson s z) s)
      else if rson s z = nil s then Some (lson s z, colour s z, rb_transplant z (lson s z) s)
      else case tree_minimum s (rson s z) of None \<Rightarrow> None | Some y \<Rightarrow>
        let y_orc = colour s y; x = rson s y;
            s1 = (if parent s y = z then set_parent x y s
                  else let s1 = rb_transplant y (rson s y) s;
                           s2 = set_rson y (rson s1 z) s1
                       in set_parent (rson s2 y) y s2);
            s2 = rb_transplant z y s1;
            s3 = set_lson y (lson s2 z) s2;
            s4 = set_parent (lson s3 y) y s3;
            s5 = set_colour y (colour s4 z) s4
        in Some (x, y_orc, s5))"

definition rb_delete :: "node \<Rightarrow> rb \<Rightarrow> rb option" where
  "rb_delete z s =
     (case rb_unlink z s of None \<Rightarrow> None
      | Some (x, y_orc, s1) \<Rightarrow> if y_orc = BLACK then rb_delete_fixup x s1 else Some s1)"

partial_function (option) rb_search_loop :: "rb \<Rightarrow> 64 word \<Rightarrow> node \<Rightarrow> node option" where
  "rb_search_loop s i_key x =
     (if x \<noteq> nil s \<and> i_key \<noteq> key s x
      then rb_search_loop s i_key (if i_key < key s x then lson s x else rson s x) else Some x)"

definition rb_search :: "64 word \<Rightarrow> rb \<Rightarrow> node option" where
  "rb_search i_key s = rb_search_loop s i_key (root s)"

text \<open>The data is a null pointer, 0, when the key is not there.\<close>

definition rb_search_key :: "64 word \<Rightarrow> rb \<Rightarrow> nat option" where
  "rb_search_key i_key s = map_option (\<lambda>z. if z \<noteq> nil s then data s z else 0) (rb_search i_key s)"

text \<open>The return code, the data of the node that is deleted, and the store.\<close>

definition rb_delete_key :: "64 word \<Rightarrow> rb \<Rightarrow> (int \<times> nat option \<times> rb) option" where
  "rb_delete_key i_key s =
     (case rb_search i_key s of None \<Rightarrow> None
      | Some z \<Rightarrow> if z \<noteq> nil s then map_option (\<lambda>s'. (0, Some (data s z), s')) (rb_delete z s)
                 else Some (- 1, None, s))"

text \<open>The key 0 is returned for an empty tree, and the data is not written.\<close>

definition tree_minimum_key :: "rb \<Rightarrow> (64 word \<times> nat option) option" where
  "tree_minimum_key s =
     (if root s = nil s then Some (0, None)
      else map_option (\<lambda>m. (key s m, Some (data s m))) (tree_minimum s (root s)))"

definition tree_minimum_node :: "rb \<Rightarrow> node option" where
  "tree_minimum_node s = (if root s = nil s then Some (nil s) else tree_minimum s (root s))"

text \<open>\<open>inorder_rb_traversal\<close> visits a node before its sons; the result is the order of the visits.\<close>

partial_function (option) inorder_rb_traversal :: "rb \<Rightarrow> node \<Rightarrow> node list option" where
  "inorder_rb_traversal s x =
     Option.bind (if lson s x \<noteq> nil s then inorder_rb_traversal s (lson s x) else Some []) (\<lambda>l.
     Option.bind (if rson s x \<noteq> nil s then inorder_rb_traversal s (rson s x) else Some []) (\<lambda>r.
       Some (x # l @ r)))"

definition rb_traversal :: "rb \<Rightarrow> node list option" where
  "rb_traversal s = inorder_rb_traversal s (root s)"

text \<open>\<^verbatim>\<open>rb_destroy\<close>: the nodes it deletes, in order, and the store.\<close>

partial_function (option) rb_destroy_loop :: "node \<Rightarrow> rb \<Rightarrow> (node list \<times> rb) option" where
  "rb_destroy_loop x s =
     (if x \<noteq> nil s then
        if lson s x \<noteq> nil s then rb_destroy_loop (lson s x) s
        else if rson s x \<noteq> nil s then rb_destroy_loop (rson s x) s
        else Option.bind
          (rb_destroy_loop (parent s x)
            (if x = lson s (parent s x) then set_lson (parent s x) (nil s) s else set_rson (parent s x) (nil s) s))
          (\<lambda>r. Some (x # fst r, snd r))
      else Some ([], s))"

definition rb_destroy :: "rb \<Rightarrow> (node list \<times> rb) option" where
  "rb_destroy s = rb_destroy_loop (root s) s"

end
