(* ===== verification/Rb_Abstract.thy ===== *)
theory Rb_Abstract
  imports Rbtree
begin

text \<open>
  Red-black trees as values: trees of node addresses with colours, contexts (the path from a place
  in the tree up to the root with the subtrees beside it), and the repairs after insertion and
  deletion as functions on a context and the subtree in it. The store plays no part here.
\<close>

section \<open>Trees and contexts\<close>

datatype rt = Lf | Nd colour rt node rt

fun col :: "rt \<Rightarrow> colour" where
  "col Lf = BLACK"
| "col (Nd c l a r) = c"

fun nodes :: "rt \<Rightarrow> node list" where
  "nodes Lf = []"
| "nodes (Nd c l a r) = nodes l @ a # nodes r"

fun bh :: "rt \<Rightarrow> nat" where
  "bh Lf = 0"
| "bh (Nd c l a r) = (if c = BLACK then Suc (bh l) else bh l)"

text \<open>No red node has a red son, and all paths to a leaf have the same number of black nodes.\<close>

fun rok :: "rt \<Rightarrow> bool" where
  "rok Lf = True"
| "rok (Nd c l a r) = (rok l \<and> rok r \<and> bh l = bh r \<and> (c = RED \<longrightarrow> col l = BLACK \<and> col r = BLACK))"

fun blacken :: "rt \<Rightarrow> rt" where
  "blacken Lf = Lf"
| "blacken (Nd c l a r) = Nd BLACK l a r"

lemma not_RED [simp]: "c \<noteq> RED \<longleftrightarrow> c = BLACK" "c \<noteq> BLACK \<longleftrightarrow> c = RED"
  by (cases c; simp)+

lemma blacken_simps [simp]: "nodes (blacken t) = nodes t" "col (blacken t) = BLACK" "rok t \<Longrightarrow> rok (blacken t)"
  by (cases t; simp)+

lemma blacken_black: "col t = BLACK \<Longrightarrow> blacken t = t"
  by (cases t) auto

lemma bh_blacken: "bh (blacken t) = (if col t = RED then Suc (bh t) else bh t)"
  by (cases t) auto

datatype frame = FL colour node rt | FR rt colour node

fun up :: "frame \<Rightarrow> rt \<Rightarrow> rt" where
  "up (FL c a r) t = Nd c t a r"
| "up (FR l c a) t = Nd c l a t"

fun fill :: "frame list \<Rightarrow> rt \<Rightarrow> rt" where
  "fill [] t = t"
| "fill (f # fs) t = fill fs (up f t)"

lemma fill_append [simp]: "fill (fs @ gs) t = fill gs (fill fs t)"
  by (induction fs arbitrary: t) auto

text \<open>The nodes before and after the place, in order.\<close>

fun lefts :: "frame list \<Rightarrow> node list" where
  "lefts [] = []"
| "lefts (FL c a r # fs) = lefts fs"
| "lefts (FR l c a # fs) = lefts fs @ nodes l @ [a]"

fun rights :: "frame list \<Rightarrow> node list" where
  "rights [] = []"
| "rights (FL c a r # fs) = a # nodes r @ rights fs"
| "rights (FR l c a # fs) = rights fs"

lemma sides_append [simp]: "lefts (fs @ gs) = lefts gs @ lefts fs" "rights (fs @ gs) = rights fs @ rights gs"
  by (induction fs rule: lefts.induct) auto

lemma nodes_fill: "nodes (fill fs t) = lefts fs @ nodes t @ rights fs"
proof (induction fs arbitrary: t)
  case (Cons f fs)
  then show ?case by (cases f) simp_all
qed simp

fun fcol :: "frame list \<Rightarrow> colour" where
  "fcol [] = BLACK"
| "fcol (FL c a r # fs) = c"
| "fcol (FR l c a # fs) = c"

text \<open>The context is in order for a subtree of black height \<open>h\<close>.\<close>

fun okf :: "frame list \<Rightarrow> nat \<Rightarrow> bool" where
  "okf [] h = True"
| "okf (FL c a r # fs) h = (rok r \<and> bh r = h \<and> (c = RED \<longrightarrow> col r = BLACK \<and> fcol fs = BLACK)
     \<and> okf fs (if c = BLACK then Suc h else h))"
| "okf (FR l c a # fs) h = (rok l \<and> bh l = h \<and> (c = RED \<longrightarrow> col l = BLACK \<and> fcol fs = BLACK)
     \<and> okf fs (if c = BLACK then Suc h else h))"

lemma fill_ok: "rok (fill fs t) \<longleftrightarrow> rok t \<and> okf fs (bh t) \<and> (col t = RED \<longrightarrow> fcol fs = BLACK)"
proof (induction fs arbitrary: t)
  case (Cons f fs)
  show ?case
  proof (cases f)
    case (FL c a r)
    then show ?thesis using Cons.IH [of "Nd c t a r"] by (cases c) auto
  next
    case (FR l c a)
    then show ?thesis using Cons.IH [of "Nd c l a t"] by (cases c) auto
  qed
qed simp

text \<open>The colour of the root.\<close>

definition rootc :: "frame list \<Rightarrow> colour" where
  "rootc fs = (if fs = [] then BLACK else fcol [last fs])"

lemma rootc_simps [simp]: "rootc [] = BLACK" "fs \<noteq> [] \<Longrightarrow> rootc (f # fs) = rootc fs" "rootc [f] = fcol [f]"
  by (simp_all add: rootc_def)

lemma col_fill: "fs \<noteq> [] \<Longrightarrow> col (fill fs t) = rootc fs"
proof (induction fs arbitrary: t)
  case (Cons f fs)
  then show ?case by (cases f; cases "fs = []") auto
qed simp

section \<open>Repair after an insertion\<close>

fun ins_fix :: "frame list \<Rightarrow> rt \<Rightarrow> rt" where
  "ins_fix (FL RED p pr # FL cg g y # fs) t =
     (if col y = RED then ins_fix fs (Nd RED (Nd BLACK t p pr) g (blacken y))
      else fill fs (Nd BLACK t p (Nd RED pr g y)))"
| "ins_fix (FR pl RED p # FL cg g y # fs) (Nd c zl z zr) =
     (if col y = RED then ins_fix fs (Nd RED (Nd BLACK pl p (Nd c zl z zr)) g (blacken y))
      else fill fs (Nd BLACK (Nd RED pl p zl) z (Nd RED zr g y)))"
| "ins_fix (FR pl RED p # FR y cg g # fs) t =
     (if col y = RED then ins_fix fs (Nd RED (blacken y) g (Nd BLACK pl p t))
      else fill fs (Nd BLACK (Nd RED y g pl) p t))"
| "ins_fix (FL RED p pr # FR y cg g # fs) (Nd c zl z zr) =
     (if col y = RED then ins_fix fs (Nd RED (blacken y) g (Nd BLACK (Nd c zl z zr) p pr))
      else fill fs (Nd BLACK (Nd RED y g zl) z (Nd RED zr p pr)))"
| "ins_fix fs t = fill fs t"

lemma nodes_ins_fix: "nodes (ins_fix fs t) = nodes (fill fs t)"
  by (induction fs t rule: ins_fix.induct) (simp_all add: nodes_fill)

lemma up_ok: "rok t \<Longrightarrow> okf [f] (bh t) \<Longrightarrow> fcol [f] = BLACK \<Longrightarrow> rok (blacken (up f t))"
  by (cases f) auto

lemma ins_fix_rok:
  "rok t \<Longrightarrow> okf fs (bh t) \<Longrightarrow> col t = RED \<Longrightarrow> rootc fs = BLACK \<Longrightarrow> rok (blacken (ins_fix fs t))"
proof (induction fs t rule: ins_fix.induct)
  case (1 p pr cg g y fs t)
  then show ?case by (cases "fs = []"; cases y) (auto simp: fill_ok split: if_splits)
next
  case (2 pl p cg g y fs c zl z zr)
  then show ?case by (cases "fs = []"; cases y) (auto simp: fill_ok split: if_splits)
next
  case (3 pl p y cg g fs t)
  then show ?case by (cases "fs = []"; cases y) (auto simp: fill_ok split: if_splits)
next
  case (4 p pr y cg g fs c zl z zr)
  then show ?case by (cases "fs = []"; cases y) (auto simp: fill_ok split: if_splits)
qed (auto simp: fill_ok intro: up_ok split: if_splits)

section \<open>Repair after a deletion\<close>

text \<open>A red brother is rotated above the parent.\<close>

fun straighten :: "frame \<Rightarrow> frame list \<Rightarrow> frame \<times> frame list" where
  "straighten (FL cp p (Nd RED wl w wr)) fs = (FL RED p wl, FL BLACK w wr # fs)"
| "straighten (FR (Nd RED wl w wr) cp p) fs = (FR wr RED p, FR wl BLACK w # fs)"
| "straighten f fs = (f, fs)"

text \<open>With a black brother: \<open>Inl\<close> the repaired subtree, \<open>Inr\<close> the subtree that still lacks a black node.\<close>

fun sib_step :: "frame \<Rightarrow> rt \<Rightarrow> rt + rt" where
  "sib_step (FL cp p (Nd cw wl w wr)) t =
     (if col wl = BLACK \<and> col wr = BLACK then Inr (Nd cp t p (Nd RED wl w wr))
      else if col wr = BLACK then (case wl of Nd _ a b c \<Rightarrow> Inl (Nd cp (Nd BLACK t p a) b (Nd BLACK c w wr)) | Lf \<Rightarrow> Inl t)
      else Inl (Nd cp (Nd BLACK t p wl) w (blacken wr)))"
| "sib_step (FR (Nd cw wl w wr) cp p) t =
     (if col wl = BLACK \<and> col wr = BLACK then Inr (Nd cp (Nd RED wl w wr) p t)
      else if col wl = BLACK then (case wr of Nd _ a b c \<Rightarrow> Inl (Nd cp (Nd BLACK wl w a) b (Nd BLACK c p t)) | Lf \<Rightarrow> Inl t)
      else Inl (Nd cp (blacken wl) w (Nd BLACK wr p t)))"
| "sib_step f t = Inl (up f t)"

lemma sib_step_col: "sib_step f t = Inr u \<Longrightarrow> col u = fcol [f]"
  by (induction f t rule: sib_step.induct) (auto split: if_splits rt.splits)

lemma straighten_cases: "straighten f fs = (f', fs') \<Longrightarrow> fs' = fs \<or> fcol [f'] = RED \<and> length fs' = Suc (length fs)"
  by (induction f fs rule: straighten.induct) auto

function del_fix :: "frame list \<Rightarrow> rt \<Rightarrow> rt" where
  "del_fix [] t = blacken t"
| "del_fix (f # fs) t =
     (if col t = RED then fill (f # fs) (blacken t)
      else case sib_step (fst (straighten f fs)) t of
             Inl u \<Rightarrow> blacken (fill (snd (straighten f fs)) u)
           | Inr u \<Rightarrow> del_fix (snd (straighten f fs)) u)"
  by pat_completeness auto
termination
proof (relation "measure (\<lambda>(fs, t). 2 * length fs + (if col t = BLACK then 1 else 0))", goal_cases)
  case (2 f fs t u)
  obtain f' fs' where s: "straighten f fs = (f', fs')" by fastforce
  from straighten_cases [OF s] sib_step_col [of f' t u] 2 s show ?case by auto
qed simp

lemma nodes_straighten: "straighten f fs = (f', fs') \<Longrightarrow> nodes (fill fs' (up f' t)) = nodes (fill fs (up f t))"
  by (induction f fs rule: straighten.induct) (auto simp: nodes_fill)

lemma nodes_sib_step: "sib_step f t = Inl u \<or> sib_step f t = Inr u \<Longrightarrow> nodes u = nodes (up f t)"
  by (induction f t rule: sib_step.induct) (auto split: if_splits rt.splits)

lemma nodes_fill_eq: "nodes t = nodes u \<Longrightarrow> nodes (fill fs t) = nodes (fill fs u)"
  by (simp add: nodes_fill)


lemma nodes_del_fix: "nodes (del_fix fs t) = nodes (fill fs t)"
proof (induction fs t rule: del_fix.induct)
  case (2 f fs t)
  obtain f' fs' where s: "straighten f fs = (f', fs')" by fastforce
  show ?case
  proof (cases "col t = RED")
    case True
    then show ?thesis using nodes_fill_eq [of "blacken t" t "f # fs"] by simp
  next
    case False
    have e: "nodes (fill fs' u) = nodes (fill (f # fs) t)" if "sib_step f' t = Inl u \<or> sib_step f' t = Inr u" for u
      using nodes_fill_eq [OF nodes_sib_step [OF that]] nodes_straighten [OF s] by simp
    show ?thesis using False 2 s e by (auto split: sum.splits)
  qed
qed simp

text \<open>A red brother has a black parent and black sons of the right height.\<close>

lemma straighten_ok:
  assumes "okf (f # fs) (Suc h)" "straighten f fs = (f', fs')"
  shows "okf (f' # fs') (Suc h)" "rootc (f # fs) = BLACK \<Longrightarrow> rootc (f' # fs') = BLACK"
    "case f' of FL c a w \<Rightarrow> w \<noteq> Lf \<and> col w = BLACK | FR w c a \<Rightarrow> w \<noteq> Lf \<and> col w = BLACK"
proof -
  have "okf (f' # fs') (Suc h) \<and> (rootc (f # fs) = BLACK \<longrightarrow> rootc (f' # fs') = BLACK)
    \<and> (case f' of FL c a w \<Rightarrow> w \<noteq> Lf \<and> col w = BLACK | FR w c a \<Rightarrow> w \<noteq> Lf \<and> col w = BLACK)"
    using assms
  proof (induction f fs rule: straighten.induct)
    case (1 cp p wl w wr fs)
    then show ?case by (cases wl; cases "fs = []") (auto split: if_splits)
  next
    case (2 wl w wr cp p fs)
    then show ?case by (cases wr; cases "fs = []") (auto split: if_splits)
  qed auto
  then show "okf (f' # fs') (Suc h)" "rootc (f # fs) = BLACK \<Longrightarrow> rootc (f' # fs') = BLACK"
    "case f' of FL c a w \<Rightarrow> w \<noteq> Lf \<and> col w = BLACK | FR w c a \<Rightarrow> w \<noteq> Lf \<and> col w = BLACK" by blast+
qed

lemma sib_step_ok:
  assumes "okf (f # fs) (Suc (bh t))" "rok t" "col t = BLACK"
    "case f of FL c a w \<Rightarrow> w \<noteq> Lf \<and> col w = BLACK | FR w c a \<Rightarrow> w \<noteq> Lf \<and> col w = BLACK"
  shows "case sib_step f t of Inl u \<Rightarrow> rok (fill fs u) | Inr u \<Rightarrow> rok (blacken u) \<and> okf fs (Suc (bh u))"
proof (cases f)
  case (FL c a w)
  then obtain wl b wr where w: "w = Nd BLACK wl b wr" using assms(4) by (cases w) auto
  show ?thesis using assms unfolding FL w
    by (cases c; cases wl; cases wr) (auto simp: fill_ok bh_blacken split: if_splits)
next
  case (FR w c a)
  then obtain wl b wr where w: "w = Nd BLACK wl b wr" using assms(4) by (cases w) auto
  show ?thesis using assms unfolding FR w
    by (cases c; cases wl; cases wr) (auto simp: fill_ok bh_blacken split: if_splits)
qed

lemma del_fix_rok:
  "rok (blacken t) \<Longrightarrow> okf fs (Suc (bh t)) \<Longrightarrow> rootc fs = BLACK \<Longrightarrow> rok (del_fix fs t) \<and> col (del_fix fs t) = BLACK"
proof (induction fs t rule: del_fix.induct)
  case (2 f fs t)
  obtain f' fs' where s: "straighten f fs = (f', fs')" by fastforce
  show ?case
  proof (cases "col t = RED")
    case True
    have "rok (fill (f # fs) (blacken t))"
      unfolding fill_ok bh_blacken using 2 True by simp
    moreover have "col (fill (f # fs) (blacken t)) = BLACK" using 2(4) col_fill [of "f # fs" "blacken t"] by simp
    ultimately show ?thesis using True by simp
  next
    case False
    note st = straighten_ok [OF 2(3) s]
    have sb: "case sib_step f' t of Inl u \<Rightarrow> rok (fill fs' u) | Inr u \<Rightarrow> rok (blacken u) \<and> okf fs' (Suc (bh u))"
      using sib_step_ok [OF st(1) _ _ st(3)] 2(2) False by (simp add: blacken_black)
    show ?thesis
    proof (cases "sib_step f' t")
      case (Inl u)
      then show ?thesis using False s sb by simp
    next
      case (Inr u)
      have "rootc fs' = BLACK" using st(2) [OF 2(4)] by (cases "fs' = []") auto
      then show ?thesis using 2(1) [of u] False s sb Inr by simp
    qed
  qed
qed simp


section \<open>Removal\<close>

text \<open>The first node of a tree, with the context it stands in below \<open>fs\<close>.\<close>

fun split_min :: "frame list \<Rightarrow> rt \<Rightarrow> frame list \<times> colour \<times> node \<times> rt" where
  "split_min fs (Nd c Lf a r) = (fs, c, a, r)"
| "split_min fs (Nd c l a r) = split_min (FL c a r # fs) l"
| "split_min fs Lf = (fs, BLACK, 0, Lf)"

lemma split_min_fill: "t \<noteq> Lf \<Longrightarrow> split_min fs t = (gs, c, y, r) \<Longrightarrow> fill gs (Nd c Lf y r) = fill fs t"
  by (induction fs t rule: split_min.induct) auto

lemma split_min_suffix: "split_min fs t = (gs, c, y, r) \<Longrightarrow> \<exists>ds. gs = ds @ fs"
  by (induction fs t rule: split_min.induct) auto

lemma split_min_lefts: "split_min fs t = (gs, c, y, r) \<Longrightarrow> lefts gs = lefts fs"
  by (induction fs t rule: split_min.induct) auto

lemma split_min_append: "split_min (fs @ hs) t = (case split_min fs t of (gs, x) \<Rightarrow> (gs @ hs, x))"
  by (induction fs t rule: split_min.induct) auto

text \<open>The place where a black node may be missing, the subtree there, and the colour that is gone.\<close>

fun unlink :: "frame list \<Rightarrow> rt \<Rightarrow> frame list \<times> rt \<times> colour" where
  "unlink fs (Nd cz l z r) =
     (if l = Lf then (fs, r, cz) else if r = Lf then (fs, l, cz)
      else case split_min [] r of (d, cy, y, yr) \<Rightarrow> (d @ FR l cz y # fs, yr, cy))"
| "unlink fs Lf = (fs, Lf, RED)"

definition abs_delete :: "frame list \<Rightarrow> rt \<Rightarrow> rt" where
  "abs_delete fs t = (case unlink fs t of (gs, x, c) \<Rightarrow> if c = BLACK then del_fix gs x else fill gs x)"

lemma nodes_unlink:
  assumes "unlink fs (Nd cz l z r) = (gs, x, c)"
  shows "nodes (fill gs x) = lefts fs @ nodes l @ nodes r @ rights fs"
proof (cases "l = Lf \<or> r = Lf")
  case True
  then show ?thesis using assms by (auto simp: nodes_fill split: if_splits)
next
  case False
  obtain d cy y yr where m: "split_min [] r = (d, cy, y, yr)" by (metis prod_cases4)
  have "nodes r = nodes (fill d (Nd cy Lf y yr))" using split_min_fill [OF _ m] False by simp
  then have r: "nodes r = lefts d @ y # nodes yr @ rights d" by (simp add: nodes_fill)
  have d: "lefts d = []" using split_min_lefts [OF m] by simp
  show ?thesis using assms False m r d by (auto simp: nodes_fill)
qed

text \<open>The height and colour conditions do not depend on the node in a frame.\<close>

lemma okf_rename: "okf (ds @ FR l c a # fs) h = okf (ds @ FR l c b # fs) h"
proof (induction ds arbitrary: h)
  case (Cons d ds)
  have "fcol (ds @ FR l c a # fs) = fcol (ds @ FR l c b # fs)" by (cases ds; cases "hd ds") auto
  then show ?case using Cons by (cases d) auto
qed simp

lemma fcol_rename: "fcol (ds @ FR l c a # fs) = fcol (ds @ FR l c b # fs)"
  by (cases ds; cases "hd ds") auto

lemma unlink_ok:
  assumes ok: "rok (fill fs (Nd cz l z r))" "col (fill fs (Nd cz l z r)) = BLACK" and u: "unlink fs (Nd cz l z r) = (gs, x, c)"
  shows "rok x" "c = BLACK \<Longrightarrow> okf gs (Suc (bh x))" "c = RED \<Longrightarrow> rok (fill gs x)" "rootc gs = BLACK"
    "c = RED \<Longrightarrow> gs \<noteq> []"
proof -
  have t: "rok l" "rok r" "bh l = bh r" "cz = RED \<Longrightarrow> col l = BLACK \<and> col r = BLACK \<and> fcol fs = BLACK"
    "okf fs (bh (Nd cz l z r))" using ok(1) unfolding fill_ok by auto
  have rc: "rootc fs = BLACK" using ok(2) col_fill [of fs] by (cases "fs = []") auto
  have "rok x \<and> (c = BLACK \<longrightarrow> okf gs (Suc (bh x))) \<and> (c = RED \<longrightarrow> rok (fill gs x)) \<and> rootc gs = BLACK \<and> (c = RED \<longrightarrow> gs \<noteq> [])"
  proof (cases "l = Lf \<or> r = Lf")
    case True
    then show ?thesis using u t rc ok(2) by (cases cz; cases "fs = []") (auto simp: fill_ok split: if_splits)
  next
    case False
    obtain d cy y yr where m: "split_min [] r = (d, cy, y, yr)" by (metis prod_cases4)
    have g: "gs = d @ FR l cz y # fs" "x = yr" "c = cy" using u False m by auto
    have "fill (d @ FR l cz z # fs) (Nd cy Lf y yr) = fill fs (Nd cz l z r)"
      using split_min_fill [OF _ m] False by simp
    then have "rok (fill (d @ FR l cz z # fs) (Nd cy Lf y yr))" using ok(1) by simp
    then have k: "rok yr" "bh yr = 0" "okf gs (bh (Nd cy Lf y yr))" "cy = RED \<Longrightarrow> col yr = BLACK \<and> fcol gs = BLACK"
      unfolding fill_ok g(1) by (auto simp: okf_rename [of d l cz y _ _ z] fcol_rename [of d l cz y _ z])
    have "rootc gs = BLACK"
    proof (cases "fs = []")
      case True
      then show ?thesis using ok(2) g(1) by (simp add: rootc_def)
    next
      case False
      then show ?thesis using rc g(1) by (simp add: rootc_def)
    qed
    moreover have "rok (fill gs x)" if "c = RED" using k that unfolding fill_ok g(2,3) by simp
    moreover have "okf gs (Suc (bh x))" if "c = BLACK" using k(2,3) that unfolding g(2,3) by simp
    ultimately show ?thesis using k(1) g by blast
  qed
  then show "rok x" "c = BLACK \<Longrightarrow> okf gs (Suc (bh x))" "c = RED \<Longrightarrow> rok (fill gs x)" "rootc gs = BLACK"
    "c = RED \<Longrightarrow> gs \<noteq> []" by blast+
qed

lemma abs_delete_ok:
  assumes "rok (fill fs (Nd cz l z r))" "col (fill fs (Nd cz l z r)) = BLACK"
  shows "rok (abs_delete fs (Nd cz l z r))" "col (abs_delete fs (Nd cz l z r)) = BLACK"
    "nodes (abs_delete fs (Nd cz l z r)) = lefts fs @ nodes l @ nodes r @ rights fs"
proof -
  obtain gs x c where u: "unlink fs (Nd cz l z r) = (gs, x, c)" by (metis prod_cases3)
  note k = unlink_ok [OF assms u]
  have a: "abs_delete fs (Nd cz l z r) = (if c = BLACK then del_fix gs x else fill gs x)"
    unfolding abs_delete_def u by simp
  show "nodes (abs_delete fs (Nd cz l z r)) = lefts fs @ nodes l @ nodes r @ rights fs"
    unfolding a using nodes_unlink [OF u] by (simp add: nodes_del_fix)
  show "rok (abs_delete fs (Nd cz l z r))" "col (abs_delete fs (Nd cz l z r)) = BLACK"
    unfolding a using k del_fix_rok [of x gs] col_fill [of gs x] by (cases c; simp)+
qed


section \<open>The place of a key\<close>

fun place :: "(node \<Rightarrow> 64 word) \<Rightarrow> 64 word \<Rightarrow> frame list \<Rightarrow> rt \<Rightarrow> frame list" where
  "place ky k fs Lf = fs"
| "place ky k fs (Nd c l a r) = (if k < ky a then place ky k (FL c a r # fs) l else place ky k (FR l c a # fs) r)"

lemma fill_place: "fill (place ky k fs t) Lf = fill fs t"
  by (induction ky k fs t rule: place.induct) auto

text \<open>The side on which the place hangs agrees with the comparison of the keys.\<close>

fun sided :: "(node \<Rightarrow> 64 word) \<Rightarrow> 64 word \<Rightarrow> frame list \<Rightarrow> bool" where
  "sided ky k [] = True"
| "sided ky k (FL c a r # fs) = (k < ky a)"
| "sided ky k (FR l c a # fs) = (\<not> k < ky a)"

lemma place_sided: "sided ky k fs \<Longrightarrow> sided ky k (place ky k fs t)"
  by (induction ky k fs t rule: place.induct) auto

lemma place_between:
  "(\<forall>a \<in> set (lefts fs). ky a \<le> k) \<Longrightarrow> (\<forall>a \<in> set (rights fs). k < ky a) \<Longrightarrow> sorted (map ky (nodes t))
    \<Longrightarrow> (\<forall>a \<in> set (lefts (place ky k fs t)). ky a \<le> k) \<and> (\<forall>a \<in> set (rights (place ky k fs t)). k < ky a)"
proof (induction ky k fs t rule: place.induct)
  case (2 ky k fs c l a r)
  have so: "sorted (map ky (nodes l))" "sorted (map ky (nodes r))" "\<forall>b \<in> set (nodes l). ky b \<le> ky a"
    "\<forall>b \<in> set (nodes r). ky a \<le> ky b" using 2(5) by (auto simp: sorted_append)
  show ?case
  proof (cases "k < ky a")
    case True
    have "k < ky b" if b: "b \<in> set (nodes r)" for b
      by (rule less_le_trans [OF True]) (use so(4) b in blast)
    then have R: "\<forall>b \<in> set (rights (FL c a r # fs)). k < ky b" using True 2(4) by (metis rights.simps(2) set_ConsD Un_iff set_append)
    have L: "\<forall>b \<in> set (lefts (FL c a r # fs)). ky b \<le> k" using 2(3) by (simp only: lefts.simps)
    have "place ky k fs (Nd c l a r) = place ky k (FL c a r # fs) l" using True by (simp only: place.simps if_True)
    then show ?thesis using 2(1) [OF True L R so(1)] by (simp only:)
  next
    case False
    have "ky b \<le> k" if b: "b \<in> set (nodes l)" for b
      by (rule order_trans [of _ "ky a"]) (use so(3) b False in \<open>simp_all only: not_less\<close>)
    then have L: "\<forall>b \<in> set (lefts (FR l c a # fs)). ky b \<le> k" using False 2(3)
      by (metis lefts.simps(3) not_less set_append Un_iff list.set(1,2) insert_iff empty_iff)
    have R: "\<forall>b \<in> set (rights (FR l c a # fs)). k < ky b" using 2(4) by (simp only: rights.simps)
    have "place ky k fs (Nd c l a r) = place ky k (FR l c a # fs) r" using False by (simp only: place.simps if_False)
    then show ?thesis using 2(2) [OF False L R so(2)] by (simp only:)
  qed
qed simp

lemma split_at_key:
  fixes ky :: "node \<Rightarrow> 64 word"
  assumes "\<forall>a \<in> set xs. ky a \<le> k" "\<forall>a \<in> set ys. k < ky a"
  shows "takeWhile (\<lambda>a. ky a \<le> k) (xs @ ys) = xs" "dropWhile (\<lambda>a. ky a \<le> k) (xs @ ys) = ys"
proof -
  have "takeWhile (\<lambda>a. ky a \<le> k) ys = [] \<and> dropWhile (\<lambda>a. ky a \<le> k) ys = ys"
    using assms(2) by (cases ys) (simp_all add: linorder_not_le)
  then show "takeWhile (\<lambda>a. ky a \<le> k) (xs @ ys) = xs" "dropWhile (\<lambda>a. ky a \<le> k) (xs @ ys) = ys"
    using assms(1) by simp_all
qed

end
