(* ===== verification/Rbtree_Proofs.thy ===== *)
theory Rbtree_Proofs
  imports Rb_Abstract
begin

text \<open>
  The store represents a tree in a context, and the pointer operations of \<open>Rbtree\<close> carry out the
  functions of \<open>Rb_Abstract\<close> on it.
\<close>

section \<open>Representation\<close>

lemma set_sel [simp]:
  "parent (set_parent a v s) = (parent s)(a := v)" "lson (set_parent a v s) = lson s" "rson (set_parent a v s) = rson s"
  "colour (set_parent a v s) = colour s" "key (set_parent a v s) = key s" "data (set_parent a v s) = data s"
  "nil (set_parent a v s) = nil s" "root (set_parent a v s) = root s"
  "parent (set_lson a v s) = parent s" "lson (set_lson a v s) = (lson s)(a := v)" "rson (set_lson a v s) = rson s"
  "colour (set_lson a v s) = colour s" "key (set_lson a v s) = key s" "data (set_lson a v s) = data s"
  "nil (set_lson a v s) = nil s" "root (set_lson a v s) = root s"
  "parent (set_rson a v s) = parent s" "lson (set_rson a v s) = lson s" "rson (set_rson a v s) = (rson s)(a := v)"
  "colour (set_rson a v s) = colour s" "key (set_rson a v s) = key s" "data (set_rson a v s) = data s"
  "nil (set_rson a v s) = nil s" "root (set_rson a v s) = root s"
  "parent (set_colour a c s) = parent s" "lson (set_colour a c s) = lson s" "rson (set_colour a c s) = rson s"
  "colour (set_colour a c s) = (colour s)(a := c)" "key (set_colour a c s) = key s" "data (set_colour a c s) = data s"
  "nil (set_colour a c s) = nil s" "root (set_colour a c s) = root s"
  by (simp_all add: set_parent_def set_lson_def set_rson_def set_colour_def)

text \<open>The tree \<open>t\<close> stands at \<open>x\<close>, with \<open>p\<close> as the parent of its root.\<close>

fun tr :: "rb \<Rightarrow> rt \<Rightarrow> node \<Rightarrow> node \<Rightarrow> bool" where
  "tr s Lf x p \<longleftrightarrow> x = nil s"
| "tr s (Nd c l a r) x p \<longleftrightarrow> x = a \<and> a \<noteq> nil s \<and> parent s a = p \<and> colour s a = c
     \<and> tr s l (lson s a) a \<and> tr s r (rson s a) a"

text \<open>The context: \<open>x\<close> is what its place holds, \<open>p\<close> the node above.\<close>

fun cx :: "rb \<Rightarrow> frame list \<Rightarrow> node \<Rightarrow> node \<Rightarrow> bool" where
  "cx s [] x p \<longleftrightarrow> root s = x \<and> p = nil s"
| "cx s (FL c a r # fs) x p \<longleftrightarrow> p = a \<and> a \<noteq> nil s \<and> colour s a = c \<and> lson s a = x \<and> tr s r (rson s a) a
     \<and> cx s fs a (parent s a)"
| "cx s (FR l c a # fs) x p \<longleftrightarrow> p = a \<and> a \<noteq> nil s \<and> colour s a = c \<and> rson s a = x \<and> tr s l (lson s a) a
     \<and> cx s fs a (parent s a)"

lemma tr_fill: "tr s (fill fs t) (root s) (nil s) \<longleftrightarrow> (\<exists>x p. tr s t x p \<and> cx s fs x p)"
proof (induction fs arbitrary: t)
  case (Cons f fs)
  show ?case by (cases f) (auto simp: Cons.IH)
qed simp

lemma tr_cong:
  assumes "\<And>a. a \<in> set (nodes t) \<Longrightarrow> parent s' a = parent s a \<and> lson s' a = lson s a \<and> rson s' a = rson s a \<and> colour s' a = colour s a"
    "nil s' = nil s"
  shows "tr s' t x p = tr s t x p"
  using assms by (induction t arbitrary: x p) auto

lemma tr_set [simp]:
  assumes "a \<notin> set (nodes t)"
  shows "tr (set_parent a v s) t x p = tr s t x p" "tr (set_lson a v s) t x p = tr s t x p"
    "tr (set_rson a v s) t x p = tr s t x p" "tr (set_colour a c s) t x p = tr s t x p"
  using assms by (auto intro!: tr_cong)

lemma tr_root [simp]: "tr (s\<lparr>root := y\<rparr>) t x p = tr s t x p"
  by (rule tr_cong) simp_all

lemma cx_set [simp]:
  assumes "a \<notin> set (lefts fs)" "a \<notin> set (rights fs)"
  shows "cx (set_parent a v s) fs x p = cx s fs x p" "cx (set_lson a v s) fs x p = cx s fs x p"
    "cx (set_rson a v s) fs x p = cx s fs x p" "cx (set_colour a c s) fs x p = cx s fs x p"
  using assms by (induction fs arbitrary: x p rule: lefts.induct) auto

lemma tr_at: "tr s t x p \<Longrightarrow> x = nil s \<and> t = Lf \<or> x \<noteq> nil s \<and> x \<in> set (nodes t) \<and> parent s x = p"
  by (cases t) auto

lemma tr_col: "tr s t x p \<Longrightarrow> colour s (nil s) = BLACK \<Longrightarrow> colour s x = col t"
  by (cases t) auto

definition zrep :: "rb \<Rightarrow> frame list \<Rightarrow> rt \<Rightarrow> node \<Rightarrow> node \<Rightarrow> bool" where
  "zrep s fs t x p \<longleftrightarrow> tr s t x p \<and> cx s fs x p \<and> distinct (lefts fs @ nodes t @ rights fs)
     \<and> nil s \<notin> set (lefts fs @ nodes t @ rights fs) \<and> colour s (nil s) = BLACK"

text \<open>The store holds the tree \<open>t\<close>.\<close>

definition holds :: "rb \<Rightarrow> rt \<Rightarrow> bool" where
  "holds s t \<longleftrightarrow> tr s t (root s) (nil s) \<and> distinct (nodes t) \<and> nil s \<notin> set (nodes t) \<and> colour s (nil s) = BLACK"

lemma holds_zrep: "holds s (fill fs t) \<longleftrightarrow> (\<exists>x p. zrep s fs t x p)"
  unfolding holds_def zrep_def tr_fill nodes_fill by auto

text \<open>What the operations on the shape leave alone.\<close>

definition keeps :: "rb \<Rightarrow> rb \<Rightarrow> bool" where
  "keeps s s' \<longleftrightarrow> key s' = key s \<and> data s' = data s \<and> nil s' = nil s"

lemma keeps_refl [simp]: "keeps s s"
  by (simp add: keeps_def)

lemma keeps_trans: "keeps s s' \<Longrightarrow> keeps s' s'' \<Longrightarrow> keeps s s''"
  by (simp add: keeps_def)

lemma keeps_set [simp]:
  "keeps s (set_parent a v s') = keeps s s'" "keeps s (set_lson a v s') = keeps s s'"
  "keeps s (set_rson a v s') = keeps s s'" "keeps s (set_colour a c s') = keeps s s'" "keeps s (s'\<lparr>root := y\<rparr>) = keeps s s'"
  by (simp_all add: keeps_def)

section \<open>Rotations\<close>

lemma relink_sel [simp]:
  "parent (relink x y s) = parent s" "colour (relink x y s) = colour s" "key (relink x y s) = key s"
  "data (relink x y s) = data s" "nil (relink x y s) = nil s" "keeps s' (relink x y s) = keeps s' s"
  "a \<noteq> parent s x \<Longrightarrow> lson (relink x y s) a = lson s a" "a \<noteq> parent s x \<Longrightarrow> rson (relink x y s) a = rson s a"
  by (simp_all add: relink_def)

lemma relink_tr [simp]: "parent s x \<notin> set (nodes t) \<Longrightarrow> tr (relink x y s) t u q = tr s t u q"
  by (simp add: relink_def)

lemma relink_cx:
  assumes "cx s fs x p" "parent s x = p" "x \<noteq> nil s" "x \<notin> set (lefts fs)" "distinct (lefts fs @ rights fs)"
  shows "cx (relink x y s) fs y p"
proof (cases fs)
  case Nil
  then show ?thesis using assms by (simp add: relink_def)
next
  case (Cons f fs')
  show ?thesis
  proof (cases f)
    case (FL c a r)
    then show ?thesis using assms Cons by (auto simp: relink_def)
  next
    case (FR l c a)
    then have "lson s a \<noteq> x" using assms Cons tr_at [of s l "lson s a" a] by auto
    then show ?thesis using assms Cons FR by (auto simp: relink_def)
  qed
qed

lemma cx_parent: "cx s fs x p \<Longrightarrow> p = nil s \<or> p \<in> set (lefts fs) \<union> set (rights fs)"
  by (cases fs rule: lefts.cases) auto

lemma left_rotate_zrep:
  assumes z: "zrep s fs (Nd c A x (Nd d B y C)) x p"
  shows "zrep (left_rotate x s) fs (Nd d (Nd c A x B) y C) y p" "keeps s (left_rotate x s)"
    "parent (left_rotate x s) (nil s) = parent s (nil s)"
proof -
  define b where "b = lson s y"
  define s2 where "s2 = (if b \<noteq> nil s then set_parent b x (set_rson x b s) else set_rson x b s)"
  define s3 where "s3 = set_parent y p s2"
  have h: "rson s x = y" "parent s x = p" "parent s y = x" "x \<noteq> nil s" "y \<noteq> nil s" "tr s A (lson s x) x"
    "tr s B b y" "tr s C (rson s y) y" "colour s x = c" "colour s y = d" "cx s fs x p" "colour s (nil s) = BLACK"
    using z by (auto simp: zrep_def b_def)
  have dist: "distinct (lefts fs @ (nodes A @ x # nodes B @ y # nodes C) @ rights fs)"
    "nil s \<notin> set (lefts fs @ (nodes A @ x # nodes B @ y # nodes C) @ rights fs)" using z by (auto simp: zrep_def)
  have bB: "b = nil s \<and> B = Lf \<or> b \<noteq> nil s \<and> b \<in> set (nodes B)" using tr_at [OF h(7)] by auto
  have bx: "b \<noteq> x" "b \<noteq> y" using bB dist h(4,5) by auto
  have bn: "b \<notin> set (lefts fs)" "b \<notin> set (rights fs)" "b \<notin> set (nodes A)" "b \<notin> set (nodes C)"
    using bB dist by auto
  have pp: "p \<notin> set (nodes A @ x # nodes B @ y # nodes C)" using cx_parent [OF h(11)] dist by auto
  have rot: "left_rotate x s = set_parent x y (set_lson y x (relink x y s3))"
    using h bx by (auto simp: left_rotate_def Let_def s3_def s2_def b_def)
  have f3: "parent s3 x = p" "nil s3 = nil s" "lson s3 = lson s" "rson s3 = (rson s)(x := b)" "colour s3 = colour s"
    "root s3 = root s" "keeps s s3"
    using h dist bB by (auto simp: s3_def s2_def)
  have c3: "cx s3 fs x p" using h(11) dist bn by (simp add: s3_def s2_def)
  have c4: "cx (relink x y s3) fs y p" by (rule relink_cx [OF c3 f3(1)]) (use h dist f3 in auto)
  have A: "tr s3 A (lson s x) x" using h(6) dist bn by (simp add: s3_def s2_def)
  have C: "tr s3 C (rson s y) y" using h(8) dist bn by (simp add: s3_def s2_def)
  have B: "tr s3 B b x"
  proof (cases B)
    case Lf
    then show ?thesis using bB f3 by auto
  next
    case (Nd cb bl b' br)
    then have "b' = b" "b \<noteq> nil s" using h(7) by auto
    then show ?thesis using h(7) dist Nd by (auto simp: s3_def s2_def)
  qed
  have "tr (left_rotate x s) (Nd d (Nd c A x B) y C) y p"
    using A B C h f3 dist pp unfolding rot by (auto simp: s3_def s2_def)
  moreover have "cx (left_rotate x s) fs y p" using c4 dist unfolding rot by auto
  ultimately show "zrep (left_rotate x s) fs (Nd d (Nd c A x B) y C) y p"
    using dist h(12) f3 unfolding zrep_def rot by auto
  show "keeps s (left_rotate x s)" using f3(7) unfolding rot by simp
  show "parent (left_rotate x s) (nil s) = parent s (nil s)"
    unfolding rot using h(4,5) by (auto simp: s3_def s2_def)
qed

lemma right_rotate_zrep:
  assumes z: "zrep s fs (Nd c (Nd d C y B) x A) x p"
  shows "zrep (right_rotate x s) fs (Nd d C y (Nd c B x A)) y p" "keeps s (right_rotate x s)"
    "parent (right_rotate x s) (nil s) = parent s (nil s)"
proof -
  define b where "b = rson s y"
  define s2 where "s2 = (if b \<noteq> nil s then set_parent b x (set_lson x b s) else set_lson x b s)"
  define s3 where "s3 = set_parent y p s2"
  have h: "lson s x = y" "parent s x = p" "parent s y = x" "x \<noteq> nil s" "y \<noteq> nil s" "tr s A (rson s x) x"
    "tr s B b y" "tr s C (lson s y) y" "colour s x = c" "colour s y = d" "cx s fs x p" "colour s (nil s) = BLACK"
    using z by (auto simp: zrep_def b_def)
  have dist: "distinct (lefts fs @ (nodes C @ y # nodes B @ x # nodes A) @ rights fs)"
    "nil s \<notin> set (lefts fs @ (nodes C @ y # nodes B @ x # nodes A) @ rights fs)" using z by (auto simp: zrep_def)
  have bB: "b = nil s \<and> B = Lf \<or> b \<noteq> nil s \<and> b \<in> set (nodes B)" using tr_at [OF h(7)] by auto
  have bx: "b \<noteq> x" "b \<noteq> y" using bB dist h(4,5) by auto
  have bn: "b \<notin> set (lefts fs)" "b \<notin> set (rights fs)" "b \<notin> set (nodes A)" "b \<notin> set (nodes C)"
    using bB dist by auto
  have pp: "p \<notin> set (nodes C @ y # nodes B @ x # nodes A)" using cx_parent [OF h(11)] dist by auto
  have rot: "right_rotate x s = set_parent x y (set_rson y x (relink x y s3))"
    using h bx by (auto simp: right_rotate_def Let_def s3_def s2_def b_def)
  have f3: "parent s3 x = p" "nil s3 = nil s" "rson s3 = rson s" "lson s3 = (lson s)(x := b)" "colour s3 = colour s"
    "root s3 = root s" "keeps s s3"
    using h dist bB by (auto simp: s3_def s2_def)
  have c3: "cx s3 fs x p" using h(11) dist bn by (simp add: s3_def s2_def)
  have c4: "cx (relink x y s3) fs y p" by (rule relink_cx [OF c3 f3(1)]) (use h dist f3 in auto)
  have A: "tr s3 A (rson s x) x" using h(6) dist bn by (simp add: s3_def s2_def)
  have C: "tr s3 C (lson s y) y" using h(8) dist bn by (simp add: s3_def s2_def)
  have B: "tr s3 B b x"
  proof (cases B)
    case Lf
    then show ?thesis using bB f3 by auto
  next
    case (Nd cb bl b' br)
    then have "b' = b" "b \<noteq> nil s" using h(7) by auto
    then show ?thesis using h(7) dist Nd by (auto simp: s3_def s2_def)
  qed
  have "tr (right_rotate x s) (Nd d C y (Nd c B x A)) y p"
    using A B C h f3 dist pp unfolding rot by (auto simp: s3_def s2_def)
  moreover have "cx (right_rotate x s) fs y p" using c4 dist unfolding rot by auto
  ultimately show "zrep (right_rotate x s) fs (Nd d C y (Nd c B x A)) y p"
    using dist h(12) f3 unfolding zrep_def rot by auto
  show "keeps s (right_rotate x s)" using f3(7) unfolding rot by simp
  show "parent (right_rotate x s) (nil s) = parent s (nil s)"
    unfolding rot using h(4,5) by (auto simp: s3_def s2_def)
qed


section \<open>Moving in the tree\<close>

lemma zrep_up_left: "zrep s (FL c a r # fs) t x p \<Longrightarrow> p = a \<and> zrep s fs (Nd c t a r) a (parent s a)"
  by (auto simp: zrep_def)

lemma zrep_up_right: "zrep s (FR l c a # fs) t x p \<Longrightarrow> p = a \<and> zrep s fs (Nd c l a t) a (parent s a)"
  by (auto simp: zrep_def)

lemma zrep_down_left: "zrep s fs (Nd c l a r) x p \<Longrightarrow> x = a \<and> zrep s (FL c a r # fs) l (lson s a) a"
  by (auto simp: zrep_def)

lemma zrep_down_right: "zrep s fs (Nd c l a r) x p \<Longrightarrow> x = a \<and> zrep s (FR l c a # fs) r (rson s a) a"
  by (auto simp: zrep_def)

lemma zrep_paint: "zrep s fs (Nd c l a r) x p \<Longrightarrow> zrep (set_colour a d s) fs (Nd d l a r) x p"
  by (auto simp: zrep_def)

lemma zrep_node: "zrep s fs (Nd c l a r) x p \<Longrightarrow> x = a \<and> a \<noteq> nil s \<and> parent s a = p \<and> colour s a = c"
  by (auto simp: zrep_def)

lemma zrep_at: "zrep s fs t x p \<Longrightarrow> t \<noteq> Lf \<Longrightarrow> x \<noteq> nil s \<and> x \<in> set (nodes t) \<and> parent s x = p"
  using tr_at by (auto simp: zrep_def)

lemma zrep_fcol: "zrep s fs t x p \<Longrightarrow> colour s p = fcol fs"
  by (cases fs rule: lefts.cases) (auto simp: zrep_def)

lemma zrep_col: "zrep s fs t x p \<Longrightarrow> colour s x = col t"
  using tr_col by (auto simp: zrep_def)

text \<open>The parent of the place is its root's left or right neighbour.\<close>

lemma trees_apart:
  assumes "tr s t x p" "tr s u y q" "set (nodes t) \<inter> set (nodes u) = {}" "t \<noteq> Lf \<or> u \<noteq> Lf"
  shows "x \<noteq> y"
  using tr_at [OF assms(1)] tr_at [OF assms(2)] assms(3,4) by auto

lemma zrep_left_side:
  assumes "zrep s (FL c a r # fs) t x p"
  shows "lson s p = x \<and> (t \<noteq> Lf \<or> r \<noteq> Lf \<longrightarrow> rson s p \<noteq> x)"
proof -
  have h: "p = a" "lson s a = x" "tr s t x a" "tr s r (rson s a) a" "set (nodes r) \<inter> set (nodes t) = {}"
    using assms by (auto simp: zrep_def)
  show ?thesis using trees_apart [OF h(4,3,5)] h(1,2) by blast
qed

lemma zrep_right_side:
  assumes "zrep s (FR l c a # fs) t x p"
  shows "rson s p = x \<and> (t \<noteq> Lf \<or> l \<noteq> Lf \<longrightarrow> lson s p \<noteq> x)"
proof -
  have h: "p = a" "rson s a = x" "tr s t x a" "tr s l (lson s a) a" "set (nodes l) \<inter> set (nodes t) = {}"
    using assms by (auto simp: zrep_def)
  show ?thesis using trees_apart [OF h(4,3,5)] h(1,2) by blast
qed

lemma zrep_holds: "zrep s fs t x p \<Longrightarrow> holds s (fill fs t)"
  using holds_zrep by blast

section \<open>Repair after an insertion\<close>

lemma insert_fixup_stop:
  assumes "zrep s fs t z p" "t \<noteq> Lf" "fcol fs = BLACK"
  shows "insert_fixup_loop z s = Some s"
  using zrep_at [OF assms(1,2)] zrep_fcol [OF assms(1)] assms(3) by (subst insert_fixup_loop.simps) simp

lemma ins_fix_stop: "fcol fs = BLACK \<Longrightarrow> ins_fix fs t = fill fs t"
  by (induction fs t rule: ins_fix.induct) auto

text \<open>The last rotation, for a node that is a left child of a left child.\<close>

lemma insert_rotate_right:
  assumes z: "zrep s (FL cp p pr # FL cg g y # fs) t z q" and t: "t \<noteq> Lf"
  defines "s' \<equiv> right_rotate g (set_colour g RED (set_colour p BLACK s))"
  shows "insert_fixup_loop z s' = Some s'" "holds s' (fill fs (Nd BLACK t p (Nd RED pr g y)))" "keeps s s'"
proof -
  have "zrep s (FL cg g y # fs) (Nd cp t p pr) p (parent s p)" using zrep_up_left [OF z] by simp
  then have "zrep (set_colour p BLACK s) (FL cg g y # fs) (Nd BLACK t p pr) p (parent s p)" by (rule zrep_paint)
  from zrep_up_left [OF this] zrep_paint
  have g: "zrep (set_colour g RED (set_colour p BLACK s)) fs (Nd RED (Nd BLACK t p pr) g y) g (parent s g)" by auto
  note r = right_rotate_zrep [OF g, folded s'_def]
  show "keeps s s'" using r(2) by (auto simp: keeps_def)
  show "holds s' (fill fs (Nd BLACK t p (Nd RED pr g y)))" by (rule zrep_holds [OF r(1)])
  have d: "zrep s' (FL BLACK p (Nd RED pr g y) # fs) t (lson s' p) p" using zrep_down_left [OF r(1)] by simp
  have "lson s' p = z"
    using zrep_at [OF z t] zrep_at [OF d t] z d t by (cases t) (auto simp: zrep_def)
  then show "insert_fixup_loop z s' = Some s'" using insert_fixup_stop [OF d t] by simp
qed

lemma insert_rotate_left:
  assumes z: "zrep s (FR pl cp p # FR y cg g # fs) t z q" and t: "t \<noteq> Lf"
  defines "s' \<equiv> left_rotate g (set_colour g RED (set_colour p BLACK s))"
  shows "insert_fixup_loop z s' = Some s'" "holds s' (fill fs (Nd BLACK (Nd RED y g pl) p t))" "keeps s s'"
proof -
  have "zrep s (FR y cg g # fs) (Nd cp pl p t) p (parent s p)" using zrep_up_right [OF z] by simp
  then have "zrep (set_colour p BLACK s) (FR y cg g # fs) (Nd BLACK pl p t) p (parent s p)" by (rule zrep_paint)
  from zrep_up_right [OF this] zrep_paint
  have g: "zrep (set_colour g RED (set_colour p BLACK s)) fs (Nd RED y g (Nd BLACK pl p t)) g (parent s g)" by auto
  note r = left_rotate_zrep [OF g, folded s'_def]
  show "keeps s s'" using r(2) by (auto simp: keeps_def)
  show "holds s' (fill fs (Nd BLACK (Nd RED y g pl) p t))" by (rule zrep_holds [OF r(1)])
  have d: "zrep s' (FR (Nd RED y g pl) BLACK p # fs) t (rson s' p) p" using zrep_down_right [OF r(1)] by simp
  have "rson s' p = z"
    using zrep_at [OF z t] zrep_at [OF d t] z d t by (cases t) (auto simp: zrep_def)
  then show "insert_fixup_loop z s' = Some s'" using insert_fixup_stop [OF d t] by simp
qed

text \<open>The recolouring below the grandparent \<open>g\<close>.\<close>

lemma insert_recolour:
  assumes "zrep s fs (Nd cg T g U) g q" "T = Nd RED A p B \<and> U = Nd RED yl y yr \<or> U = Nd RED A p B \<and> T = Nd RED yl y yr"
  shows "zrep (set_colour g RED (set_colour y BLACK (set_colour p BLACK s))) fs (Nd RED (blacken T) g (blacken U)) g q"
  using assms by (auto simp: zrep_def)


lemma tr_root_of: "tr s (Nd c l a r) x p \<Longrightarrow> x = a"
  by simp

text \<open>One round, by the side of the parent.\<close>

lemma insert_left_recolour:
  assumes z: "zrep s (f # FL cg g (Nd RED yl y yr) # fs) t z p" "t \<noteq> Lf" and f: "up f t = Nd RED A p B"
  defines "s' \<equiv> set_colour g RED (set_colour y BLACK (set_colour p BLACK s))"
  shows "insert_left z s = (g, s')" "zrep s' fs (Nd RED (blacken (up f t)) g (Nd BLACK yl y yr)) g (parent s g)"
    "keeps s s'" "parent s z = lson s (parent s (parent s z))"
proof -
  have zp: "parent s z = p" using zrep_at [OF z] by simp
  have p: "zrep s (FL cg g (Nd RED yl y yr) # fs) (Nd RED A p B) p (parent s p)"
    using z(1) f zrep_up_left zrep_up_right by (cases f) fastforce+
  have pg: "parent s p = g" and g: "zrep s fs (Nd cg (Nd RED A p B) g (Nd RED yl y yr)) g (parent s g)"
    using zrep_up_left [OF p] by auto
  have y: "rson s g = y" "colour s y = RED" "lson s g = p" using g by (auto simp: zrep_def)
  show "insert_left z s = (g, s')" unfolding insert_left_def s'_def using zp pg y by (simp add: Let_def)
  show "zrep s' fs (Nd RED (blacken (up f t)) g (Nd BLACK yl y yr)) g (parent s g)"
    using insert_recolour [OF g, of A p B yl y yr] unfolding s'_def f by simp
  show "keeps s s'" by (simp add: s'_def)
  show "parent s z = lson s (parent s (parent s z))" using zp pg y by simp
qed

lemma insert_right_recolour:
  assumes z: "zrep s (f # FR (Nd RED yl y yr) cg g # fs) t z p" "t \<noteq> Lf" and f: "up f t = Nd RED A p B"
  defines "s' \<equiv> set_colour g RED (set_colour y BLACK (set_colour p BLACK s))"
  shows "insert_right z s = (g, s')" "zrep s' fs (Nd RED (Nd BLACK yl y yr) g (blacken (up f t))) g (parent s g)"
    "keeps s s'" "parent s z \<noteq> lson s (parent s (parent s z))"
proof -
  have zp: "parent s z = p" using zrep_at [OF z] by simp
  have p: "zrep s (FR (Nd RED yl y yr) cg g # fs) (Nd RED A p B) p (parent s p)"
    using z(1) f zrep_up_left zrep_up_right by (cases f) fastforce+
  have pg: "parent s p = g" and g: "zrep s fs (Nd cg (Nd RED yl y yr) g (Nd RED A p B)) g (parent s g)"
    using zrep_up_right [OF p] by auto
  have y: "lson s g = y" "colour s y = RED" "rson s g = p" "y \<noteq> p" using g by (auto simp: zrep_def)
  show "insert_right z s = (g, s')" unfolding insert_right_def s'_def using zp pg y by (simp add: Let_def)
  show "zrep s' fs (Nd RED (Nd BLACK yl y yr) g (blacken (up f t))) g (parent s g)"
    using insert_recolour [OF g, of A p B yl y yr] unfolding s'_def f by simp
  show "keeps s s'" by (simp add: s'_def)
  show "parent s z \<noteq> lson s (parent s (parent s z))" using zp pg y by simp
qed

lemma insert_left_outer:
  assumes z: "zrep s (FL RED p pr # FL cg g y # fs) t z q" "t \<noteq> Lf" "col y = BLACK"
  defines "s' \<equiv> right_rotate g (set_colour g RED (set_colour p BLACK s))"
  shows "insert_left z s = (z, s')" "parent s z = lson s (parent s (parent s z))"
proof -
  have zp: "q = p" "parent s z = p" using zrep_at [OF z(1,2)] zrep_up_left [OF z(1)] by auto
  have zl: "rson s p \<noteq> z" using zrep_left_side [OF z(1)] z(2) zp by blast
  have p: "zrep s (FL cg g y # fs) (Nd RED t p pr) p (parent s p)" using zrep_up_left [OF z(1)] by simp
  have pg: "parent s p = g" and g: "zrep s fs (Nd cg (Nd RED t p pr) g y) g (parent s g)" using zrep_up_left [OF p] by auto
  have y: "colour s (rson s g) = BLACK" "lson s g = p" using g tr_col [of s y "rson s g" g] z(3) by (auto simp: zrep_def)
  show "insert_left z s = (z, s')" unfolding insert_left_def s'_def using zp pg y zl by (auto simp: Let_def)
  show "parent s z = lson s (parent s (parent s z))" using zp pg y by simp
qed

lemma insert_right_outer:
  assumes z: "zrep s (FR pl RED p # FR y cg g # fs) t z q" "t \<noteq> Lf" "col y = BLACK"
  defines "s' \<equiv> left_rotate g (set_colour g RED (set_colour p BLACK s))"
  shows "insert_right z s = (z, s')" "parent s z \<noteq> lson s (parent s (parent s z))"
proof -
  have zp: "q = p" "parent s z = p" using zrep_at [OF z(1,2)] zrep_up_right [OF z(1)] by auto
  have zl: "lson s p \<noteq> z" using zrep_right_side [OF z(1)] z(2) zp by blast
  have p: "zrep s (FR y cg g # fs) (Nd RED pl p t) p (parent s p)" using zrep_up_right [OF z(1)] by simp
  have pg: "parent s p = g" and g: "zrep s fs (Nd cg y g (Nd RED pl p t)) g (parent s g)" using zrep_up_right [OF p] by auto
  have y: "colour s (lson s g) = BLACK" using g tr_col [of s y "lson s g" g] z(3) by (auto simp: zrep_def)
  have lg: "lson s g \<noteq> p" using zrep_right_side [OF p] pg by auto
  show "insert_right z s = (z, s')" unfolding insert_right_def s'_def using zp pg y zl by (auto simp: Let_def)
  show "parent s z \<noteq> lson s (parent s (parent s z))" using zp pg lg by simp
qed

text \<open>An inner grandchild is first rotated to the outside.\<close>

lemma insert_left_inner:
  assumes z: "zrep s (FR pl RED p # FL cg g y # fs) (Nd c zl z zr) z' q" "col y = BLACK"
  defines "s1 \<equiv> left_rotate p s"
  defines "s' \<equiv> right_rotate g (set_colour g RED (set_colour z BLACK s1))"
  shows "insert_left z s = (p, s')" "parent s z = lson s (parent s (parent s z))"
    "zrep s1 (FL c z zr # FL cg g y # fs) (Nd RED pl p zl) p z" "keeps s s1"
proof -
  have zz: "z' = z" "parent s z = p" using zrep_node [OF z(1)] zrep_up_right [OF z(1)] by auto
  have zr: "rson s p = z" using zrep_right_side [OF z(1)] zz zrep_up_right [OF z(1)] by simp
  have p: "zrep s (FL cg g y # fs) (Nd RED pl p (Nd c zl z zr)) p (parent s p)" using zrep_up_right [OF z(1)] by simp
  have pg: "parent s p = g" and g: "zrep s fs (Nd cg (Nd RED pl p (Nd c zl z zr)) g y) g (parent s g)"
    using zrep_up_left [OF p] by auto
  have y: "colour s (rson s g) = BLACK" "lson s g = p" using g tr_col [of s y "rson s g" g] z(2) by (auto simp: zrep_def)
  note r = left_rotate_zrep [OF p, folded s1_def]
  have d0: "zrep s1 (FL c z zr # FL cg g y # fs) (Nd RED pl p zl) (lson s1 z) z" using zrep_down_left [OF r(1)] by blast
  then show d: "zrep s1 (FL c z zr # FL cg g y # fs) (Nd RED pl p zl) p z" using zrep_node [OF d0] by simp
  have pz: "parent s1 p = z" "parent s1 z = g" using zrep_node [OF d] zrep_node [OF r(1)] pg by auto
  show "insert_left z s = (p, s')"
    unfolding insert_left_def s'_def using zz zr pg y pz by (auto simp: Let_def s1_def)
  show "parent s z = lson s (parent s (parent s z))" using zz pg y by simp
  show "keeps s s1" by (rule r(2))
qed

lemma insert_right_inner:
  assumes z: "zrep s (FL RED p pr # FR y cg g # fs) (Nd c zl z zr) z' q" "col y = BLACK"
  defines "s1 \<equiv> right_rotate p s"
  defines "s' \<equiv> left_rotate g (set_colour g RED (set_colour z BLACK s1))"
  shows "insert_right z s = (p, s')" "parent s z \<noteq> lson s (parent s (parent s z))"
    "zrep s1 (FR zl c z # FR y cg g # fs) (Nd RED zr p pr) p z" "keeps s s1"
proof -
  have zz: "z' = z" "parent s z = p" using zrep_node [OF z(1)] zrep_up_left [OF z(1)] by auto
  have zl: "lson s p = z" using zrep_left_side [OF z(1)] zz zrep_up_left [OF z(1)] by simp
  have p: "zrep s (FR y cg g # fs) (Nd RED (Nd c zl z zr) p pr) p (parent s p)" using zrep_up_left [OF z(1)] by simp
  have pg: "parent s p = g" and g: "zrep s fs (Nd cg y g (Nd RED (Nd c zl z zr) p pr)) g (parent s g)"
    using zrep_up_right [OF p] by auto
  have y: "colour s (lson s g) = BLACK" using g tr_col [of s y "lson s g" g] z(2) by (auto simp: zrep_def)
  have lg: "lson s g \<noteq> p" using zrep_right_side [OF p] pg by auto
  note r = right_rotate_zrep [OF p, folded s1_def]
  have d0: "zrep s1 (FR zl c z # FR y cg g # fs) (Nd RED zr p pr) (rson s1 z) z" using zrep_down_right [OF r(1)] by blast
  then show d: "zrep s1 (FR zl c z # FR y cg g # fs) (Nd RED zr p pr) p z" using zrep_node [OF d0] by simp
  have pz: "parent s1 p = z" "parent s1 z = g" using zrep_node [OF d] zrep_node [OF r(1)] pg by auto
  show "insert_right z s = (p, s')"
    unfolding insert_right_def s'_def using zz zl pg y pz by (auto simp: Let_def s1_def)
  show "parent s z \<noteq> lson s (parent s (parent s z))" using zz pg lg by simp
  show "keeps s s1" by (rule r(2))
qed


lemma insert_loop_left:
  "zrep s fs t z p \<Longrightarrow> t \<noteq> Lf \<Longrightarrow> fcol fs = RED \<Longrightarrow> parent s z = lson s (parent s (parent s z)) \<Longrightarrow> insert_left z s = (z', s')
    \<Longrightarrow> insert_fixup_loop z s = insert_fixup_loop z' s'"
  using zrep_at [of s fs t z p] zrep_fcol [of s fs t z p] by (subst insert_fixup_loop.simps) simp

lemma insert_loop_right:
  "zrep s fs t z p \<Longrightarrow> t \<noteq> Lf \<Longrightarrow> fcol fs = RED \<Longrightarrow> parent s z \<noteq> lson s (parent s (parent s z)) \<Longrightarrow> insert_right z s = (z', s')
    \<Longrightarrow> insert_fixup_loop z s = insert_fixup_loop z' s'"
  using zrep_at [of s fs t z p] zrep_fcol [of s fs t z p] by (subst insert_fixup_loop.simps) simp

lemma insert_done:
  "zrep s fs t z p \<Longrightarrow> t \<noteq> Lf \<Longrightarrow> fcol fs = BLACK
    \<Longrightarrow> \<exists>s'. insert_fixup_loop z s = Some s' \<and> holds s' (ins_fix fs t) \<and> keeps s s'"
  using insert_fixup_stop [of s fs t z p] zrep_holds [of s fs t z p] ins_fix_stop [of fs t] by simp

lemma col_RED_Nd: "col t = RED \<Longrightarrow> \<exists>l a r. t = Nd RED l a r"
  by (cases t) auto

lemma insert_fixup_loop_ok:
  "zrep s fs t z p \<Longrightarrow> t \<noteq> Lf \<Longrightarrow> rootc fs = BLACK
    \<Longrightarrow> \<exists>s'. insert_fixup_loop z s = Some s' \<and> holds s' (ins_fix fs t) \<and> keeps s s'"
proof (induction fs t arbitrary: s z p rule: ins_fix.induct)
  case (1 q pr cg g y fs t)
  have rc: "rootc fs = BLACK" using 1(4) by (cases "fs = []") auto
  have zp: "p = q" using zrep_up_left [OF 1(2)] by simp
  note step = insert_loop_left [OF 1(2,3)]
  show ?case
  proof (cases "col y = RED")
    case True
    then obtain yl a yr where y: "y = Nd RED yl a yr" using col_RED_Nd by blast
    note r = insert_left_recolour [OF 1(2) [unfolded y zp] 1(3), simplified up.simps, OF refl]
    from 1(1) [OF True, unfolded y, simplified, OF r(2) [unfolded blacken.simps] rc] show ?thesis
      using step [OF _ r(4,1)] keeps_trans [OF r(3)] y by auto
  next
    case False
    then have b: "col y = BLACK" by simp
    note o = insert_left_outer [OF 1(2,3) b]
    note r = insert_rotate_right [OF 1(2,3)]
    show ?thesis using step [OF _ o(2,1)] r b by simp
  qed
next
  case (2 pl q cg g y fs c zl a zr)
  have rc: "rootc fs = BLACK" using 2(4) by (cases "fs = []") auto
  have zp: "p = q" "z = a" using zrep_up_right [OF 2(2)] zrep_node [OF 2(2)] by simp_all
  note step = insert_loop_left [OF 2(2) [unfolded zp(2)] 2(3)]
  show ?case
  proof (cases "col y = RED")
    case True
    then obtain yl w yr where y: "y = Nd RED yl w yr" using col_RED_Nd by blast
    note r = insert_left_recolour [OF 2(2) [unfolded y zp] 2(3), simplified up.simps, OF refl]
    from 2(1) [OF True, unfolded y, simplified, OF r(2) [unfolded blacken.simps] rc] show ?thesis
      using step [OF _ r(4,1)] keeps_trans [OF r(3)] y zp by auto
  next
    case False
    then have b: "col y = BLACK" by simp
    note o = insert_left_inner [OF 2(2) b]
    note r = insert_rotate_right [OF o(3)]
    show ?thesis using step [OF _ o(2,1)] r b keeps_trans [OF o(4)] zp by simp
  qed
next
  case (3 pl q y cg g fs t)
  have rc: "rootc fs = BLACK" using 3(4) by (cases "fs = []") auto
  have zp: "p = q" using zrep_up_right [OF 3(2)] by simp
  note step = insert_loop_right [OF 3(2,3)]
  show ?case
  proof (cases "col y = RED")
    case True
    then obtain yl a yr where y: "y = Nd RED yl a yr" using col_RED_Nd by blast
    note r = insert_right_recolour [OF 3(2) [unfolded y zp] 3(3), simplified up.simps, OF refl]
    from 3(1) [OF True, unfolded y, simplified, OF r(2) [unfolded blacken.simps] rc] show ?thesis
      using step [OF _ r(4,1)] keeps_trans [OF r(3)] y by auto
  next
    case False
    then have b: "col y = BLACK" by simp
    note o = insert_right_outer [OF 3(2,3) b]
    note r = insert_rotate_left [OF 3(2,3)]
    show ?thesis using step [OF _ o(2,1)] r b by simp
  qed
next
  case (4 q pr y cg g fs c zl a zr)
  have rc: "rootc fs = BLACK" using 4(4) by (cases "fs = []") auto
  have zp: "p = q" "z = a" using zrep_up_left [OF 4(2)] zrep_node [OF 4(2)] by simp_all
  note step = insert_loop_right [OF 4(2) [unfolded zp(2)] 4(3)]
  show ?case
  proof (cases "col y = RED")
    case True
    then obtain yl w yr where y: "y = Nd RED yl w yr" using col_RED_Nd by blast
    note r = insert_right_recolour [OF 4(2) [unfolded y zp] 4(3), simplified up.simps, OF refl]
    from 4(1) [OF True, unfolded y, simplified, OF r(2) [unfolded blacken.simps] rc] show ?thesis
      using step [OF _ r(4,1)] keeps_trans [OF r(3)] y zp by auto
  next
    case False
    then have b: "col y = BLACK" by simp
    note o = insert_right_inner [OF 4(2) b]
    note r = insert_rotate_left [OF o(3)]
    show ?thesis using step [OF _ o(2,1)] r b keeps_trans [OF o(4)] zp by simp
  qed
qed ((erule insert_done, assumption, simp; fail) | simp)+


section \<open>Insertion\<close>

lemma insert_loop_ok:
  "zrep s fs t x y \<Longrightarrow> \<exists>p. insert_loop s k x y = Some p \<and> zrep s (place (key s) k fs t) Lf (nil s) p"
proof (induction "key s" k fs t arbitrary: x y rule: place.induct)
  case (1 k fs)
  then have "x = nil s" by (simp add: zrep_def)
  then show ?case using 1 by (subst insert_loop.simps) simp
next
  case (2 k fs c l a r)
  have x: "x = a" "a \<noteq> nil s" using zrep_node [OF 2(3)] by simp_all
  show ?case
  proof (cases "k < key s a")
    case True
    then have "insert_loop s k x y = insert_loop s k (lson s a) a" using x by (subst insert_loop.simps) simp
    then show ?thesis using 2(1) [OF True] zrep_down_left [OF 2(3)] True by simp
  next
    case False
    then have "insert_loop s k x y = insert_loop s k (rson s a) a" using x by (subst insert_loop.simps) simp
    then show ?thesis using 2(2) [OF False] zrep_down_right [OF 2(3)] False by simp
  qed
qed

text \<open>A red leaf is hung into the place.\<close>

lemma hang_leaf:
  assumes z: "zrep s gs Lf (nil s) y" and f: "z \<notin> set (lefts gs @ rights gs)" "z \<noteq> nil s" and side: "sided (key s) (key s z) gs"
  defines "s1 \<equiv> set_parent z y s"
  defines "s2 \<equiv> (if y = nil s1 then s1\<lparr>root := z\<rparr> else if key s1 z < key s1 y then set_lson y z s1 else set_rson y z s1)"
  defines "s5 \<equiv> set_colour z RED (set_rson z (nil s) (set_lson z (nil s) s2))"
  shows "zrep s5 gs (Nd RED Lf z Lf) z y" "keeps s s5"
proof -
  have h: "cx s gs (nil s) y" "distinct (lefts gs @ rights gs)" "nil s \<notin> set (lefts gs @ rights gs)" "colour s (nil s) = BLACK"
    using z by (simp_all add: zrep_def)
  have f2: "parent s2 = (parent s)(z := y)" "nil s2 = nil s" "colour s2 = colour s" "keeps s s2"
    by (simp_all add: s2_def s1_def)
  have "cx s2 gs z y"
  proof (cases gs rule: lefts.cases)
    case 1
    then show ?thesis using h by (simp add: s2_def s1_def)
  next
    case (2 c a r fs)
    then show ?thesis using h f side by (auto simp: s2_def s1_def)
  next
    case (3 l c a fs)
    then show ?thesis using h f side by (auto simp: s2_def s1_def)
  qed
  then have "cx s5 gs z y" using f by (simp add: s5_def)
  then show "zrep s5 gs (Nd RED Lf z Lf) z y" using h f f2 by (auto simp: zrep_def s5_def)
  show "keeps s s5" using f2(4) by (simp add: s5_def)
qed

lemma holds_blacken: "holds s t \<Longrightarrow> holds (set_colour (root s) BLACK s) (blacken t)"
  by (cases t) (auto simp: holds_def)

lemma rb_insert_ok:
  assumes t: "holds s t" "rok t" "col t = BLACK" "sorted (map (key s) (nodes t))" and z: "z \<notin> set (nodes t)" "z \<noteq> nil s"
  shows "\<exists>s' t'. rb_insert z s = Some s' \<and> holds s' t' \<and> rok t' \<and> col t' = BLACK \<and> keeps s s'
    \<and> nodes t' = takeWhile (\<lambda>a. key s a \<le> key s z) (nodes t) @ z # dropWhile (\<lambda>a. key s a \<le> key s z) (nodes t)"
proof -
  let ?k = "key s z" and ?gs = "place (key s) (key s z) [] t"
  have "zrep s [] t (root s) (nil s)" using t(1) by (simp add: holds_def zrep_def)
  from insert_loop_ok [OF this, of ?k] obtain y where y: "insert_loop s ?k (root s) (nil s) = Some y" "zrep s ?gs Lf (nil s) y"
    by blast
  have fg: "fill ?gs Lf = t" by (simp add: fill_place)
  then have nt: "nodes t = lefts ?gs @ rights ?gs" using nodes_fill [of ?gs Lf] by simp
  have sd: "sided (key s) ?k ?gs" by (rule place_sided) simp
  have rc: "rootc ?gs = BLACK" using col_fill [of ?gs Lf] fg t(3) by (cases "?gs = []") auto
  have ok: "okf ?gs 0" using t(2) fill_ok [of ?gs Lf] fg by simp
  have bt: "(\<forall>a \<in> set (lefts ?gs). key s a \<le> ?k) \<and> (\<forall>a \<in> set (rights ?gs). ?k < key s a)"
    by (rule place_between) (use t(4) in simp_all)
  define s5 where "s5 = set_colour z RED (set_rson z (nil s) (set_lson z (nil s)
    (if y = nil (set_parent z y s) then (set_parent z y s)\<lparr>root := z\<rparr>
     else if key (set_parent z y s) z < key (set_parent z y s) y then set_lson y z (set_parent z y s) else set_rson y z (set_parent z y s))))"
  have h: "zrep s5 ?gs (Nd RED Lf z Lf) z y" "keeps s s5"
    using hang_leaf [OF y(2) _ z(2) sd] z(1) nt unfolding s5_def by auto
  from insert_fixup_loop_ok [OF h(1) _ rc] obtain s6
    where s6: "insert_fixup_loop z s5 = Some s6" "holds s6 (ins_fix ?gs (Nd RED Lf z Lf))" "keeps s5 s6" by auto
  let ?t = "blacken (ins_fix ?gs (Nd RED Lf z Lf))" and ?s = "set_colour (root s6) BLACK s6"
  have "rb_insert z s = Some ?s"
    using y(1) s6(1) unfolding s5_def
    by (cases "y = nil s"; cases "key s z < key s y") (simp_all add: rb_insert_def Let_def rb_insert_fixup_def)
  moreover have "holds ?s ?t" by (rule holds_blacken [OF s6(2)])
  moreover have "rok ?t" by (rule ins_fix_rok) (use ok rc in simp_all)
  moreover have "keeps s ?s" using keeps_trans [OF h(2) s6(3)] by simp
  moreover have "nodes ?t = takeWhile (\<lambda>a. key s a \<le> ?k) (nodes t) @ z # dropWhile (\<lambda>a. key s a \<le> ?k) (nodes t)"
    unfolding nt using split_at_key [of "lefts ?gs" "key s" ?k "rights ?gs"] bt by (simp add: nodes_ins_fix nodes_fill)
  ultimately show ?thesis by (intro exI [of _ ?s] exI [of _ ?t] conjI) simp_all
qed

end
