(* ===== verification/Rbtree_Delete.thy ===== *)
theory Rbtree_Delete
  imports Rbtree_Proofs
begin

text \<open>
  Deletion from the red-black tree: \<open>rb_unlink\<close> carries out \<open>unlink\<close>, the loop of
  \<open>rb_delete_fixup\<close> carries out \<open>del_fix\<close>. The sentinel may be the node under repair, so its parent
  field counts here.
\<close>

section \<open>The node under repair\<close>

definition stands :: "rb \<Rightarrow> frame list \<Rightarrow> rt \<Rightarrow> node \<Rightarrow> node \<Rightarrow> bool" where
  "stands s fs t x p \<longleftrightarrow> zrep s fs t x p \<and> parent s x = p"

lemma stands_zrep: "stands s fs t x p \<Longrightarrow> zrep s fs t x p"
  by (simp add: stands_def)

lemma zrep_stands: "zrep s fs t x p \<Longrightarrow> t \<noteq> Lf \<Longrightarrow> stands s fs t x p"
  using zrep_at by (auto simp: stands_def)

text \<open>The subtree under repair stays what it is when the tree around it changes.\<close>

lemma stands_again:
  assumes "stands s fs t x p" "zrep s' gs t x' p" "keeps s s'" "parent s' (nil s) = parent s (nil s)"
  shows "stands s' gs t x p"
  using assms by (cases t) (auto simp: stands_def zrep_def keeps_def)

lemma zrep_paint_right:
  "zrep s fs (Nd c l a (Nd d bl b br)) x p \<Longrightarrow> zrep (set_colour b e s) fs (Nd c l a (Nd e bl b br)) x p"
  by (auto simp: zrep_def)

lemma zrep_paint_left:
  "zrep s fs (Nd c (Nd d bl b br) a r) x p \<Longrightarrow> zrep (set_colour b e s) fs (Nd c (Nd e bl b br) a r) x p"
  by (auto simp: zrep_def)

lemma zrep_keeps: "keeps s s' \<Longrightarrow> nil s' = nil s"
  by (simp add: keeps_def)

section \<open>A round in two steps\<close>

text \<open>The rotation of a red brother, then the cases of a black brother.\<close>

definition red_left :: "node \<Rightarrow> rb \<Rightarrow> rb" where
  "red_left x s =
     (let w = rson s (parent s x) in
      if colour s w = RED then left_rotate (parent s x) (set_colour (parent s x) RED (set_colour w BLACK s)) else s)"

definition black_left :: "node \<Rightarrow> rb \<Rightarrow> node \<times> rb" where
  "black_left x s =
     (let w = rson s (parent s x) in
      if colour s (lson s w) = BLACK \<and> colour s (rson s w) = BLACK then (parent s x, set_colour w RED s)
      else
        let s' = (if colour s (rson s w) = BLACK then right_rotate w (set_colour w RED (set_colour (lson s w) BLACK s)) else s);
            w' = rson s' (parent s' x);
            s4 = left_rotate (parent s' x) (set_colour (rson s' w') BLACK (set_colour (parent s' x) BLACK
                   (set_colour w' (colour s' (parent s' x)) s')))
        in (root s4, s4))"

definition red_right :: "node \<Rightarrow> rb \<Rightarrow> rb" where
  "red_right x s =
     (let w = lson s (parent s x) in
      if colour s w = RED then right_rotate (parent s x) (set_colour (parent s x) RED (set_colour w BLACK s)) else s)"

definition black_right :: "node \<Rightarrow> rb \<Rightarrow> node \<times> rb" where
  "black_right x s =
     (let w = lson s (parent s x) in
      if colour s (lson s w) = BLACK \<and> colour s (rson s w) = BLACK then (parent s x, set_colour w RED s)
      else
        let s' = (if colour s (lson s w) = BLACK then left_rotate w (set_colour w RED (set_colour (rson s w) BLACK s)) else s);
            w' = lson s' (parent s' x);
            s4 = right_rotate (parent s' x) (set_colour (lson s' w') BLACK (set_colour (parent s' x) BLACK
                   (set_colour w' (colour s' (parent s' x)) s')))
        in (root s4, s4))"

lemma delete_left_split: "delete_left x s = black_left x (red_left x s)"
  unfolding delete_left_def red_left_def black_left_def Let_def
  by (simp split: if_split prod.split)

lemma delete_right_split: "delete_right x s = black_right x (red_right x s)"
  unfolding delete_right_def red_right_def black_right_def Let_def
  by (simp split: if_split prod.split)

section \<open>A red brother\<close>

lemma red_left_ok:
  assumes x: "stands s (FL cp p (Nd cw wl w wr) # fs) t x q" and st: "straighten (FL cp p (Nd cw wl w wr)) fs = (f', fs')"
  shows "stands (red_left x s) (f' # fs') t x p" "keeps s (red_left x s)"
proof -
  have zp: "q = p" "parent s x = p" using x zrep_up_left [OF stands_zrep [OF x]] by (auto simp: stands_def)
  have up: "zrep s fs (Nd cp t p (Nd cw wl w wr)) p (parent s p)" using zrep_up_left [OF stands_zrep [OF x]] by simp
  have w: "rson s p = w" "colour s w = cw" using up by (auto simp: zrep_def)
  have "stands (red_left x s) (f' # fs') t x p \<and> keeps s (red_left x s)"
  proof (cases cw)
    case BLACK
    then show ?thesis using x zp w st by (auto simp: red_left_def Let_def)
  next
    case RED
    let ?s = "set_colour p RED (set_colour w BLACK s)"
    have r: "red_left x s = left_rotate p ?s" using zp w RED by (simp add: red_left_def Let_def)
    have "zrep ?s fs (Nd RED t p (Nd BLACK wl w wr)) p (parent s p)" by (rule zrep_paint, rule zrep_paint_right, rule up)
    note rot = left_rotate_zrep [OF this]
    have k: "keeps s (left_rotate p ?s)" using rot(2) by (auto simp: keeps_def)
    have "zrep (left_rotate p ?s) (FL RED p wl # FL BLACK w wr # fs) t (lson (left_rotate p ?s) p) p"
      using zrep_down_left [OF rot(1)] zrep_down_left by blast
    from stands_again [OF x [unfolded zp(1)] this k] rot(3) k st RED show ?thesis unfolding r by simp
  qed
  then show "stands (red_left x s) (f' # fs') t x p" "keeps s (red_left x s)" by blast+
qed

lemma red_right_ok:
  assumes x: "stands s (FR (Nd cw wl w wr) cp p # fs) t x q" and st: "straighten (FR (Nd cw wl w wr) cp p) fs = (f', fs')"
  shows "stands (red_right x s) (f' # fs') t x p" "keeps s (red_right x s)"
proof -
  have zp: "q = p" "parent s x = p" using x zrep_up_right [OF stands_zrep [OF x]] by (auto simp: stands_def)
  have up: "zrep s fs (Nd cp (Nd cw wl w wr) p t) p (parent s p)" using zrep_up_right [OF stands_zrep [OF x]] by simp
  have w: "lson s p = w" "colour s w = cw" using up by (auto simp: zrep_def)
  have "stands (red_right x s) (f' # fs') t x p \<and> keeps s (red_right x s)"
  proof (cases cw)
    case BLACK
    then show ?thesis using x zp w st by (auto simp: red_right_def Let_def)
  next
    case RED
    let ?s = "set_colour p RED (set_colour w BLACK s)"
    have r: "red_right x s = right_rotate p ?s" using zp w RED by (simp add: red_right_def Let_def)
    have "zrep ?s fs (Nd RED (Nd BLACK wl w wr) p t) p (parent s p)" by (rule zrep_paint, rule zrep_paint_left, rule up)
    note rot = right_rotate_zrep [OF this]
    have k: "keeps s (right_rotate p ?s)" using rot(2) by (auto simp: keeps_def)
    have "zrep (right_rotate p ?s) (FR wr RED p # FR wl BLACK w # fs) t (rson (right_rotate p ?s) p) p"
      using zrep_down_right [OF rot(1)] zrep_down_right by blast
    from stands_again [OF x [unfolded zp(1)] this k] rot(3) k st RED show ?thesis unfolding r by simp
  qed
  then show "stands (red_right x s) (f' # fs') t x p" "keeps s (red_right x s)" by blast+
qed


section \<open>A black brother\<close>

lemma black_left_recolour:
  assumes x: "stands s (FL cp p (Nd cw wl w wr) # fs) t x q" and b: "col wl = BLACK" "col wr = BLACK"
  shows "black_left x s = (p, set_colour w RED s)"
    "stands (set_colour w RED s) fs (Nd cp t p (Nd RED wl w wr)) p (parent s p)"
proof -
  have zp: "q = p" "parent s x = p" using x zrep_up_left [OF stands_zrep [OF x]] by (auto simp: stands_def)
  have up: "zrep s fs (Nd cp t p (Nd cw wl w wr)) p (parent s p)" using zrep_up_left [OF stands_zrep [OF x]] by simp
  have w: "rson s p = w" "tr s wl (lson s w) w" "tr s wr (rson s w) w" "colour s (nil s) = BLACK" using up by (auto simp: zrep_def)
  show "black_left x s = (p, set_colour w RED s)"
    using zp w(1) tr_col [OF w(2,4)] tr_col [OF w(3,4)] b by (simp add: black_left_def Let_def)
  show "stands (set_colour w RED s) fs (Nd cp t p (Nd RED wl w wr)) p (parent s p)"
    by (rule zrep_stands [OF zrep_paint_right [OF up]]) simp
qed

lemma black_right_recolour:
  assumes x: "stands s (FR (Nd cw wl w wr) cp p # fs) t x q" and b: "col wl = BLACK" "col wr = BLACK"
  shows "black_right x s = (p, set_colour w RED s)"
    "stands (set_colour w RED s) fs (Nd cp (Nd RED wl w wr) p t) p (parent s p)"
proof -
  have zp: "q = p" "parent s x = p" using x zrep_up_right [OF stands_zrep [OF x]] by (auto simp: stands_def)
  have up: "zrep s fs (Nd cp (Nd cw wl w wr) p t) p (parent s p)" using zrep_up_right [OF stands_zrep [OF x]] by simp
  have w: "lson s p = w" "tr s wl (lson s w) w" "tr s wr (rson s w) w" "colour s (nil s) = BLACK" using up by (auto simp: zrep_def)
  show "black_right x s = (p, set_colour w RED s)"
    using zp w(1) tr_col [OF w(2,4)] tr_col [OF w(3,4)] b by (simp add: black_right_def Let_def)
  show "stands (set_colour w RED s) fs (Nd cp (Nd RED wl w wr) p t) p (parent s p)"
    by (rule zrep_stands [OF zrep_paint_left [OF up]]) simp
qed

text \<open>The rotation of the parent that ends the repair.\<close>

definition end_left :: "node \<Rightarrow> rb \<Rightarrow> rb" where
  "end_left x s =
     (let w = rson s (parent s x) in
      left_rotate (parent s x) (set_colour (rson s w) BLACK (set_colour (parent s x) BLACK (set_colour w (colour s (parent s x)) s))))"

definition end_right :: "node \<Rightarrow> rb \<Rightarrow> rb" where
  "end_right x s =
     (let w = lson s (parent s x) in
      right_rotate (parent s x) (set_colour (lson s w) BLACK (set_colour (parent s x) BLACK (set_colour w (colour s (parent s x)) s))))"

lemma end_left_ok:
  assumes x: "stands s (FL cp p (Nd cw wl w (Nd cr a v b)) # fs) t x q"
  shows "holds (end_left x s) (fill fs (Nd cp (Nd BLACK t p wl) w (Nd BLACK a v b)))" "keeps s (end_left x s)"
proof -
  let ?s = "set_colour v BLACK (set_colour p BLACK (set_colour w cp s))"
  have zp: "q = p" "parent s x = p" using x zrep_up_left [OF stands_zrep [OF x]] by (auto simp: stands_def)
  have up: "zrep s fs (Nd cp t p (Nd cw wl w (Nd cr a v b))) p (parent s p)" using zrep_up_left [OF stands_zrep [OF x]] by simp
  have w: "rson s p = w" "rson s w = v" "colour s p = cp" using up by (auto simp: zrep_def)
  have e: "end_left x s = left_rotate p ?s" using zp w by (simp add: end_left_def Let_def)
  have "zrep ?s fs (Nd BLACK t p (Nd cp wl w (Nd BLACK a v b))) p (parent s p)" using up by (auto simp: zrep_def)
  note r = left_rotate_zrep [OF this]
  show "holds (end_left x s) (fill fs (Nd cp (Nd BLACK t p wl) w (Nd BLACK a v b)))" unfolding e by (rule zrep_holds [OF r(1)])
  show "keeps s (end_left x s)" unfolding e using r(2) by (auto simp: keeps_def)
qed

lemma end_right_ok:
  assumes x: "stands s (FR (Nd cw (Nd cr a v b) w wr) cp p # fs) t x q"
  shows "holds (end_right x s) (fill fs (Nd cp (Nd BLACK a v b) w (Nd BLACK wr p t)))" "keeps s (end_right x s)"
proof -
  let ?s = "set_colour v BLACK (set_colour p BLACK (set_colour w cp s))"
  have zp: "q = p" "parent s x = p" using x zrep_up_right [OF stands_zrep [OF x]] by (auto simp: stands_def)
  have up: "zrep s fs (Nd cp (Nd cw (Nd cr a v b) w wr) p t) p (parent s p)" using zrep_up_right [OF stands_zrep [OF x]] by simp
  have w: "lson s p = w" "lson s w = v" "colour s p = cp" using up by (auto simp: zrep_def)
  have e: "end_right x s = right_rotate p ?s" using zp w by (simp add: end_right_def Let_def)
  have "zrep ?s fs (Nd BLACK (Nd cp (Nd BLACK a v b) w wr) p t) p (parent s p)" using up by (auto simp: zrep_def)
  note r = right_rotate_zrep [OF this]
  show "holds (end_right x s) (fill fs (Nd cp (Nd BLACK a v b) w (Nd BLACK wr p t)))" unfolding e by (rule zrep_holds [OF r(1)])
  show "keeps s (end_right x s)" unfolding e using r(2) by (auto simp: keeps_def)
qed

text \<open>The rotation of the brother that brings a red inner nephew to the outside.\<close>

lemma inner_left_ok:
  assumes x: "stands s (FL cp p (Nd cw (Nd cn a v b) w wr) # fs) t x q"
  defines "s' \<equiv> right_rotate w (set_colour w RED (set_colour v BLACK s))"
  shows "stands s' (FL cp p (Nd BLACK a v (Nd RED b w wr)) # fs) t x p" "keeps s s'"
proof -
  let ?s = "set_colour w RED (set_colour v BLACK s)"
  have zp: "q = p" "parent s x = p" using x zrep_up_left [OF stands_zrep [OF x]] by (auto simp: stands_def)
  have up: "zrep s fs (Nd cp t p (Nd cw (Nd cn a v b) w wr)) p (parent s p)" using zrep_up_left [OF stands_zrep [OF x]] by simp
  have "zrep s (FR t cp p # fs) (Nd cw (Nd cn a v b) w wr) w p" using zrep_down_right [OF up] zrep_node by blast
  then have "zrep ?s (FR t cp p # fs) (Nd RED (Nd BLACK a v b) w wr) w p" by (intro zrep_paint, rule zrep_paint_left)
  note r = right_rotate_zrep [OF this, folded s'_def]
  show k: "keeps s s'" using r(2) by (auto simp: keeps_def)
  have "zrep s' fs (Nd cp t p (Nd BLACK a v (Nd RED b w wr))) p (parent s' p)" using zrep_up_right [OF r(1)] by simp
  then have "zrep s' (FL cp p (Nd BLACK a v (Nd RED b w wr)) # fs) t (lson s' p) p" using zrep_down_left by blast
  from stands_again [OF x [unfolded zp(1)] this k] r(3)
  show "stands s' (FL cp p (Nd BLACK a v (Nd RED b w wr)) # fs) t x p" by simp
qed

lemma inner_right_ok:
  assumes x: "stands s (FR (Nd cw wl w (Nd cn a v b)) cp p # fs) t x q"
  defines "s' \<equiv> left_rotate w (set_colour w RED (set_colour v BLACK s))"
  shows "stands s' (FR (Nd BLACK (Nd RED wl w a) v b) cp p # fs) t x p" "keeps s s'"
proof -
  let ?s = "set_colour w RED (set_colour v BLACK s)"
  have zp: "q = p" "parent s x = p" using x zrep_up_right [OF stands_zrep [OF x]] by (auto simp: stands_def)
  have up: "zrep s fs (Nd cp (Nd cw wl w (Nd cn a v b)) p t) p (parent s p)" using zrep_up_right [OF stands_zrep [OF x]] by simp
  have "zrep s (FL cp p t # fs) (Nd cw wl w (Nd cn a v b)) w p" using zrep_down_left [OF up] zrep_node by blast
  then have "zrep ?s (FL cp p t # fs) (Nd RED wl w (Nd BLACK a v b)) w p" by (intro zrep_paint, rule zrep_paint_right)
  note r = left_rotate_zrep [OF this, folded s'_def]
  show k: "keeps s s'" using r(2) by (auto simp: keeps_def)
  have "zrep s' fs (Nd cp (Nd BLACK (Nd RED wl w a) v b) p t) p (parent s' p)" using zrep_up_left [OF r(1)] by simp
  then have "zrep s' (FR (Nd BLACK (Nd RED wl w a) v b) cp p # fs) t (rson s' p) p" using zrep_down_right by blast
  from stands_again [OF x [unfolded zp(1)] this k] r(3)
  show "stands s' (FR (Nd BLACK (Nd RED wl w a) v b) cp p # fs) t x p" by simp
qed


text \<open>A round with a black brother does what \<open>sib_step\<close> says.\<close>

definition round_ok :: "rb \<Rightarrow> frame list \<Rightarrow> rt + rt \<Rightarrow> node \<times> rb \<Rightarrow> bool" where
  "round_ok s fs u y \<longleftrightarrow> keeps s (snd y) \<and>
     (case u of Inl v \<Rightarrow> fst y = root (snd y) \<and> holds (snd y) (fill fs v)
      | Inr v \<Rightarrow> stands (snd y) fs v (fst y) (parent (snd y) (fst y)))"

lemma black_left_end:
  assumes x: "stands s (FL cp p (Nd cw wl w wr) # fs) t x q" and b: "\<not> (col wl = BLACK \<and> col wr = BLACK)"
  shows "black_left x s =
    (let s' = (if col wr = BLACK then right_rotate w (set_colour w RED (set_colour (lson s w) BLACK s)) else s)
     in (root (end_left x s'), end_left x s'))"
proof -
  have zp: "parent s x = p" using x zrep_up_left [OF stands_zrep [OF x]] by (auto simp: stands_def)
  have up: "zrep s fs (Nd cp t p (Nd cw wl w wr)) p (parent s p)" using zrep_up_left [OF stands_zrep [OF x]] by simp
  have w: "rson s p = w" "tr s wl (lson s w) w" "tr s wr (rson s w) w" "colour s (nil s) = BLACK" using up by (auto simp: zrep_def)
  show ?thesis unfolding black_left_def end_left_def Let_def zp w(1) tr_col [OF w(2,4)] tr_col [OF w(3,4)] if_not_P [OF b] ..
qed

lemma black_right_end:
  assumes x: "stands s (FR (Nd cw wl w wr) cp p # fs) t x q" and b: "\<not> (col wl = BLACK \<and> col wr = BLACK)"
  shows "black_right x s =
    (let s' = (if col wl = BLACK then left_rotate w (set_colour w RED (set_colour (rson s w) BLACK s)) else s)
     in (root (end_right x s'), end_right x s'))"
proof -
  have zp: "parent s x = p" using x zrep_up_right [OF stands_zrep [OF x]] by (auto simp: stands_def)
  have up: "zrep s fs (Nd cp (Nd cw wl w wr) p t) p (parent s p)" using zrep_up_right [OF stands_zrep [OF x]] by simp
  have w: "lson s p = w" "tr s wl (lson s w) w" "tr s wr (rson s w) w" "colour s (nil s) = BLACK" using up by (auto simp: zrep_def)
  show ?thesis unfolding black_right_def end_right_def Let_def zp w(1) tr_col [OF w(2,4)] tr_col [OF w(3,4)] if_not_P [OF b] ..
qed

lemma black_left_ok:
  assumes x: "stands s (FL cp p (Nd cw wl w wr) # fs) t x q"
  shows "round_ok s fs (sib_step (FL cp p (Nd cw wl w wr)) t) (black_left x s)"
proof (cases "col wl = BLACK \<and> col wr = BLACK")
  case True
  then show ?thesis using black_left_recolour [OF x] by (simp add: round_ok_def)
next
  case False
  note e = black_left_end [OF x False]
  show ?thesis
  proof (cases "col wr = BLACK")
    case True
    then obtain a v b where wl: "wl = Nd RED a v b" using False col_RED_Nd [of wl] by auto
    let ?s = "right_rotate w (set_colour w RED (set_colour v BLACK s))"
    have "lson s w = v" using x by (auto simp: stands_def zrep_def wl)
    then have r: "black_left x s = (root (end_left x ?s), end_left x ?s)" using e True by (simp add: Let_def)
    note i = inner_left_ok [OF x [unfolded wl]]
    show ?thesis unfolding r using end_left_ok [OF i(1)] keeps_trans [OF i(2)] wl True by (simp add: round_ok_def)
  next
    case red: False
    then obtain a v b where wr: "wr = Nd RED a v b" using col_RED_Nd [of wr] by auto
    show ?thesis using end_left_ok [OF x [unfolded wr]] e wr by (simp add: round_ok_def)
  qed
qed

lemma black_right_ok:
  assumes x: "stands s (FR (Nd cw wl w wr) cp p # fs) t x q"
  shows "round_ok s fs (sib_step (FR (Nd cw wl w wr) cp p) t) (black_right x s)"
proof (cases "col wl = BLACK \<and> col wr = BLACK")
  case True
  then show ?thesis using black_right_recolour [OF x] by (simp add: round_ok_def)
next
  case False
  note e = black_right_end [OF x False]
  show ?thesis
  proof (cases "col wl = BLACK")
    case True
    then obtain a v b where wr: "wr = Nd RED a v b" using False col_RED_Nd [of wr] by auto
    let ?s = "left_rotate w (set_colour w RED (set_colour v BLACK s))"
    have "rson s w = v" using x by (auto simp: stands_def zrep_def wr)
    then have r: "black_right x s = (root (end_right x ?s), end_right x ?s)" using e True by (simp add: Let_def)
    note i = inner_right_ok [OF x [unfolded wr]]
    show ?thesis unfolding r using end_right_ok [OF i(1)] keeps_trans [OF i(2)] wr True by (simp add: round_ok_def)
  next
    case red: False
    then obtain a v b where wl: "wl = Nd RED a v b" using col_RED_Nd [of wl] by auto
    show ?thesis using end_right_ok [OF x [unfolded wl]] e wl by (simp add: round_ok_def)
  qed
qed

section \<open>The loop\<close>

lemma cx_root: "cx s fs x p \<Longrightarrow> fs \<noteq> [] \<Longrightarrow> root s \<in> set (lefts fs) \<union> set (rights fs)"
proof (induction fs arbitrary: x p rule: lefts.induct)
  case (2 c a r fs)
  then show ?case by (cases "fs = []") auto
next
  case (3 l c a fs)
  then show ?case by (cases "fs = []") auto
qed simp

lemma zrep_not_root: "zrep s fs t x p \<Longrightarrow> fs \<noteq> [] \<Longrightarrow> x \<noteq> root s"
  using cx_root [of s fs x p] tr_at [of s t x p] by (auto simp: zrep_def)

text \<open>The brother of a place that lacks a black node is a node.\<close>

lemma brother: "okf (FL c p w # fs) (Suc h) \<Longrightarrow> w \<noteq> Lf" "okf (FR w c p # fs) (Suc h) \<Longrightarrow> w \<noteq> Lf"
  by auto

lemma delete_round:
  assumes x: "stands s (f # fs) t x p" and ok: "okf (f # fs) (Suc h)" and st: "straighten f fs = (f', fs')"
  defines "y \<equiv> if x = lson s (parent s x) then delete_left x s else delete_right x s"
  shows "round_ok s fs' (sib_step f' t) y"
proof (cases f)
  case (FL c q w)
  then obtain cw wl v wr where w: "w = Nd cw wl v wr" using brother(1) ok by (cases w) auto
  note f = FL [unfolded w]
  have "lson s (parent s x) = x" using x zrep_left_side f by (auto simp: stands_def)
  then have y: "y = black_left x (red_left x s)" by (simp add: y_def delete_left_split)
  note r = red_left_ok [OF x [unfolded f] st [unfolded f]]
  have "\<exists>c' q' cw' wl' v' wr'. f' = FL c' q' (Nd cw' wl' v' wr')"
    using straighten_ok(3) [OF ok st] st unfolding f by (cases cw; cases wl) auto
  then show ?thesis using black_left_ok [of "red_left x s"] r keeps_trans [OF r(2)] unfolding y
    by (auto simp: round_ok_def)
next
  case (FR w c q)
  then obtain cw wl v wr where w: "w = Nd cw wl v wr" using brother(2) ok by (cases w) auto
  note f = FR [unfolded w]
  have "lson s (parent s x) \<noteq> x" using x zrep_right_side f by (auto simp: stands_def)
  then have y: "y = black_right x (red_right x s)" by (simp add: y_def delete_right_split)
  note r = red_right_ok [OF x [unfolded f] st [unfolded f]]
  have "\<exists>c' q' cw' wl' v' wr'. f' = FR (Nd cw' wl' v' wr') c' q'"
    using straighten_ok(3) [OF ok st] st unfolding f by (cases cw; cases wr) auto
  then show ?thesis using black_right_ok [of "red_right x s"] r keeps_trans [OF r(2)] unfolding y
    by (auto simp: round_ok_def)
qed


lemma delete_stop:
  assumes "zrep s fs t x p" "fs = [] \<or> col t = RED"
  shows "rb_delete_fixup x s = Some (set_colour x BLACK s)" "holds (set_colour x BLACK s) (fill fs (blacken t))"
proof -
  have "x = root s \<or> colour s x = RED" using assms zrep_col [OF assms(1)] by (auto simp: zrep_def)
  then show "rb_delete_fixup x s = Some (set_colour x BLACK s)"
    unfolding rb_delete_fixup_def by (subst delete_fixup_loop.simps) auto
  have "zrep (set_colour x BLACK s) fs (blacken t) x p" using assms(1) by (cases t) (auto simp: zrep_def)
  then show "holds (set_colour x BLACK s) (fill fs (blacken t))" by (rule zrep_holds)
qed

lemma rb_delete_fixup_ok:
  "stands s fs t x p \<Longrightarrow> rok (blacken t) \<Longrightarrow> okf fs (Suc (bh t)) \<Longrightarrow> rootc fs = BLACK
    \<Longrightarrow> \<exists>s'. rb_delete_fixup x s = Some s' \<and> holds s' (del_fix fs t) \<and> keeps s s'"
proof (induction fs t arbitrary: s x p rule: del_fix.induct)
  case (1 t)
  then show ?case using delete_stop [OF stands_zrep [OF 1(1)]] by simp
next
  case (2 f fs t)
  obtain f' fs' where s: "straighten f fs = (f', fs')" by fastforce
  show ?case
  proof (cases "col t = RED")
    case True
    then show ?thesis using delete_stop [OF stands_zrep [OF 2(2)]] by simp
  next
    case False
    define y where "y = (if x = lson s (parent s x) then delete_left x s else delete_right x s)"
    have "x \<noteq> root s" "colour s x = BLACK"
      using zrep_not_root [OF stands_zrep [OF 2(2)]] zrep_col [OF stands_zrep [OF 2(2)]] False by auto
    then have step: "rb_delete_fixup x s = rb_delete_fixup (fst y) (snd y)"
      unfolding rb_delete_fixup_def y_def by (subst delete_fixup_loop.simps) (simp add: Let_def)
    have r: "round_ok s fs' (sib_step f' t) y" using delete_round [OF 2(2,4) s] unfolding y_def .
    note st = straighten_ok [OF 2(4) s]
    have sb: "case sib_step f' t of Inl u \<Rightarrow> rok (fill fs' u) | Inr u \<Rightarrow> rok (blacken u) \<and> okf fs' (Suc (bh u))"
      using sib_step_ok [OF st(1) _ _ st(3)] 2(3) False by (simp add: blacken_black)
    show ?thesis
    proof (cases "sib_step f' t")
      case (Inl u)
      then have h: "fst y = root (snd y)" "holds (snd y) (fill fs' u)" "keeps s (snd y)" using r by (auto simp: round_ok_def)
      have "zrep (snd y) [] (fill fs' u) (fst y) (nil (snd y))" using h by (auto simp: holds_def zrep_def)
      from delete_stop [OF this] h show ?thesis unfolding step using False s Inl by simp
    next
      case (Inr u)
      then have h: "stands (snd y) fs' u (fst y) (parent (snd y) (fst y))" "keeps s (snd y)" using r by (auto simp: round_ok_def)
      have rc: "rootc fs' = BLACK" using st(2) [OF 2(5)] by (cases "fs' = []") auto
      from 2(1) [of u, OF False] s Inr h sb rc
      obtain s' where "rb_delete_fixup (fst y) (snd y) = Some s'" "holds s' (del_fix fs' u)" "keeps (snd y) s'" by fastforce
      then show ?thesis unfolding step using keeps_trans [OF h(2)] False s Inr by auto
    qed
  qed
qed


section \<open>Unlinking\<close>

lemma transplant_sel [simp]:
  "parent (rb_transplant u v s) = (parent s)(v := parent s u)" "colour (rb_transplant u v s) = colour s"
  "nil (rb_transplant u v s) = nil s" "keeps s' (rb_transplant u v s) = keeps s' s"
  "a \<noteq> parent s u \<Longrightarrow> lson (rb_transplant u v s) a = lson s a" "a \<noteq> parent s u \<Longrightarrow> rson (rb_transplant u v s) a = rson s a"
  by (simp_all add: rb_transplant_def Let_def)

lemma transplant_tr:
  "parent s u \<notin> set (nodes t) \<Longrightarrow> v \<notin> set (nodes t) \<Longrightarrow> tr (rb_transplant u v s) t x p = tr s t x p"
  by (simp add: rb_transplant_def Let_def)

text \<open>A new root for a tree: only its parent field changes.\<close>

lemma tr_reparent: "tr s t v q \<Longrightarrow> distinct (nodes t) \<Longrightarrow> nil s \<notin> set (nodes t) \<Longrightarrow> tr (set_parent v p s) t v p"
  by (cases t) auto

lemma transplant_ok:
  assumes c: "cx s fs z p" "parent s z = p" "z \<noteq> nil s" "z \<notin> set (lefts fs @ rights fs)" and t: "tr s t v q"
    and d: "distinct (lefts fs @ nodes t @ rights fs)" "nil s \<notin> set (lefts fs @ nodes t @ rights fs)" "colour s (nil s) = BLACK"
  shows "stands (rb_transplant z v s) fs t v p"
proof -
  have p: "p \<notin> set (nodes t)" using cx_parent [OF c(1)] d by auto
  have v: "v \<notin> set (lefts fs)" "v \<notin> set (rights fs)" using tr_at [OF t] d by auto
  have "cx (relink z v s) fs v p" by (rule relink_cx [OF c(1-3)]) (use c d in auto)
  moreover have "tr (relink z v s) t v q" using t c(2) p by simp
  then have "tr (set_parent v p (relink z v s)) t v p" by (rule tr_reparent) (use d in auto)
  ultimately show ?thesis using d v c(2) by (auto simp: stands_def zrep_def rb_transplant_def Let_def)
qed

lemma zrep_transplant:
  assumes z: "zrep s fs (Nd cz l z r) z p" and t: "tr s t v q" "set (nodes t) \<subseteq> set (nodes l) \<union> set (nodes r)" "distinct (nodes t)"
  shows "stands (rb_transplant z v s) fs t v p"
proof (rule transplant_ok [OF _ _ _ _ t(1)])
  show "cx s fs z p" "parent s z = p" "z \<noteq> nil s" "colour s (nil s) = BLACK" using z by (auto simp: zrep_def)
  show "z \<notin> set (lefts fs @ rights fs)" "distinct (lefts fs @ nodes t @ rights fs)" "nil s \<notin> set (lefts fs @ nodes t @ rights fs)"
    using z t(2,3) by (auto simp: zrep_def)
qed

lemma tree_minimum_ok:
  "zrep s fs t x p \<Longrightarrow> t \<noteq> Lf \<Longrightarrow> split_min fs t = (gs, c, y, r)
    \<Longrightarrow> tree_minimum s x = Some y \<and> zrep s gs (Nd c Lf y r) y (parent s y)"
proof (induction fs t arbitrary: x p rule: split_min.induct)
  case (1 fs c a r)
  then show ?case using zrep_node [OF 1(1)] by (subst tree_minimum.simps) (auto simp: zrep_def)
next
  case (2 fs c l1 l2 l3 l4 a r)
  have x: "x = a" "lson s a \<noteq> nil s" using 2(2) by (auto simp: zrep_def)
  then have "tree_minimum s x = tree_minimum s (lson s a)" by (subst tree_minimum.simps) simp
  then show ?case using 2(1) [of "lson s a" a] zrep_down_left [OF 2(2)] 2(4) by simp
qed simp

text \<open>The successor \<open>y\<close>, with its right subtree \<open>r\<close> in place, takes over from \<open>z\<close>.\<close>

definition take_over :: "node \<Rightarrow> node \<Rightarrow> rb \<Rightarrow> rb" where
  "take_over z y s =
     (let s2 = rb_transplant z y s;
          s3 = set_lson y (lson s2 z) s2;
          s4 = set_parent (lson s3 y) y s3
      in set_colour y (colour s4 z) s4)"

lemma take_over_ok:
  assumes c: "cx s fs z p" "parent s z = p" "z \<noteq> nil s" "colour s z = cz" and l: "tr s l (lson s z) z" "l \<noteq> Lf"
    and r: "tr s r (rson s y) y" and d: "distinct (lefts fs @ (nodes l @ z # y # nodes r) @ rights fs)"
      "nil s \<notin> set (lefts fs @ (nodes l @ z # y # nodes r) @ rights fs)" "colour s (nil s) = BLACK"
  shows "zrep (take_over z y s) fs (Nd cz l y r) y p" "keeps s (take_over z y s)"
    "parent (take_over z y s) (nil s) = parent s (nil s)"
proof -
  let ?s = "rb_transplant z y s"
  have p: "p \<notin> set (nodes l @ z # y # nodes r)" using cx_parent [OF c(1)] d by auto
  define v where "v = lson s z"
  have v: "v \<noteq> nil s" "v \<in> set (nodes l)" using tr_at [OF l(1)] l(2) by (auto simp: v_def)
  have vn: "v \<notin> set (nodes r)" "v \<noteq> y" "v \<notin> set (lefts fs)" "v \<notin> set (rights fs)" "v \<noteq> z" using v d by auto
  have e: "take_over z y s = set_colour y cz (set_parent v y (set_lson y v ?s))"
    using c(2,4) p v vn d by (auto simp: take_over_def Let_def v_def)
  have "cx (relink z y s) fs y p" by (rule relink_cx [OF c(1-3)]) (use d in auto)
  then have C: "cx ?s fs y p" using d by (simp add: rb_transplant_def Let_def)
  have L: "tr (set_parent v y (set_lson y v ?s)) l v y"
    by (rule tr_reparent [of _ _ _ z]) (use l(1) c(2) p d in \<open>auto simp: transplant_tr v_def\<close>)
  have R: "tr ?s r (rson s y) y" using r c(2) p d by (simp add: transplant_tr)
  have rs: "rson ?s y = rson s y" using c(2) p by simp
  have "tr (take_over z y s) (Nd cz l y r) y p" unfolding e using L R rs d v vn c(2) by auto
  moreover have "cx (take_over z y s) fs y p" unfolding e using C d vn by simp
  ultimately show "zrep (take_over z y s) fs (Nd cz l y r) y p" using d v unfolding zrep_def e by auto
  show "keeps s (take_over z y s)" unfolding e by simp
  show "parent (take_over z y s) (nil s) = parent s (nil s)" unfolding e using v d by auto
qed


lemma zrep_ups: "zrep s (ds @ fs) t x p \<Longrightarrow> \<exists>x' p'. zrep s fs (fill ds t) x' p'"
proof (induction ds arbitrary: t x p)
  case (Cons f ds)
  then show ?case by (cases f) (fastforce dest: zrep_up_left zrep_up_right)+
qed auto

lemma zrep_downs: "zrep s fs (fill ds t) x p \<Longrightarrow> \<exists>x' p'. zrep s (ds @ fs) t x' p'"
proof (induction ds arbitrary: t)
  case (Cons f ds)
  from Cons(1) [of "up f t"] Cons(2) obtain x' p' where "zrep s (ds @ fs) (up f t) x' p'" by auto
  then show ?case by (cases f) (fastforce dest: zrep_down_left zrep_down_right)+
qed auto

fun fnode :: "frame \<Rightarrow> node" where
  "fnode (FL c a r) = a"
| "fnode (FR l c a) = a"

lemma zrep_fnode: "zrep s (f # fs) t x p \<Longrightarrow> p = fnode f"
  by (cases f) (auto simp: zrep_def)

lemma fill_not_Lf: "t \<noteq> Lf \<or> fs \<noteq> [] \<Longrightarrow> fill fs t \<noteq> Lf"
proof (induction fs arbitrary: t)
  case (Cons f fs)
  then show ?case by (cases f) auto
qed simp

text \<open>The successor is the right son itself.\<close>

lemma unlink_near:
  assumes z: "zrep s fs (Nd cz l z (Nd cy Lf y yr)) z p" "l \<noteq> Lf"
  defines "x \<equiv> rson s y"
  defines "s' \<equiv> take_over z y (set_parent x y s)"
  shows "stands s' (FR l cz y # fs) yr x (parent s' x)" "keeps s s'"
proof -
  let ?s = "set_parent x y s"
  have h: "cx s fs z p" "parent s z = p" "z \<noteq> nil s" "colour s z = cz" "tr s l (lson s z) z" "tr s yr x y" "y \<noteq> nil s"
    "colour s (nil s) = BLACK" using z by (auto simp: zrep_def x_def)
  have d: "distinct (lefts fs @ (nodes l @ z # y # nodes yr) @ rights fs)"
    "nil s \<notin> set (lefts fs @ (nodes l @ z # y # nodes yr) @ rights fs)" using z by (auto simp: zrep_def)
  have xx: "x = nil s \<or> x \<in> set (nodes yr)" using tr_at [OF h(6)] by auto
  have xn: "x \<notin> set (lefts fs)" "x \<notin> set (rights fs)" "x \<notin> set (nodes l)" "x \<noteq> z" using xx d by auto
  have yr: "tr ?s yr (rson ?s y) y" using tr_reparent [OF h(6)] d by (auto simp: x_def)
  have t: "zrep s' fs (Nd cz l y yr) y p" "keeps ?s s'" "parent s' (nil ?s) = parent ?s (nil ?s)"
    unfolding s'_def by (rule take_over_ok [where r = yr and cz = cz, OF _ _ _ _ _ z(2) yr]; use h d xn in auto)+
  show "keeps s s'" using t(2) by (simp add: keeps_def)
  have dn: "zrep s' (FR l cz y # fs) yr (rson s' y) y" using zrep_down_right [OF t(1)] by simp
  have x': "rson s' y = x" using dn h(6) t(2) by (cases yr) (auto simp: zrep_def keeps_def)
  have "parent s' x = y"
  proof (cases "yr = Lf")
    case True
    then show ?thesis using t(3) h(6) by simp
  next
    case False
    then show ?thesis using zrep_at [OF dn] x' by simp
  qed
  then show "stands s' (FR l cz y # fs) yr x (parent s' x)" using dn x' by (simp add: stands_def)
qed


text \<open>The successor lies deeper: it is first replaced by its right son.\<close>

lemma unlink_far:
  assumes z: "zrep s (d @ FR l cz z # fs) (Nd cy Lf y yr) y py" and ne: "l \<noteq> Lf" "d \<noteq> []"
  defines "x \<equiv> rson s y"
  defines "s1 \<equiv> rb_transplant y x s"
  defines "s3 \<equiv> set_parent (rson s1 z) y (set_rson y (rson s1 z) s1)"
  defines "s' \<equiv> take_over z y s3"
  shows "stands s' (d @ FR l cz y # fs) yr x (parent s' x)" "keeps s s'"
proof -
  have "tr s yr x y" using z by (auto simp: zrep_def x_def)
  then have x: "stands s1 (d @ FR l cz z # fs) yr x py"
    unfolding s1_def by (rule zrep_transplant [OF z]) (use z in \<open>auto simp: zrep_def\<close>)
  let ?r = "fill d yr"
  define v where "v = rson s1 z"
  have up: "zrep s1 fs (Nd cz l z ?r) z (parent s1 z)"
    using zrep_ups [OF stands_zrep [OF x]] zrep_up_right by blast
  then have h: "cx s1 fs z (parent s1 z)" "z \<noteq> nil s" "colour s1 z = cz" "tr s1 l (lson s1 z) z" "tr s1 ?r v z"
    "colour s1 (nil s) = BLACK" "nil s1 = nil s" by (auto simp: zrep_def v_def s1_def)
  have nd: "set (nodes ?r) = set (lefts d) \<union> set (nodes yr) \<union> set (rights d)" by (auto simp: nodes_fill)
  have y: "y \<notin> set (nodes ?r)" "y \<notin> set (nodes l)" "y \<noteq> z" "y \<notin> set (lefts fs)" "y \<notin> set (rights fs)" "y \<noteq> nil s"
    using z unfolding nd by (auto simp: zrep_def)
  have ds: "distinct (lefts fs @ (nodes l @ z # y # nodes ?r) @ rights fs)"
    "nil s \<notin> set (lefts fs @ (nodes l @ z # y # nodes ?r) @ rights fs)" using up y h(7) by (auto simp: zrep_def)
  have rn: "?r \<noteq> Lf" using fill_not_Lf ne(2) by blast
  have v: "v \<noteq> nil s" "v \<in> set (nodes ?r)" using tr_at [OF h(5)] rn h(7) by auto
  have vn: "v \<notin> set (lefts fs)" "v \<notin> set (rights fs)" "v \<notin> set (nodes l)" "v \<noteq> z" using v ds by auto
  have s3: "s3 = set_parent v y (set_rson y v s1)" by (simp add: s3_def v_def)
  have "tr (set_rson y v s1) ?r v z" using h(5) y(1) by simp
  then have r3: "tr s3 ?r (rson s3 y) y" unfolding s3 using tr_reparent [of "set_rson y v s1" ?r v z y] ds h(7) by auto
  have t: "zrep s' fs (Nd cz l y ?r) y (parent s1 z)" "keeps s3 s'" "parent s' (nil s3) = parent s3 (nil s3)"
    unfolding s'_def by (rule take_over_ok [where r = ?r and cz = cz, OF _ _ _ _ _ ne(1) r3]; use h ds v vn y in \<open>auto simp: s3\<close>)+
  have n: "nil s3 = nil s" "parent s3 (nil s) = parent s1 (nil s)" using v h(7) by (auto simp: s3)
  show k: "keeps s s'" using t(2) by (simp add: keeps_def s3 s1_def) (simp add: rb_transplant_def relink_def Let_def)
  have "zrep s' (FR l cz y # fs) ?r (rson s' y) y" using zrep_down_right [OF t(1)] by simp
  from zrep_downs [OF this] obtain x' p' where dn: "zrep s' (d @ FR l cz y # fs) yr x' p'" by auto
  obtain f d' where f: "d = f # d'" using ne(2) by (cases d) auto
  have "p' = py" using zrep_fnode [of s' f "d' @ FR l cz y # fs"] zrep_fnode [of s1 f "d' @ FR l cz z # fs"] dn x
    by (auto simp: f stands_def)
  moreover have "nil s' = nil s" using k by (simp add: keeps_def)
  then have "x' = x" using dn x h(7) by (cases yr) (auto simp: zrep_def stands_def)
  moreover have "parent s' x = py"
  proof (cases "yr = Lf")
    case True
    then show ?thesis using t(3) n x h(7) by (auto simp: stands_def zrep_def)
  next
    case False
    then show ?thesis using zrep_at [OF dn] calculation by simp
  qed
  ultimately show "stands s' (d @ FR l cz y # fs) yr x (parent s' x)" using dn by (simp add: stands_def)
qed


lemma rb_unlink_deep:
  assumes z: "zrep s fs (Nd cz l z r) z p" and ne: "l \<noteq> Lf" "r \<noteq> Lf" and m: "split_min [] r = (d, cy, y, yr)"
  shows "\<exists>x s'. rb_unlink z s = Some (x, cy, s') \<and> stands s' (d @ FR l cz y # fs) yr x (parent s' x) \<and> keeps s s'"
proof -
  have dn: "zrep s (FR l cz z # fs) r (rson s z) z" using zrep_down_right [OF z] by simp
  have m': "split_min (FR l cz z # fs) r = (d @ FR l cz z # fs, cy, y, yr)"
    using split_min_append [of "[]" "FR l cz z # fs" r] m by simp
  from tree_minimum_ok [OF dn ne(2) m'] have y: "tree_minimum s (rson s z) = Some y"
    "zrep s (d @ FR l cz z # fs) (Nd cy Lf y yr) y (parent s y)" by auto
  have n: "lson s z \<noteq> nil s" "rson s z \<noteq> nil s" using z ne tr_at [of s l] tr_at [of s r] by (auto simp: zrep_def)
  have cy: "colour s y = cy" using zrep_node [OF y(2)] by simp
  show ?thesis
  proof (cases "d = []")
    case True
    then have "parent s y = z" using zrep_fnode [of s "FR l cz z" fs] y(2) by simp
    then have u: "rb_unlink z s = Some (rson s y, cy, take_over z y (set_parent (rson s y) y s))"
      using n y(1) cy by (simp add: rb_unlink_def take_over_def Let_def)
    have "zrep s fs (Nd cz l z (Nd cy Lf y yr)) z p" using split_min_fill [OF ne(2) m] z True by simp
    from unlink_near [OF this ne(1)] show ?thesis using u True by auto
  next
    case False
    then obtain f d' where f: "d = f # d'" by (cases d) auto
    have "parent s y = fnode f" using zrep_fnode [of s f "d' @ FR l cz z # fs"] y(2) by (simp add: f)
    moreover have "fnode f \<noteq> z" using y(2) by (cases f) (auto simp: zrep_def f)
    ultimately have "parent s y \<noteq> z" by simp
    moreover have "y \<noteq> nil s" "rson (set_rson y v s1) y = v" for v s1 using zrep_node [OF y(2)] by auto
    ultimately have u: "rb_unlink z s = Some (rson s y, cy, take_over z y (set_parent (rson (rb_transplant y (rson s y) s) z) y
        (set_rson y (rson (rb_transplant y (rson s y) s) z) (rb_transplant y (rson s y) s))))"
      using n y(1) cy by (simp add: rb_unlink_def take_over_def Let_def)
    from unlink_far [OF y(2) ne(1) False] show ?thesis using u by blast
  qed
qed

lemma rb_unlink_ok:
  assumes z: "zrep s fs (Nd cz l z r) z p" and u: "unlink fs (Nd cz l z r) = (gs, t, c)"
  shows "\<exists>x s'. rb_unlink z s = Some (x, c, s') \<and> stands s' gs t x (parent s' x) \<and> keeps s s'"
proof -
  have h: "tr s l (lson s z) z" "tr s r (rson s z) z" "distinct (nodes l)" "distinct (nodes r)" "colour s z = cz"
    using z by (auto simp: zrep_def)
  have nl: "lson s z = nil s \<longleftrightarrow> l = Lf" "rson s z = nil s \<longleftrightarrow> r = Lf" using tr_at [OF h(1)] tr_at [OF h(2)] by auto
  consider (1) "l = Lf" | (2) "l \<noteq> Lf" "r = Lf" | (3) "l \<noteq> Lf" "r \<noteq> Lf" by blast
  then show ?thesis
  proof cases
    case 1
    then show ?thesis using u nl h(5) zrep_transplant [OF z h(2) _ h(4)] by (auto simp: rb_unlink_def stands_def)
  next
    case 2
    then show ?thesis using u nl h(5) zrep_transplant [OF z h(1) _ h(3)] by (auto simp: rb_unlink_def stands_def)
  next
    case 3
    obtain d cy y yr where m: "split_min [] r = (d, cy, y, yr)" by (metis prod_cases4)
    then show ?thesis using rb_unlink_deep [OF z 3 m] u 3 by auto
  qed
qed

section \<open>Deletion\<close>

lemma node_place: "z \<in> set (nodes t) \<Longrightarrow> \<exists>fs c l r. t = fill fs (Nd c l z r)"
proof (induction t)
  case (Nd c l a r)
  have "Nd c l a r = fill [] (Nd c l a r)" "Nd c (fill fs u) a r = fill (fs @ [FL c a r]) u" "Nd c l a (fill fs u) = fill (fs @ [FR l c a]) u"
    for fs u by simp_all
  then show ?case using Nd by (metis Un_iff nodes.simps(2) set_ConsD set_append)
qed simp

lemma rb_delete_ok:
  assumes t: "holds s t" "rok t" "col t = BLACK" and z: "z \<in> set (nodes t)"
  shows "\<exists>s' t'. rb_delete z s = Some s' \<and> holds s' t' \<and> rok t' \<and> col t' = BLACK \<and> keeps s s' \<and> nodes t' = remove1 z (nodes t)"
proof -
  obtain fs cz l r where f: "t = fill fs (Nd cz l z r)" using node_place [OF z] by blast
  from t(1) obtain x0 p where zr: "zrep s fs (Nd cz l z r) z p" unfolding f holds_zrep using zrep_node by blast
  obtain gs x c where u: "unlink fs (Nd cz l z r) = (gs, x, c)" by (metis prod_cases3)
  note k = unlink_ok [OF t(2,3) [unfolded f] u]
  from rb_unlink_ok [OF zr u] obtain y s1 where r: "rb_unlink z s = Some (y, c, s1)" "stands s1 gs x y (parent s1 y)" "keeps s s1"
    by blast
  have "distinct (nodes t)" using t(1) by (simp add: holds_def)
  then have rm: "remove1 z (nodes t) = lefts fs @ nodes l @ nodes r @ rights fs" unfolding f nodes_fill
    by (auto simp: remove1_append)
  have "\<exists>s'. rb_delete z s = Some s' \<and> holds s' (abs_delete fs (Nd cz l z r)) \<and> keeps s s'"
  proof (cases c)
    case BLACK
    have "rok (blacken x)" using k(1) by simp
    from rb_delete_fixup_ok [OF r(2) this k(2) [OF BLACK] k(4)] show ?thesis
      using r(1) BLACK u keeps_trans [OF r(3)] by (auto simp: rb_delete_def abs_delete_def)
  next
    case RED
    then show ?thesis using r zrep_holds [OF stands_zrep [OF r(2)]] u by (simp add: rb_delete_def abs_delete_def)
  qed
  then show ?thesis using abs_delete_ok [OF t(2,3) [unfolded f]] rm by auto
qed

end
