(* ===== verification/Rbtree_Spec.thy ===== *)
theory Rbtree_Spec
  imports Rbtree_Delete "HOL-Library.Multiset"
begin

text \<open>
  What the red-black tree promises: it represents a sequence of nodes sorted by key, its shape stays
  balanced, and its operations are those of an ordered queue. The locale \<open>ordered_queue\<close> is the
  interface the timers use; it is interpreted on the operations of \<open>Rbtree\<close>.
\<close>

section \<open>The interface\<close>

text \<open>A node enters the sequence behind the nodes whose keys are not greater.\<close>

fun enter :: "('n \<Rightarrow> 64 word) \<Rightarrow> 'n \<Rightarrow> 'n list \<Rightarrow> 'n list" where
  "enter ky z [] = [z]"
| "enter ky z (x # xs) = (if ky x \<le> ky z then x # enter ky z xs else z # x # xs)"

lemma enter_split: "enter ky z xs = takeWhile (\<lambda>a. ky a \<le> ky z) xs @ z # dropWhile (\<lambda>a. ky a \<le> ky z) xs"
  by (induction xs) auto

lemma set_enter [simp]: "set (enter ky z xs) = insert z (set xs)"
  by (induction xs) auto

lemma distinct_enter [simp]: "distinct (enter ky z xs) \<longleftrightarrow> z \<notin> set xs \<and> distinct xs"
  by (induction xs) auto

lemma remove1_enter [simp]: "z \<notin> set xs \<Longrightarrow> remove1 z (enter ky z xs) = xs"
  by (induction xs) auto

lemma sorted_enter: "sorted (map ky xs) \<Longrightarrow> sorted (map ky (enter ky z xs))"
proof (induction xs)
  case (Cons x xs)
  show ?case
  proof (cases "ky x \<le> ky z")
    case True
    then show ?thesis using Cons by auto
  next
    case False
    then have "ky z \<le> ky x" by (simp add: linorder_not_le less_imp_le)
    moreover have "\<forall>y \<in> set xs. ky x \<le> ky y" using Cons(2) by simp
    ultimately have "\<forall>y \<in> set (x # xs). ky z \<le> ky y" using order_trans [of "ky z" "ky x"] by simp
    then show ?thesis using False Cons(2) by simp
  qed
qed simp

locale ordered_queue =
  fixes repr :: "'s \<Rightarrow> 'n list \<Rightarrow> bool" and keyof :: "'s \<Rightarrow> 'n \<Rightarrow> 64 word" and none :: "'s \<Rightarrow> 'n"
    and add :: "'n \<Rightarrow> 's \<Rightarrow> 's option" and remove :: "'n \<Rightarrow> 's \<Rightarrow> 's option" and first :: "'s \<Rightarrow> 'n option"
  assumes repr_sound: "repr s xs \<Longrightarrow> distinct xs \<and> none s \<notin> set xs \<and> sorted (map (keyof s) xs)"
    and first_law: "repr s xs \<Longrightarrow> first s = Some (case xs of [] \<Rightarrow> none s | x # _ \<Rightarrow> x)"
    and add_law: "repr s xs \<Longrightarrow> z \<notin> set xs \<Longrightarrow> z \<noteq> none s
      \<Longrightarrow> \<exists>s'. add z s = Some s' \<and> repr s' (enter (keyof s) z xs) \<and> keyof s' = keyof s \<and> none s' = none s"
    and remove_law: "repr s xs \<Longrightarrow> z \<in> set xs
      \<Longrightarrow> \<exists>s'. remove z s = Some s' \<and> repr s' (remove1 z xs) \<and> keyof s' = keyof s \<and> none s' = none s"
begin

lemma repr_unique: "repr s xs \<Longrightarrow> repr s ys \<Longrightarrow> xs = [] \<longleftrightarrow> ys = []"
  using first_law [of s xs] first_law [of s ys] repr_sound [of s xs] repr_sound [of s ys] by (auto split: list.splits)

lemma first_least: "repr s (x # xs) \<Longrightarrow> y \<in> set (x # xs) \<Longrightarrow> first s = Some x \<and> keyof s x \<le> keyof s y"
  using first_law [of s "x # xs"] repr_sound [of s "x # xs"] by auto

lemma add_remove:
  assumes "repr s xs" "z \<notin> set xs" "z \<noteq> none s"
  shows "\<exists>s1 s2. add z s = Some s1 \<and> remove z s1 = Some s2 \<and> repr s2 xs"
proof -
  from add_law [OF assms] obtain s1 where a: "add z s = Some s1" "repr s1 (enter (keyof s) z xs)" by blast
  from remove_law [OF a(2), of z] obtain s2 where "remove z s1 = Some s2" "repr s2 (remove1 z (enter (keyof s) z xs))" by auto
  then show ?thesis using a(1) assms(2) by auto
qed

text \<open>Removing the first node leaves the rest.\<close>

lemma pop_law: "repr s (x # xs) \<Longrightarrow> \<exists>s'. remove x s = Some s' \<and> repr s' xs \<and> keyof s' = keyof s \<and> none s' = none s"
  using remove_law [of s "x # xs" x] by auto

end

section \<open>Search, minimum and traversal\<close>

lemma tree_minimum_node_ok:
  assumes "holds s t"
  shows "tree_minimum_node s = Some (case nodes t of [] \<Rightarrow> nil s | x # _ \<Rightarrow> x)"
proof (cases "t = Lf")
  case True
  then show ?thesis using assms by (simp add: holds_def tree_minimum_node_def)
next
  case False
  obtain gs c y r where m: "split_min [] t = (gs, c, y, r)" by (metis prod_cases4)
  have z: "zrep s [] t (root s) (nil s)" using assms by (simp add: holds_def zrep_def)
  have n: "nodes t = y # nodes r @ rights gs"
    using split_min_fill [OF False m] split_min_lefts [OF m] nodes_fill [of gs "Nd c Lf y r"] by simp
  have "root s \<noteq> nil s" using zrep_at [OF z False] by simp
  then show ?thesis using tree_minimum_ok [OF z False m] n by (simp add: tree_minimum_node_def)
qed

lemma search_left:
  assumes "sorted (map ky (xs @ a # ys))" "(k :: 64 word) < ky a"
  shows "k \<notin> ky ` set (a # ys)"
proof -
  have "\<forall>y \<in> set ys. ky a \<le> ky y" using assms(1) by (simp add: sorted_append)
  then have "\<forall>y \<in> set (a # ys). k < ky y" using assms(2) less_le_trans [OF assms(2)] by simp
  then show ?thesis by auto
qed

lemma search_right:
  assumes "sorted (map ky (xs @ a # ys))" "ky a < (k :: 64 word)"
  shows "k \<notin> ky ` set (xs @ [a])"
proof -
  have "\<forall>x \<in> set xs. ky x \<le> ky a" using assms(1) by (simp add: sorted_append)
  then have "\<forall>x \<in> set (xs @ [a]). ky x < k" using assms(2) le_less_trans [OF _ assms(2)] by simp
  then show ?thesis by auto
qed

lemma rb_search_loop_ok:
  "tr s t x p \<Longrightarrow> sorted (map (key s) (nodes t))
    \<Longrightarrow> \<exists>z. rb_search_loop s k x = Some z
      \<and> (if k \<in> key s ` set (nodes t) then z \<in> set (nodes t) \<and> key s z = k else z = nil s)"
proof (induction t arbitrary: x p)
  case Lf
  then show ?case by (subst rb_search_loop.simps) simp
next
  case (Nd c l a r)
  have h: "x = a" "a \<noteq> nil s" "tr s l (lson s a) a" "tr s r (rson s a) a" using Nd(3) by auto
  have so: "sorted (map (key s) (nodes l))" "sorted (map (key s) (nodes r))" "sorted (map (key s) (nodes l @ a # nodes r))"
    using Nd(4) by (auto simp: sorted_append)
  consider "k = key s a" | "k < key s a" | "key s a < k" by fastforce
  then show ?case
  proof cases
    case 1
    then show ?thesis using h by (subst rb_search_loop.simps) simp
  next
    case 2
    then have "rb_search_loop s k x = rb_search_loop s k (lson s a)" using h by (subst rb_search_loop.simps) auto
    moreover have m: "k \<in> key s ` set (nodes (Nd c l a r)) \<longleftrightarrow> k \<in> key s ` set (nodes l)" using search_left [OF so(3) 2] by auto
    ultimately show ?thesis unfolding m using Nd(1) [OF h(3) so(1)] by (cases "k \<in> key s ` set (nodes l)") auto
  next
    case 3
    then have "rb_search_loop s k x = rb_search_loop s k (rson s a)" using h
      by (subst rb_search_loop.simps) (auto dest: less_asym)
    moreover have m: "k \<in> key s ` set (nodes (Nd c l a r)) \<longleftrightarrow> k \<in> key s ` set (nodes r)" using search_right [OF so(3) 3] by auto
    ultimately show ?thesis unfolding m using Nd(2) [OF h(4) so(2)] by (cases "k \<in> key s ` set (nodes r)") auto
  qed
qed

section \<open>Balance\<close>

fun height :: "rt \<Rightarrow> nat" where
  "height Lf = 0"
| "height (Nd c l a r) = Suc (max (height l) (height r))"

lemma bh_nodes: "rok t \<Longrightarrow> 2 ^ bh t \<le> Suc (length (nodes t))"
proof (induction t)
  case (Nd c l a r)
  then have "2 ^ bh l \<le> Suc (length (nodes l))" "2 ^ bh l \<le> Suc (length (nodes r))" by simp_all
  then show ?case by auto
qed simp

lemma height_bh: "rok t \<Longrightarrow> height t \<le> 2 * bh t + (if col t = RED then 1 else 0)"
proof (induction t)
  case (Nd c l a r)
  then show ?case by (cases c) (auto split: if_splits)
qed simp

lemma height_log:
  assumes "rok t" "col t = BLACK"
  shows "2 ^ height t \<le> (Suc (length (nodes t))) ^ 2"
proof -
  have "2 ^ height t \<le> (2 :: nat) ^ (2 * bh t)" using height_bh [OF assms(1)] assms(2) by (intro power_increasing) auto
  also have "\<dots> = (2 ^ bh t) ^ 2" by (simp add: power_mult mult.commute)
  also have "\<dots> \<le> (Suc (length (nodes t))) ^ 2" using bh_nodes [OF assms(1)] by (intro power_mono) auto
  finally show ?thesis .
qed


section \<open>The invariant\<close>

text \<open>
  The store holds a red-black tree with a black root whose nodes, from left to right, are \<open>xs\<close>, in the
  order of their keys.
\<close>

definition rb_inv :: "rb \<Rightarrow> node list \<Rightarrow> bool" where
  "rb_inv s xs \<longleftrightarrow> (\<exists>t. holds s t \<and> rok t \<and> col t = BLACK \<and> nodes t = xs) \<and> sorted (map (key s) xs)"

lemma rb_inv_sound: "rb_inv s xs \<Longrightarrow> distinct xs \<and> nil s \<notin> set xs \<and> sorted (map (key s) xs)"
  by (auto simp: rb_inv_def holds_def)

lemma rb_inv_new: "rb_inv (pure_rbtree n heap) []"
  unfolding rb_inv_def by (auto intro!: exI [of _ Lf] simp: holds_def pure_rbtree_def)

lemma rb_inv_first: "rb_inv s xs \<Longrightarrow> tree_minimum_node s = Some (case xs of [] \<Rightarrow> nil s | x # _ \<Rightarrow> x)"
  using tree_minimum_node_ok by (auto simp: rb_inv_def)

lemma rb_inv_insert:
  assumes "rb_inv s xs" "z \<notin> set xs" "z \<noteq> nil s"
  shows "\<exists>s'. rb_insert z s = Some s' \<and> rb_inv s' (enter (key s) z xs) \<and> keeps s s'"
proof -
  from assms(1) obtain t where t: "holds s t" "rok t" "col t = BLACK" "nodes t = xs" "sorted (map (key s) xs)"
    by (auto simp: rb_inv_def)
  from rb_insert_ok [OF t(1-3) _ _ assms(3)] t(4,5) assms(2) obtain s' t' where
    s: "rb_insert z s = Some s'" "holds s' t'" "rok t'" "col t' = BLACK" "keeps s s'" "nodes t' = enter (key s) z xs"
    by (auto simp: enter_split)
  then have "rb_inv s' (enter (key s) z xs)"
    unfolding rb_inv_def using sorted_enter [OF t(5)] by (auto simp: keeps_def)
  then show ?thesis using s(1,5) by blast
qed

lemma sorted_remove1: "sorted (map ky xs) \<Longrightarrow> sorted (map ky (remove1 z xs))"
  by (induction xs) (auto dest: notin_set_remove1 [rotated] intro: subsetD [OF set_remove1_subset])

lemma rb_inv_delete:
  assumes "rb_inv s xs" "z \<in> set xs"
  shows "\<exists>s'. rb_delete z s = Some s' \<and> rb_inv s' (remove1 z xs) \<and> keeps s s'"
proof -
  from assms(1) obtain t where t: "holds s t" "rok t" "col t = BLACK" "nodes t = xs" "sorted (map (key s) xs)"
    by (auto simp: rb_inv_def)
  from rb_delete_ok [OF t(1-3), of z] t(4) assms(2) obtain s' t' where
    s: "rb_delete z s = Some s'" "holds s' t'" "rok t'" "col t' = BLACK" "keeps s s'" "nodes t' = remove1 z xs" by auto
  then have "rb_inv s' (remove1 z xs)"
    unfolding rb_inv_def using sorted_remove1 [OF t(5)] by (auto simp: keeps_def)
  then show ?thesis using s(1,5) by blast
qed

lemma rb_inv_search:
  "rb_inv s xs \<Longrightarrow> \<exists>z. rb_search k s = Some z \<and> (if k \<in> key s ` set xs then z \<in> set xs \<and> key s z = k else z = nil s)"
  unfolding rb_inv_def holds_def rb_search_def using rb_search_loop_ok by blast

interpretation rbq: ordered_queue rb_inv key nil rb_insert rb_delete tree_minimum_node
  by unfold_locales (use rb_inv_sound rb_inv_first rb_inv_insert rb_inv_delete in \<open>fastforce simp: keeps_def\<close>)+

text \<open>Nodes outside the tree may be written.\<close>

lemma rb_inv_outside:
  assumes "rb_inv s xs" "z \<notin> set xs" "z \<noteq> nil s"
    "\<And>a. a \<noteq> z \<Longrightarrow> parent s' a = parent s a \<and> lson s' a = lson s a \<and> rson s' a = rson s a \<and> colour s' a = colour s a \<and> key s' a = key s a"
    "nil s' = nil s" "root s' = root s"
  shows "rb_inv s' xs"
proof -
  from assms(1) obtain t where t: "holds s t" "rok t" "col t = BLACK" "nodes t = xs" "sorted (map (key s) xs)"
    by (auto simp: rb_inv_def)
  have "tr s' t x p = tr s t x p" for x p by (rule tr_cong) (use assms t in metis)+
  then have "holds s' t" using t(1) assms(3-6) by (simp add: holds_def)
  moreover have "map (key s') xs = map (key s) xs" using assms(2,4) by (metis map_cong)
  ultimately show ?thesis using t(2-5) unfolding rb_inv_def by metis
qed


section \<open>Releasing the tree\<close>

fun postorder :: "rt \<Rightarrow> node list" where
  "postorder Lf = []"
| "postorder (Nd c l a r) = postorder l @ postorder r @ [a]"

lemma mset_postorder: "mset (postorder t) = mset (nodes t)"
  by (induction t) auto

definition emit :: "node list \<Rightarrow> (node list \<times> rb) option \<Rightarrow> (node list \<times> rb) option" where
  "emit xs q = map_option (\<lambda>(ys, s). (xs @ ys, s)) q"

lemma emit_simps [simp]: "emit [] q = q" "emit xs (emit ys q) = emit (xs @ ys) q" "emit xs (Some (ys, s)) = Some (xs @ ys, s)"
  by (cases q; auto simp: emit_def)+

lemma zrep_same_parent: "zrep s fs t x p \<Longrightarrow> zrep s' fs u y q \<Longrightarrow> nil s' = nil s \<Longrightarrow> p = q"
  by (cases fs rule: lefts.cases) (auto simp: zrep_def)

text \<open>Below a parent, the loop releases a subtree in post-order and goes on at the parent.\<close>

lemma destroy_step:
  assumes "x \<noteq> nil s" "lson s x = nil s" "rson s x = nil s" "parent s x = p"
  shows "rb_destroy_loop x s = emit [x] (rb_destroy_loop p (if x = lson s p then set_lson p (nil s) s else set_rson p (nil s) s))"
proof -
  let ?q = "rb_destroy_loop p (if x = lson s p then set_lson p (nil s) s else set_rson p (nil s) s)"
  have "rb_destroy_loop x s = Option.bind ?q (\<lambda>r. Some (x # fst r, snd r))"
    by (subst rb_destroy_loop.simps) (simp only: assms simp_thms if_True if_False)
  then show ?thesis by (cases ?q) (auto simp: emit_def)
qed

lemma destroy_leaf:
  assumes z: "zrep s (f # fs) (Nd c Lf a Lf) x p"
  shows "\<exists>s'. zrep s' (f # fs) Lf (nil s) p \<and> nil s' = nil s \<and> rb_destroy_loop x s = emit [a] (rb_destroy_loop p s')"
proof -
  let ?s = "if x = lson s p then set_lson p (nil s) s else set_rson p (nil s) s"
  have h: "x = a" "a \<noteq> nil s" "parent s a = p" "lson s a = nil s" "rson s a = nil s" using z by (auto simp: zrep_def)
  have "zrep ?s (f # fs) Lf (nil s) p"
  proof (cases f)
    case (FL c' b r)
    then show ?thesis using z by (auto simp: zrep_def)
  next
    case (FR l c' b)
    then have "lson s p \<noteq> x" using zrep_right_side z by blast
    then show ?thesis using z FR by (auto simp: zrep_def)
  qed
  then show ?thesis using destroy_step [of a s p] h by auto
qed

lemma destroy_left:
  assumes z: "zrep s fs (Nd c l a r) x p" "l \<noteq> Lf"
    and ih: "\<exists>s'. zrep s' (FL c a r # fs) Lf (nil s) a \<and> nil s' = nil s
      \<and> rb_destroy_loop (lson s a) s = emit (postorder l) (rb_destroy_loop a s')"
  shows "\<exists>s'. zrep s' fs (Nd c Lf a r) a p \<and> nil s' = nil s \<and> rb_destroy_loop x s = emit (postorder l) (rb_destroy_loop a s')"
proof -
  have h: "x = a" "a \<noteq> nil s" "lson s a \<noteq> nil s" using z tr_at [of s l "lson s a" a] by (auto simp: zrep_def)
  then have "rb_destroy_loop x s = rb_destroy_loop (lson s a) s" by (subst rb_destroy_loop.simps) simp
  then show ?thesis using ih zrep_up_left zrep_same_parent [OF z(1)] by metis
qed

lemma destroy_right:
  assumes z: "zrep s fs (Nd c Lf a r) x p" "r \<noteq> Lf"
    and ih: "\<exists>s'. zrep s' (FR Lf c a # fs) Lf (nil s) a \<and> nil s' = nil s
      \<and> rb_destroy_loop (rson s a) s = emit (postorder r) (rb_destroy_loop a s')"
  shows "\<exists>s'. zrep s' fs (Nd c Lf a Lf) a p \<and> nil s' = nil s \<and> rb_destroy_loop x s = emit (postorder r) (rb_destroy_loop a s')"
proof -
  have h: "x = a" "a \<noteq> nil s" "lson s a = nil s" "rson s a \<noteq> nil s" using z tr_at [of s r "rson s a" a] by (auto simp: zrep_def)
  then have "rb_destroy_loop x s = rb_destroy_loop (rson s a) s" by (subst rb_destroy_loop.simps) simp
  then show ?thesis using ih zrep_up_right zrep_same_parent [OF z(1)] by metis
qed

text \<open>Both sons of a node are released before the node.\<close>

lemma destroy_sons:
  assumes z: "zrep s fs (Nd c l a r) x p"
    and l: "\<And>s f fs x p. zrep s (f # fs) l x p \<Longrightarrow> l \<noteq> Lf
      \<Longrightarrow> \<exists>s'. zrep s' (f # fs) Lf (nil s) p \<and> nil s' = nil s \<and> rb_destroy_loop x s = emit (postorder l) (rb_destroy_loop p s')"
    and r: "\<And>s f fs x p. zrep s (f # fs) r x p \<Longrightarrow> r \<noteq> Lf
      \<Longrightarrow> \<exists>s'. zrep s' (f # fs) Lf (nil s) p \<and> nil s' = nil s \<and> rb_destroy_loop x s = emit (postorder r) (rb_destroy_loop p s')"
  shows "\<exists>s'. zrep s' fs (Nd c Lf a Lf) a p \<and> nil s' = nil s
    \<and> rb_destroy_loop x s = emit (postorder l @ postorder r) (rb_destroy_loop a s')"
proof -
  have "\<exists>s1. zrep s1 fs (Nd c Lf a r) a p \<and> nil s1 = nil s \<and> rb_destroy_loop x s = emit (postorder l) (rb_destroy_loop a s1)"
  proof (cases "l = Lf")
    case True
    then show ?thesis using z zrep_node [OF z] by auto
  next
    case False
    then show ?thesis using destroy_left [OF z False l] zrep_down_left [OF z] by blast
  qed
  then obtain s1 where s1: "zrep s1 fs (Nd c Lf a r) a p" "nil s1 = nil s" "rb_destroy_loop x s = emit (postorder l) (rb_destroy_loop a s1)"
    by blast
  show ?thesis
  proof (cases "r = Lf")
    case True
    then show ?thesis using s1 by auto
  next
    case False
    have "zrep s1 (FR Lf c a # fs) r (rson s1 a) a" using zrep_down_right [OF s1(1)] by blast
    from destroy_right [OF s1(1) False r [OF this False]] s1(2,3) show ?thesis by auto
  qed
qed

lemma destroy_subtree:
  "zrep s (f # fs) t x p \<Longrightarrow> t \<noteq> Lf
    \<Longrightarrow> \<exists>s'. zrep s' (f # fs) Lf (nil s) p \<and> nil s' = nil s \<and> rb_destroy_loop x s = emit (postorder t) (rb_destroy_loop p s')"
proof (induction t arbitrary: s f fs x p)
  case (Nd c l a r)
  from destroy_sons [OF Nd(3) Nd(1,2)] obtain s1 where s1: "zrep s1 (f # fs) (Nd c Lf a Lf) a p" "nil s1 = nil s"
    "rb_destroy_loop x s = emit (postorder l @ postorder r) (rb_destroy_loop a s1)" by blast
  from destroy_leaf [OF s1(1)] s1(2,3) show ?case by auto
qed simp

lemma rb_destroy_ok:
  assumes "holds s t"
  shows "\<exists>s'. rb_destroy s = Some (postorder t, s')"
proof (cases t)
  case Lf
  then show ?thesis using assms by (auto simp: rb_destroy_def holds_def rb_destroy_loop.simps)
next
  case (Nd c l a r)
  have z: "zrep s [] (Nd c l a r) (root s) (nil s)" using assms Nd by (simp add: holds_def zrep_def)
  from destroy_sons [OF z destroy_subtree destroy_subtree] obtain s1 where s1: "zrep s1 [] (Nd c Lf a Lf) a (nil s)"
    "nil s1 = nil s" "rb_destroy_loop (root s) s = emit (postorder l @ postorder r) (rb_destroy_loop a s1)" by blast
  have h: "a \<noteq> nil s1" "lson s1 a = nil s1" "rson s1 a = nil s1" "parent s1 a = nil s1" using s1(1,2) by (auto simp: zrep_def)
  have "rb_destroy_loop (nil s1) s2 = Some ([], s2)" if "nil s2 = nil s1" for s2 using that by (subst rb_destroy_loop.simps) simp
  then show ?thesis using s1(3) destroy_step [OF h] Nd by (simp add: rb_destroy_def)
qed


section \<open>Properties\<close>

lemma rb_inv_balanced: "rb_inv s xs \<Longrightarrow> \<exists>t. holds s t \<and> nodes t = xs \<and> 2 ^ height t \<le> (Suc (length xs)) ^ 2"
  using height_log by (auto simp: rb_inv_def)

lemma hd_enter: "Some (case enter ky z xs of [] \<Rightarrow> n | x # _ \<Rightarrow> x) = Some (hd (enter ky z xs))"
  by (cases xs) auto

lemma length_enter [simp]: "length (enter ky z xs) = Suc (length xs)"
  by (induction xs) auto

text \<open>
  C38. \<^verbatim>\<open>rb_insert\<close> on a red-black tree with a node that is not in it: the loops end, the result is again a
  red-black tree (pointers in both directions, colours, equal numbers of black nodes), whose nodes in order
  are the old ones with the new node behind those with keys that are not greater. Keys, data and sentinel
  are not touched. Afterwards the minimum and a search for the key are right, and the number of levels is
  at most twice the binary logarithm of one more than the number of nodes.
\<close>

theorem rb_insert_sorted:
  assumes "rb_inv s xs" "z \<notin> set xs" "z \<noteq> nil s"
  shows "\<exists>s'. rb_insert z s = Some s' \<and> rb_inv s' (enter (key s) z xs) \<and> keeps s s'
    \<and> tree_minimum_node s' = Some (hd (enter (key s) z xs))
    \<and> (\<exists>y. rb_search (key s z) s' = Some y \<and> y \<in> set (z # xs) \<and> key s y = key s z)
    \<and> (\<exists>t. holds s' t \<and> nodes t = enter (key s) z xs \<and> 2 ^ height t \<le> (length xs + 2) ^ 2)"
proof -
  from rb_inv_insert [OF assms] obtain s' where
    s: "rb_insert z s = Some s'" "rb_inv s' (enter (key s) z xs)" "keeps s s'" by blast
  have k: "key s' = key s" using s(3) by (simp add: keeps_def)
  from rb_inv_search [OF s(2), of "key s z"] obtain y where "rb_search (key s z) s' = Some y" "y \<in> set (z # xs)" "key s y = key s z"
    unfolding k by auto
  moreover have "tree_minimum_node s' = Some (hd (enter (key s) z xs))" using rb_inv_first [OF s(2)] hd_enter by metis
  moreover have "\<exists>t. holds s' t \<and> nodes t = enter (key s) z xs \<and> 2 ^ height t \<le> (length xs + 2) ^ 2"
    using rb_inv_balanced [OF s(2)] by simp
  ultimately show ?thesis using s by blast
qed

definition heap0 :: rb where
  "heap0 = \<lparr>parent = \<lambda>_. 0, lson = \<lambda>_. 0, rson = \<lambda>_. 0, colour = \<lambda>_. BLACK, key = \<lambda>a. of_nat (a * 7), data = \<lambda>a. a,
     nil = 0, root = 0\<rparr>"

theorem rb_insert_sorted_witness:
  "\<exists>s'. rb_insert 5 (pure_rbtree 1 heap0) = Some s' \<and> rb_inv s' [5] \<and> tree_minimum_node s' = Some 5"
  using rb_insert_sorted [OF rb_inv_new [of 1 heap0], of 5] by (auto simp: pure_rbtree_def)

text \<open>
  C39. \<^verbatim>\<open>rb_delete_key\<close>: when the tree has a node with the key, the search and the deletion end, the return
  code is 0, the data are those of a node with the key, and exactly this node is gone from the sequence; the
  result is again a red-black tree, and keys, data and sentinel are not touched. Without such a node the code
  is -1 and nothing changes.
\<close>

theorem rb_delete_key_spec:
  assumes "rb_inv s xs"
  shows "if k \<in> key s ` set xs
    then \<exists>z s'. z \<in> set xs \<and> key s z = k \<and> rb_delete_key k s = Some (0, Some (data s z), s')
      \<and> rb_inv s' (remove1 z xs) \<and> keeps s s'
    else rb_delete_key k s = Some (- 1, None, s)"
proof -
  from rb_inv_search [OF assms, of k] obtain z where
    z: "rb_search k s = Some z" "if k \<in> key s ` set xs then z \<in> set xs \<and> key s z = k else z = nil s" by blast
  show ?thesis
  proof (cases "k \<in> key s ` set xs")
    case True
    then have h: "z \<in> set xs" "key s z = k" "z \<noteq> nil s" using z(2) rb_inv_sound [OF assms] by auto
    from rb_inv_delete [OF assms h(1)] obtain s' where "rb_delete z s = Some s'" "rb_inv s' (remove1 z xs)" "keeps s s'" by blast
    then show ?thesis using True z(1) h by (auto simp: rb_delete_key_def)
  next
    case False
    then show ?thesis using z by (simp add: rb_delete_key_def)
  qed
qed


theorem rb_delete_key_spec_witness:
  "\<exists>s s'. rb_insert 5 (pure_rbtree 1 heap0) = Some s \<and> rb_delete_key 35 s = Some (0, Some 5, s') \<and> rb_inv s' []"
proof -
  have "(5 :: node) \<noteq> nil (pure_rbtree 1 heap0)" by (simp add: pure_rbtree_def)
  from rb_inv_insert [OF rb_inv_new _ this] obtain s where
    s: "rb_insert 5 (pure_rbtree 1 heap0) = Some s" "rb_inv s [5]" "keeps (pure_rbtree 1 heap0) s" by auto
  have "key s 5 = 35" "data s 5 = 5" using s(3) by (simp_all add: keeps_def pure_rbtree_def heap0_def)
  then show ?thesis using rb_delete_key_spec [OF s(2), of 35] s(1) by (auto simp: keeps_def)
qed

end
