(* ===== verification/Timer.thy ===== *)
theory Timer
  imports Rbtree_Spec
begin

text \<open>
  The timers of \<^verbatim>\<open>src/src/timer\<close>: \<^verbatim>\<open>CPure_timer\<close>, a red-black tree of deadlines, and
  \<^verbatim>\<open>CBase_timer_event\<close>, whose member \<^verbatim>\<open>m_ev_node\<close> is the node in the tree. An event is named by
  the address of this member. A call that gives \<open>None\<close> does not return: a loop that does not end, or
  an assertion that fails. The clock enters as the \<^verbatim>\<open>timeval\<close> that \<^verbatim>\<open>gettimeofday\<close> writes.
\<close>

section \<open>Model\<close>

record timer =
  prbt :: rb
  node_value :: "64 word"
  m_is_inrbtree :: "node \<Rightarrow> bool"
  m_ptt :: "node \<Rightarrow> bool"

type_synonym timeval = "int \<times> int"

definition pure_get_msec :: "timeval \<Rightarrow> 64 word" where
  "pure_get_msec tv = word_of_int (fst tv) * 1000 + word_of_int (snd tv) div 1000"

text \<open>The field \<open>m_ptt\<close> says whether the pointer is set.\<close>

definition add_to_timer :: "64 word \<Rightarrow> node \<Rightarrow> timer \<Rightarrow> s32 \<times> timer" where
  "add_to_timer t ev tm =
     (if \<not> m_is_inrbtree tm ev then
        (SUCCESS, tm\<lparr>prbt := (prbt tm)\<lparr>key := (key (prbt tm))(ev := t), data := (data (prbt tm))(ev := ev)\<rparr>,
               m_is_inrbtree := (m_is_inrbtree tm)(ev := True), m_ptt := (m_ptt tm)(ev := True)\<rparr>)
      else (FAILURE, tm))"

definition remove_timer :: "node \<Rightarrow> timer \<Rightarrow> s32 \<times> timer" where
  "remove_timer ev tm =
     (if m_is_inrbtree tm ev then (SUCCESS, tm\<lparr>m_is_inrbtree := (m_is_inrbtree tm)(ev := False)\<rparr>) else (FAILURE, tm))"

definition pure_add_timer :: "timeval \<Rightarrow> 64 word \<Rightarrow> node \<Rightarrow> timer \<Rightarrow> (s32 \<times> timer) option" where
  "pure_add_timer tv t ev tm =
     (let (ret, tm1) = add_to_timer (t + pure_get_msec tv) ev tm in
      if ret = SUCCESS then
        if lson (prbt tm1) ev \<noteq> 0 \<or> rson (prbt tm1) ev \<noteq> 0 then None
        else map_option (\<lambda>s. (0, tm1\<lparr>prbt := s\<rparr>)) (rb_insert ev (prbt tm1))
      else Some (0, tm1))"

text \<open>\<^verbatim>\<open>memset(&ev->m_ev_node,0,sizeof(rb_node))\<close>.\<close>

definition wipe :: "node \<Rightarrow> rb \<Rightarrow> rb" where
  "wipe a s = s\<lparr>parent := (parent s)(a := 0), lson := (lson s)(a := 0), rson := (rson s)(a := 0),
     colour := (colour s)(a := BLACK), key := (key s)(a := 0), data := (data s)(a := 0)\<rparr>"

definition pure_delete_timer :: "node \<Rightarrow> timer \<Rightarrow> (s32 \<times> timer) option" where
  "pure_delete_timer ev tm =
     (let (ret, tm1) = remove_timer ev tm in
      if ret = SUCCESS then map_option (\<lambda>s. (0, tm1\<lparr>prbt := wipe ev s\<rparr>)) (rb_delete ev (prbt tm1))
      else Some (0, tm1))"

text \<open>The destructor of an event.\<close>

definition timer_event_destroy :: "node \<Rightarrow> timer \<Rightarrow> timer option" where
  "timer_event_destroy ev tm =
     (if m_is_inrbtree tm ev \<and> m_ptt tm ev then map_option snd (pure_delete_timer ev tm) else Some tm)"

definition pure_find_timer :: "timeval \<Rightarrow> timer \<Rightarrow> (64 word \<times> timer) option" where
  "pure_find_timer tv tm =
     (case tree_minimum_key (prbt tm) of None \<Rightarrow> None
      | Some (k, _) \<Rightarrow> let cur_time = pure_get_msec tv in
          Some (if k > cur_time then k - cur_time else 0, tm\<lparr>node_value := k\<rparr>))"

text \<open>\<^verbatim>\<open>s32 delta = node->key - now\<close>, and the test \<^verbatim>\<open>delta <= 0\<close>.\<close>

definition expired :: "64 word \<Rightarrow> 64 word \<Rightarrow> bool" where
  "expired now k \<longleftrightarrow> sint (ucast (k - now) :: 32 word) \<le> 0"

text \<open>
  The loop of \<^verbatim>\<open>pure_timer_process\<close>. The virtual \<^verbatim>\<open>handle_expire_timer_ex\<close> is the parameter
  \<open>handler\<close>, which may change the timer and the rest \<open>w\<close> of the program; \<open>fired\<close> collects the
  events it was called for. A handler that gives \<open>None\<close> does not return.
\<close>

partial_function (option) timer_process_loop ::
  "(node \<Rightarrow> timer \<times> 'w \<Rightarrow> (timer \<times> 'w) option) \<Rightarrow> 64 word \<Rightarrow> node list \<Rightarrow> timer \<times> 'w \<Rightarrow> (s32 \<times> node list \<times> timer \<times> 'w) option" where
  "timer_process_loop handler now fired st =
     (case tree_minimum_node (prbt (fst st)) of None \<Rightarrow> None | Some nd \<Rightarrow>
        let ev = data (prbt (fst st)) nd in
        if nd = nil (prbt (fst st)) then Some (- 1, fired, st)
        else if expired now (key (prbt (fst st)) nd) then
          (case pure_delete_timer ev (fst st) of None \<Rightarrow> None
           | Some (_, tm) \<Rightarrow> (case handler ev (tm, snd st) of None \<Rightarrow> None
              | Some st' \<Rightarrow> timer_process_loop handler now (fired @ [ev]) st'))
        else Some (- 1, fired, st))"

definition pure_timer_process ::
  "(node \<Rightarrow> timer \<times> 'w \<Rightarrow> (timer \<times> 'w) option) \<Rightarrow> timeval \<Rightarrow> timer \<times> 'w \<Rightarrow> (s32 \<times> node list \<times> timer \<times> 'w) option" where
  "pure_timer_process handler tv st = timer_process_loop handler (pure_get_msec tv) [] st"

section \<open>Invariant\<close>

text \<open>The events \<open>xs\<close> are armed, in the order of their deadlines.\<close>

definition tinv :: "timer \<Rightarrow> node list \<Rightarrow> bool" where
  "tinv tm xs \<longleftrightarrow> rb_inv (prbt tm) xs \<and> (\<forall>e. m_is_inrbtree tm e \<longleftrightarrow> e \<in> set xs) \<and> (\<forall>e \<in> set xs. data (prbt tm) e = e)"

abbreviation deadline :: "timer \<Rightarrow> node \<Rightarrow> 64 word" where
  "deadline tm \<equiv> key (prbt tm)"

lemma tinvD:
  assumes "tinv tm xs"
  shows "rb_inv (prbt tm) xs" "m_is_inrbtree tm e \<longleftrightarrow> e \<in> set xs" "e \<in> set xs \<Longrightarrow> data (prbt tm) e = e"
    "distinct xs" "nil (prbt tm) \<notin> set xs" "sorted (map (deadline tm) xs)"
  using assms rbq.repr_sound [of "prbt tm" xs] by (auto simp: tinv_def)

lemma wipe_sel [simp]: "key (wipe a s) = (key s)(a := 0)" "nil (wipe a s) = nil s" "data (wipe a s) = (data s)(a := 0)"
  by (simp_all add: wipe_def)

lemma rb_inv_wipe: "rb_inv s xs \<Longrightarrow> z \<notin> set xs \<Longrightarrow> z \<noteq> nil s \<Longrightarrow> rb_inv (wipe z s) xs"
  by (erule (2) rb_inv_outside) (simp_all add: wipe_def)

lemma delete_timer_ok:
  assumes t: "tinv tm xs" and e: "e \<in> set xs"
  shows "\<exists>tm'. pure_delete_timer e tm = Some (0, tm') \<and> tinv tm' (remove1 e xs) \<and> deadline tm' = (deadline tm)(e := 0)
    \<and> e \<noteq> nil (prbt tm') \<and> lson (prbt tm') e = 0 \<and> rson (prbt tm') e = 0"
proof -
  note h = tinvD [OF t]
  from rb_inv_delete [OF h(1) e] obtain s where s: "rb_delete e (prbt tm) = Some s" "rb_inv s (remove1 e xs)" "keeps (prbt tm) s" by blast
  have e2: "e \<notin> set (remove1 e xs)" "e \<noteq> nil s" using h(4,5) e s(3) by (auto simp: keeps_def)
  have "rb_inv (wipe e s) (remove1 e xs)" by (rule rb_inv_wipe [OF s(2) e2])
  then have "tinv (tm\<lparr>m_is_inrbtree := (m_is_inrbtree tm)(e := False), prbt := wipe e s\<rparr>) (remove1 e xs)"
    using h(2-4) s(3) by (auto simp: tinv_def keeps_def)
  moreover have "lson (wipe e s) e = 0" "rson (wipe e s) e = 0" by (simp_all add: wipe_def)
  ultimately show ?thesis using s h(2) e e2(2) by (auto simp: pure_delete_timer_def remove_timer_def keeps_def)
qed

lemma delete_timer_idle: "tinv tm xs \<Longrightarrow> e \<notin> set xs \<Longrightarrow> pure_delete_timer e tm = Some (0, tm)"
  using tinvD(2) [of tm xs e] by (simp add: pure_delete_timer_def remove_timer_def)

lemma add_timer_ok:
  fixes t0 :: "64 word" and tv :: timeval
  assumes t: "tinv tm xs" and e: "e \<notin> set xs" "e \<noteq> nil (prbt tm)" "lson (prbt tm) e = 0" "rson (prbt tm) e = 0"
  defines "ky \<equiv> (deadline tm)(e := t0 + pure_get_msec tv)"
  shows "\<exists>tm'. pure_add_timer tv t0 e tm = Some (0, tm') \<and> tinv tm' (enter ky e xs) \<and> deadline tm' = ky"
proof -
  note h = tinvD [OF t]
  let ?s = "(prbt tm)\<lparr>key := ky, data := (data (prbt tm))(e := e)\<rparr>"
  have "rb_inv ?s xs" by (rule rb_inv_outside [OF h(1) e(1,2)]) (auto simp: ky_def)
  from rb_inv_insert [OF this e(1)] e(2) obtain s where s: "rb_insert e ?s = Some s" "rb_inv s (enter ky e xs)" "keeps ?s s" by auto
  have "tinv (tm\<lparr>m_is_inrbtree := (m_is_inrbtree tm)(e := True), m_ptt := (m_ptt tm)(e := True), prbt := s\<rparr>) (enter ky e xs)"
    using s(2,3) h(2,3) by (auto simp: tinv_def keeps_def)
  then show ?thesis using s h(2) [of e] e by (auto simp: pure_add_timer_def add_to_timer_def keeps_def ky_def Let_def)
qed

lemma add_timer_armed: "tinv tm xs \<Longrightarrow> e \<in> set xs \<Longrightarrow> pure_add_timer tv t0 e tm = Some (0, tm)"
  using tinvD(2) [of tm xs e] by (simp add: pure_add_timer_def add_to_timer_def)


section \<open>Expiry\<close>

text \<open>The deadlines for which the 32-bit difference is the true one.\<close>

definition window :: "64 word \<Rightarrow> 64 word \<Rightarrow> bool" where
  "window now k \<longleftrightarrow> \<bar>uint k - uint now\<bar> < 2 ^ 31"

lemma expired_iff:
  assumes "window now k"
  shows "expired now k \<longleftrightarrow> k \<le> now"
proof -
  define d where "d = uint k - uint now"
  have d: "- (2 ^ 31) \<le> d" "d < 2 ^ 31" using assms by (auto simp: window_def d_def)
  have "k - now = word_of_int d" by (simp add: d_def)
  then have "(ucast (k - now) :: 32 word) = word_of_int d"
    by (simp add: ucast_eq uint_word_of_int_eq word_of_int_eq_iff)
  then have "sint (ucast (k - now) :: 32 word) = d" using d by (simp add: signed_take_bit_int_eq_self sint_sbintrunc')
  then show ?thesis unfolding expired_def word_le_def d_def by simp
qed


text \<open>
  What the handlers are expected to do with the timer: to arm events only for later than now, and else
  to leave deadlines alone; they may cancel events. The event that expired is idle when its handler runs.
  They may rely on \<open>Q\<close> for the rest of the program, and keep it.
\<close>

definition windows :: "64 word \<Rightarrow> timer \<Rightarrow> node list \<Rightarrow> bool" where
  "windows now tm xs \<longleftrightarrow> (\<forall>x \<in> set xs. window now (deadline tm x))"

definition later :: "64 word \<Rightarrow> timer \<Rightarrow> node list \<Rightarrow> timer \<Rightarrow> node list \<Rightarrow> bool" where
  "later now tm xs tm' ys \<longleftrightarrow> tinv tm' ys \<and> windows now tm' ys
     \<and> (\<forall>y \<in> set ys. y \<in> set xs \<and> deadline tm' y = deadline tm y \<or> now < deadline tm' y)"

definition idle :: "node \<Rightarrow> timer \<Rightarrow> node list \<Rightarrow> bool" where
  "idle e tm xs \<longleftrightarrow> e \<notin> set xs \<and> e \<noteq> nil (prbt tm) \<and> lson (prbt tm) e = 0 \<and> rson (prbt tm) e = 0"

definition calm :: "64 word \<Rightarrow> ('w \<Rightarrow> bool) \<Rightarrow> (node \<Rightarrow> timer \<times> 'w \<Rightarrow> (timer \<times> 'w) option) \<Rightarrow> bool" where
  "calm now Q handler \<longleftrightarrow>
     (\<forall>e tm w xs. Q w \<and> tinv tm xs \<and> windows now tm xs \<and> idle e tm xs
        \<longrightarrow> (\<exists>tm' w' ys. handler e (tm, w) = Some (tm', w') \<and> Q w' \<and> later now tm xs tm' ys))"

definition due :: "64 word \<Rightarrow> timer \<Rightarrow> node list \<Rightarrow> node set" where
  "due now tm xs = {x \<in> set xs. deadline tm x \<le> now}"

lemma later_due: "later now tm xs tm' ys \<Longrightarrow> due now tm' ys \<subseteq> due now tm xs"
  by (auto simp: later_def due_def linorder_not_le)

lemma process_stop:
  assumes t: "tinv tm xs" "windows now tm xs" and n: "due now tm xs = {}"
  shows "timer_process_loop handler now fired (tm, w) = Some (- 1, fired, tm, w)"
proof (cases xs)
  case Nil
  then have "tree_minimum_node (prbt tm) = Some (nil (prbt tm))" using rbq.first_law [OF tinvD(1) [OF t(1)]] by simp
  then show ?thesis by (subst timer_process_loop.simps) simp
next
  case (Cons x ys)
  have "tree_minimum_node (prbt tm) = Some x" using rbq.first_law [OF tinvD(1) [OF t(1)]] Cons by simp
  moreover have "\<not> expired now (deadline tm x)" "x \<noteq> nil (prbt tm)"
    using expired_iff [of now "deadline tm x"] t n tinvD(5) [OF t(1)] Cons by (auto simp: windows_def due_def)
  ultimately show ?thesis by (subst timer_process_loop.simps) simp
qed

text \<open>The first armed event is due when any is.\<close>

lemma due_first:
  assumes t: "tinv tm xs" and n: "due now tm xs \<noteq> {}"
  shows "\<exists>x ys. xs = x # ys \<and> deadline tm x \<le> now"
proof (cases xs)
  case Nil
  then show ?thesis using n by (simp add: due_def)
next
  case (Cons x ys)
  obtain y where y: "y \<in> set (x # ys)" "deadline tm y \<le> now" using n Cons by (auto simp: due_def)
  have "deadline tm x \<le> deadline tm y" using rbq.first_least [OF tinvD(1) [OF t, unfolded Cons] y(1)] by blast
  then show ?thesis using Cons order_trans [OF _ y(2)] by blast
qed

lemma process_step:
  assumes t: "tinv tm (x # xs)" and d: "expired now (deadline tm x)"
  shows "\<exists>tm'. timer_process_loop handler now fired (tm, w) = Option.bind (handler x (tm', w)) (timer_process_loop handler now (fired @ [x]))
    \<and> tinv tm' xs \<and> (windows now tm (x # xs) \<longrightarrow> windows now tm' xs) \<and> deadline tm' = (deadline tm)(x := 0) \<and> idle x tm' xs"
proof -
  from delete_timer_ok [OF t, of x] obtain tm' where
    tm': "pure_delete_timer x tm = Some (0, tm')" "tinv tm' xs" "deadline tm' = (deadline tm)(x := 0)"
      "x \<noteq> nil (prbt tm') \<and> lson (prbt tm') x = 0 \<and> rson (prbt tm') x = 0" by auto
  have x: "x \<notin> set xs" using tinvD(4) [OF t] by simp
  have "tree_minimum_node (prbt tm) = Some x" using rbq.first_law [OF tinvD(1) [OF t]] by simp
  moreover have "x \<noteq> nil (prbt tm)" "data (prbt tm) x = x" using tinvD [OF t] by auto
  ultimately have "timer_process_loop handler now fired (tm, w) = Option.bind (handler x (tm', w)) (timer_process_loop handler now (fired @ [x]))"
    using d tm'(1) by (subst timer_process_loop.simps, cases "handler x (tm', w)") simp_all
  moreover have "windows now tm (x # xs) \<longrightarrow> windows now tm' xs" using tm'(3) x by (auto simp: windows_def)
  moreover have "idle x tm' xs" using tm'(4) x by (simp add: idle_def)
  ultimately show ?thesis using tm'(2,3) by (intro exI [of _ tm'] conjI)
qed

lemma process_calm:
  assumes "calm now Q handler"
  shows "Q w \<Longrightarrow> tinv tm xs \<Longrightarrow> windows now tm xs
    \<Longrightarrow> \<exists>fired tm' w' ys. timer_process_loop handler now acc (tm, w) = Some (- 1, acc @ fired, tm', w')
      \<and> tinv tm' ys \<and> due now tm' ys = {} \<and> distinct fired \<and> set fired \<subseteq> due now tm xs"
proof (induction "card (due now tm xs)" arbitrary: tm xs acc w rule: less_induct)
  case less
  show ?case
  proof (cases "due now tm xs = {}")
    case True
    then show ?thesis using process_stop [OF less(3,4) True, of handler acc w] less(3) True by (intro exI [of _ "[]"] exI [of _ tm] exI [of _ w] exI [of _ xs]) simp
  next
    case False
    from due_first [OF less(3) False] obtain x xs' where x: "xs = x # xs'" "deadline tm x \<le> now" by blast
    have e: "expired now (deadline tm x)" using expired_iff [of now "deadline tm x"] less(4) x by (auto simp: windows_def)
    from process_step [OF less(3) [unfolded x(1)] e] obtain tm1 where
      step: "timer_process_loop handler now acc (tm, w) = Option.bind (handler x (tm1, w)) (timer_process_loop handler now (acc @ [x]))"
      and t1: "tinv tm1 xs'" "windows now tm1 xs'" "deadline tm1 = (deadline tm)(x := 0)" "idle x tm1 xs'" using less(4) x(1) by metis
    from assms less(2) t1(1,2,4) obtain tm2 w2 ys where h: "handler x (tm1, w) = Some (tm2, w2)" "Q w2" and l: "later now tm1 xs' tm2 ys"
      unfolding calm_def by meson
    have d1: "due now tm1 xs' = due now tm xs - {x}" using t1(3,4) by (auto simp: due_def x idle_def)
    have d2: "due now tm2 ys \<subseteq> due now tm xs - {x}" using later_due [OF l] d1 by simp
    have "x \<in> due now tm xs" "finite (due now tm xs)" using x by (auto simp: due_def)
    then have "card (due now tm2 ys) < card (due now tm xs)" using d2 by (meson card_Diff1_less card_mono finite_Diff order.strict_trans1)
    moreover have "tinv tm2 ys" "windows now tm2 ys" using l by (auto simp: later_def)
    ultimately obtain fired tm' w' zs where r: "timer_process_loop handler now (acc @ [x]) (tm2, w2) = Some (- 1, (acc @ [x]) @ fired, tm', w')"
      "tinv tm' zs" "due now tm' zs = {}" "distinct fired" "set fired \<subseteq> due now tm2 ys" using less(1) h(2) by blast
    then show ?thesis using step h d2 \<open>x \<in> due now tm xs\<close> by (intro exI [of _ "x # fired"]) auto
  qed
qed

lemma process_quiet:
  assumes h: "\<And>e st. \<exists>w'. handler e st = Some (fst st, w')"
  shows "tinv tm xs \<Longrightarrow> windows now tm xs
    \<Longrightarrow> \<exists>tm' w'. timer_process_loop handler now acc (tm, w) = Some (- 1, acc @ takeWhile (\<lambda>x. deadline tm x \<le> now) xs, tm', w')
      \<and> tinv tm' (dropWhile (\<lambda>x. deadline tm x \<le> now) xs)"
proof (induction xs arbitrary: tm acc w)
  case Nil
  then show ?case using process_stop [OF Nil, of handler acc w] Nil(1) by (auto simp: due_def)
next
  case (Cons x xs)
  show ?case
  proof (cases "deadline tm x \<le> now")
    case True
    then have e: "expired now (deadline tm x)" using expired_iff [of now "deadline tm x"] Cons(3) by (auto simp: windows_def)
    from process_step [OF Cons(2) e] obtain tm1 where
      step: "timer_process_loop handler now acc (tm, w) = Option.bind (handler x (tm1, w)) (timer_process_loop handler now (acc @ [x]))"
      and t1: "tinv tm1 xs" "windows now tm1 xs" "deadline tm1 = (deadline tm)(x := 0)" "x \<notin> set xs" using Cons(3) unfolding idle_def by metis
    obtain w2 where w2: "handler x (tm1, w) = Some (tm1, w2)" using h [of x "(tm1, w)"] by auto
    have "takeWhile (\<lambda>x. deadline tm1 x \<le> now) xs = takeWhile (\<lambda>x. deadline tm x \<le> now) xs"
      "dropWhile (\<lambda>x. deadline tm1 x \<le> now) xs = dropWhile (\<lambda>x. deadline tm x \<le> now) xs"
      using t1(3,4) by (auto intro: takeWhile_cong dropWhile_cong)
    then show ?thesis using Cons(1) [OF t1(1,2), of "acc @ [x]" w2] step w2 True by auto
  next
    case False
    have "due now tm (x # xs) = {}" using due_first [OF Cons(2)] False by blast
    then show ?thesis using process_stop [OF Cons(2,3), of handler acc w] False Cons(2) by auto
  qed
qed


section \<open>Properties\<close>

text \<open>
  C40. \<^verbatim>\<open>pure_timer_process\<close>, with all deadlines less than \<open>2 ^ 31\<close> ms from now: for every handler that
  arms events only for later (and may cancel events) the loop ends, the armed events are again in order and
  none of them is due, and the events that fired were due and fired once. When the handler leaves the timer
  alone, exactly the events that are due have fired, in the order of their deadlines, and the others are
  still armed.
\<close>

theorem timer_process_fires:
  fixes tv handler tm xs w Q
  defines "now \<equiv> pure_get_msec tv"
  assumes t: "tinv tm xs" "windows now tm xs" and h: "calm now Q handler" "Q w"
  shows "(\<exists>fired tm' w' ys. pure_timer_process handler tv (tm, w) = Some (- 1, fired, tm', w') \<and> tinv tm' ys
      \<and> due now tm' ys = {} \<and> distinct fired \<and> set fired \<subseteq> due now tm xs)
    \<and> ((\<forall>e st. \<exists>w'. handler e st = Some (fst st, w')) \<longrightarrow>
      (\<exists>tm' w'. pure_timer_process handler tv (tm, w) = Some (- 1, takeWhile (\<lambda>x. deadline tm x \<le> now) xs, tm', w')
        \<and> tinv tm' (dropWhile (\<lambda>x. deadline tm x \<le> now) xs)))"
  unfolding pure_timer_process_def now_def [symmetric]
  using process_calm [OF h t, of "[]"] process_quiet [OF _ t, of handler "[]" w] unfolding append_Nil by blast

text \<open>No event is armed yet.\<close>

definition timer0 :: timer where
  "timer0 = \<lparr>prbt = pure_rbtree 1 heap0, node_value = 0, m_is_inrbtree = \<lambda>_. False, m_ptt = \<lambda>_. False\<rparr>"

lemma timer0_inv: "tinv timer0 []"
  using rb_inv_new by (simp add: tinv_def timer0_def)

lemma calm_quiet: "calm now (\<lambda>_. True) (\<lambda>_. Some)"
  by (auto simp: calm_def later_def)

lemma timer0_add: "\<exists>tm. pure_add_timer (1, 0) 10 5 timer0 = Some (0, tm) \<and> tinv tm [5] \<and> deadline tm 5 = 1010"
  using add_timer_ok [OF timer0_inv, of 5 "(1, 0)" 10] by (auto simp: timer0_def pure_rbtree_def heap0_def pure_get_msec_def)

theorem timer_process_fires_witness:
  "\<exists>tm tm'. pure_add_timer (1, 0) 10 5 timer0 = Some (0, tm)
     \<and> pure_timer_process (\<lambda>_. Some) (2, 0) (tm, ()) = Some (- 1, [5], tm', ()) \<and> tinv tm' []"
proof -
  from timer0_add obtain tm where tm: "pure_add_timer (1, 0) 10 5 timer0 = Some (0, tm)" "tinv tm [5]" "deadline tm 5 = 1010" by blast
  have n: "pure_get_msec (2, 0) = 2000" by (simp add: pure_get_msec_def)
  have "windows (pure_get_msec (2, 0)) tm [5]" by (simp add: windows_def window_def tm(3) n)
  from timer_process_fires [OF tm(2) this calm_quiet, of "()"] tm show ?thesis by (auto simp: n)
qed

text \<open>
  The difference of the deadline and the current time is cut to 32 bits: an event armed for \<open>2 ^ 31\<close> ms
  from now, about 25 days, fires at once.
\<close>

lemma far_timer_fires:
  assumes "tinv tm [e]" "deadline tm e = now + 2 ^ 31"
  shows "\<exists>tm'. timer_process_loop (\<lambda>_. Some) now [] (tm, w) = Some (- 1, [e], tm', w)"
proof -
  have x: "expired now (deadline tm e)" by (simp add: expired_def assms(2))
  from process_step [OF assms(1) x, of "\<lambda>_. Some" "[]" w] obtain tm' where
    "timer_process_loop (\<lambda>_. Some) now [] (tm, w) = timer_process_loop (\<lambda>_. Some) now [e] (tm', w)" "tinv tm' []" by auto
  then show ?thesis using process_stop [of tm' "[]" now "\<lambda>_. Some" "[e]" w] by (auto simp: windows_def due_def)
qed

end
