(* ===== verification/Event_Circle.thy ===== *)
theory Event_Circle
  imports Prelude "HOL-Library.Sublist"
begin

text \<open>
  The list of pending I/O events of \<^verbatim>\<open>CBase_circle\<close> (\<^verbatim>\<open>src/src/base/base_circle.cpp\<close>): a doubly linked
  list through the events, with a cursor \<^verbatim>\<open>m_next\<close> that removals during a traversal move on. The class
  \<^verbatim>\<open>CIO_event\<close> is not part of the sources; the model has the fields that the circle uses, and its
  virtual \<^verbatim>\<open>io_process\<close> is a parameter.
\<close>

section \<open>Model\<close>

type_synonym ev = nat

record circle =
  mp_prev :: "ev \<Rightarrow> ev option"
  mp_next :: "ev \<Rightarrow> ev option"
  m_linked :: "ev \<Rightarrow> bool"
  mp_header :: "ev option"
  m_next :: "ev option"

definition add_event :: "ev \<Rightarrow> circle \<Rightarrow> circle" where
  "add_event e c =
     (case mp_header c of
        None \<Rightarrow> c\<lparr>mp_header := Some e, m_linked := (m_linked c)(e := True)\<rparr>
      | Some h \<Rightarrow>
          c\<lparr>mp_next := (mp_next c)(e := Some h), mp_prev := (mp_prev c)(h := Some e), mp_header := Some e,
            m_linked := (m_linked c)(e := True)\<rparr>)"

definition remove_event :: "ev \<Rightarrow> circle \<Rightarrow> circle" where
  "remove_event e c =
     (let c1 = (if m_next c = Some e then c\<lparr>m_next := mp_next c e\<rparr> else c);
          c2 = (case mp_prev c1 e of Some p \<Rightarrow> c1\<lparr>mp_next := (mp_next c1)(p := mp_next c1 e)\<rparr>
                | None \<Rightarrow> c1\<lparr>mp_header := mp_next c1 e\<rparr>);
          c3 = (case mp_next c2 e of Some n \<Rightarrow> c2\<lparr>mp_prev := (mp_prev c2)(n := mp_prev c2 e)\<rparr> | None \<Rightarrow> c2)
      in c3\<lparr>mp_prev := (mp_prev c3)(e := None), mp_next := (mp_next c3)(e := None), m_linked := (m_linked c3)(e := False)\<rparr>)"

text \<open>
  One round of the loop of \<^verbatim>\<open>traversal\<close> at the event \<open>n\<close>, up to \<^verbatim>\<open>node = m_next\<close>. The parameter \<open>io\<close> is
  \<^verbatim>\<open>io_process\<close>, \<open>cl\<close> is \<^verbatim>\<open>connect_close\<close> of the connection of the event; both may change the circle
  and the rest \<open>w\<close> of the program.
\<close>

definition traversal_step ::
  "(ev \<Rightarrow> circle \<times> 'w \<Rightarrow> s32 \<times> circle \<times> 'w) \<Rightarrow> (ev \<Rightarrow> circle \<times> 'w \<Rightarrow> circle \<times> 'w) \<Rightarrow> ev \<Rightarrow> circle \<times> 'w \<Rightarrow> circle \<times> 'w" where
  "traversal_step io cl n st =
     (let (ret, st1) = io n st in
      if ret = FAILURE then cl n st1 else if ret = RETRY then st1 else (remove_event n (fst st1), snd st1))"

text \<open>\<open>None\<close>: the assertion fails or the loop does not end. \<open>seen\<close> collects the events processed.\<close>

partial_function (option) traversal_loop ::
  "(ev \<Rightarrow> circle \<times> 'w \<Rightarrow> s32 \<times> circle \<times> 'w) \<Rightarrow> (ev \<Rightarrow> circle \<times> 'w \<Rightarrow> circle \<times> 'w) \<Rightarrow> ev \<Rightarrow> ev list
    \<Rightarrow> circle \<times> 'w \<Rightarrow> (s32 \<times> ev list \<times> circle \<times> 'w) option" where
  "traversal_loop io cl n seen st =
     (if m_next (fst st) = Some n then None
      else let st1 = traversal_step io cl n st in
        case m_next (fst st1) of None \<Rightarrow> Some (SUCCESS, seen @ [n], st1)
        | Some n' \<Rightarrow> traversal_loop io cl n' (seen @ [n]) ((fst st1)\<lparr>m_next := mp_next (fst st1) n'\<rparr>, snd st1))"

definition traversal ::
  "(ev \<Rightarrow> circle \<times> 'w \<Rightarrow> s32 \<times> circle \<times> 'w) \<Rightarrow> (ev \<Rightarrow> circle \<times> 'w \<Rightarrow> circle \<times> 'w)
    \<Rightarrow> circle \<times> 'w \<Rightarrow> (s32 \<times> ev list \<times> circle \<times> 'w) option" where
  "traversal io cl st =
     (case mp_header (fst st) of None \<Rightarrow> Some (SUCCESS, [], (fst st)\<lparr>m_next := None\<rparr>, snd st)
      | Some h \<Rightarrow> traversal_loop io cl h [] ((fst st)\<lparr>m_next := mp_next (fst st) h\<rparr>, snd st))"

section \<open>The interface\<close>

text \<open>
  A list with a cursor, as the callbacks of a traversal use it: \<open>repr c ys zs\<close> says that \<open>ys\<close> stands before
  the cursor and \<open>zs\<close> behind it. Whatever sequence of operations a callback runs, what is behind the cursor
  can only shrink.
\<close>

datatype lop = Add ev | Del ev

fun sim :: "lop list \<Rightarrow> ev list \<times> ev list \<Rightarrow> (ev list \<times> ev list) option" where
  "sim [] l = Some l"
| "sim (Add e # ops) (ys, zs) = (if e \<in> set (ys @ zs) then None else sim ops (e # ys, zs))"
| "sim (Del e # ops) (ys, zs) = (if e \<in> set (ys @ zs) then sim ops (remove1 e ys, remove1 e zs) else None)"

fun run_lops :: "(ev \<Rightarrow> 'c \<Rightarrow> 'c) \<Rightarrow> (ev \<Rightarrow> 'c \<Rightarrow> 'c) \<Rightarrow> lop list \<Rightarrow> 'c \<Rightarrow> 'c" where
  "run_lops add del [] c = c"
| "run_lops add del (Add e # ops) c = run_lops add del ops (add e c)"
| "run_lops add del (Del e # ops) c = run_lops add del ops (del e c)"

lemma subseq_remove1: "subseq (remove1 e zs) zs"
  by (induction zs) auto

locale cursor_list =
  fixes repr :: "'c \<Rightarrow> ev list \<Rightarrow> ev list \<Rightarrow> bool" and add :: "ev \<Rightarrow> 'c \<Rightarrow> 'c" and del :: "ev \<Rightarrow> 'c \<Rightarrow> 'c"
  assumes add_law: "repr c ys zs \<Longrightarrow> e \<notin> set (ys @ zs) \<Longrightarrow> repr (add e c) (e # ys) zs"
    and del_law: "repr c ys zs \<Longrightarrow> e \<in> set (ys @ zs) \<Longrightarrow> repr (del e c) (remove1 e ys) (remove1 e zs)"
begin

lemma run_sim: "repr c ys zs \<Longrightarrow> sim ops (ys, zs) = Some (ys', zs') \<Longrightarrow> repr (run_lops add del ops c) ys' zs' \<and> subseq zs' zs"
proof (induction ops arbitrary: c ys zs)
  case (Cons p ops)
  show ?case
  proof (cases p)
    case (Add e)
    then show ?thesis using Cons(1) [OF add_law [OF Cons(2), of e]] Cons(3) by (simp split: if_splits)
  next
    case (Del e)
    then have h: "e \<in> set (ys @ zs)" "sim ops (remove1 e ys, remove1 e zs) = Some (ys', zs')" using Cons(3) by (simp_all split: if_splits)
    from Cons(1) [OF del_law [OF Cons(2) h(1)] h(2)] subseq_remove1 [of e zs] show ?thesis
      unfolding Del run_lops.simps using subseq_order.order_trans by blast
  qed
qed simp

end

section \<open>Representation\<close>

definition hd_or :: "ev list \<Rightarrow> ev option \<Rightarrow> ev option" where
  "hd_or xs q = (case xs of [] \<Rightarrow> q | x # _ \<Rightarrow> Some x)"

definition last_or :: "ev list \<Rightarrow> ev option \<Rightarrow> ev option" where
  "last_or xs p = (if xs = [] then p else Some (last xs))"

lemma or_simps [simp]:
  "hd_or [] q = q" "hd_or (x # xs) q = Some x" "last_or [] p = p" "last_or (x # xs) p = last_or xs (Some x)"
  "last_or (xs @ [x]) p = Some x"
  by (simp_all add: hd_or_def last_or_def)

text \<open>A piece of the list between \<open>p\<close> and \<open>q\<close>.\<close>

fun seg :: "circle \<Rightarrow> ev option \<Rightarrow> ev list \<Rightarrow> ev option \<Rightarrow> bool" where
  "seg c p [] q \<longleftrightarrow> True"
| "seg c p (x # xs) q \<longleftrightarrow> mp_prev c x = p \<and> mp_next c x = hd_or xs q \<and> seg c (Some x) xs q"

lemma seg_append: "seg c p (xs @ ys) q \<longleftrightarrow> seg c p xs (hd_or ys q) \<and> seg c (last_or xs p) ys q"
  by (induction xs arbitrary: p) (auto simp: hd_or_def split: list.splits)

lemma seg_cong:
  "(\<And>x. x \<in> set xs \<Longrightarrow> mp_prev c' x = mp_prev c x \<and> mp_next c' x = mp_next c x) \<Longrightarrow> seg c' p xs q = seg c p xs q"
  by (induction xs arbitrary: p) auto

lemma seg_set_start:
  "seg c p xs q \<Longrightarrow> distinct xs \<Longrightarrow> mp_next c' = mp_next c
    \<Longrightarrow> (xs \<noteq> [] \<Longrightarrow> mp_prev c' = (mp_prev c)(hd xs := p')) \<Longrightarrow> seg c' p' xs q"
proof (cases xs)
  case (Cons x ys)
  assume a: "seg c p xs q" "distinct xs" "mp_next c' = mp_next c" "xs \<noteq> [] \<Longrightarrow> mp_prev c' = (mp_prev c)(hd xs := p')"
  then have "seg c' (Some x) ys q = seg c (Some x) ys q" using Cons by (intro seg_cong) auto
  then show ?thesis using a Cons by simp
qed simp

lemma seg_set_end:
  "seg c p xs q \<Longrightarrow> distinct xs \<Longrightarrow> mp_prev c' = mp_prev c
    \<Longrightarrow> (xs \<noteq> [] \<Longrightarrow> mp_next c' = (mp_next c)(last xs := q')) \<Longrightarrow> seg c' p xs q'"
proof (cases xs rule: rev_cases)
  case (snoc ys x)
  assume a: "seg c p xs q" "distinct xs" "mp_prev c' = mp_prev c" "xs \<noteq> [] \<Longrightarrow> mp_next c' = (mp_next c)(last xs := q')"
  then have "seg c' p ys (Some x) = seg c p ys (Some x)" using snoc by (intro seg_cong) auto
  then show ?thesis using a snoc by (auto simp: seg_append)
qed simp

text \<open>The circle holds the events \<open>xs\<close>; events that are not in the list have null links.\<close>

definition elist :: "circle \<Rightarrow> ev list \<Rightarrow> bool" where
  "elist c xs \<longleftrightarrow> mp_header c = hd_or xs None \<and> distinct xs \<and> seg c None xs None
     \<and> (\<forall>e. m_linked c e \<longleftrightarrow> e \<in> set xs) \<and> (\<forall>e. e \<notin> set xs \<longrightarrow> mp_prev c e = None \<and> mp_next c e = None)"

text \<open>The cursor stands before \<open>todo\<close>.\<close>

definition clist :: "circle \<Rightarrow> ev list \<Rightarrow> ev list \<Rightarrow> bool" where
  "clist c done todo \<longleftrightarrow> elist c (done @ todo) \<and> m_next c = hd_or todo None"

lemma elist_next: "elist c xs \<Longrightarrow> elist (c\<lparr>m_next := n\<rparr>) xs"
  using seg_cong [of xs "c\<lparr>m_next := n\<rparr>" c None None] by (simp add: elist_def)

lemma elist_add:
  assumes c: "elist c xs" and e: "e \<notin> set xs"
  shows "elist (add_event e c) (e # xs)" "m_next (add_event e c) = m_next c"
proof -
  show "elist (add_event e c) (e # xs)"
  proof (cases xs)
    case Nil
    then show ?thesis using c e by (auto simp: elist_def add_event_def)
  next
    case (Cons x ys)
    let ?c = "c\<lparr>mp_next := (mp_next c)(e := Some x)\<rparr>"
    have "seg ?c None xs None = seg c None xs None" by (rule seg_cong) (use e in auto)
    then have "seg ?c None xs None" using c by (simp add: elist_def)
    then have "seg (add_event e c) (Some e) xs None"
      by (rule seg_set_start) (use c Cons in \<open>auto simp: elist_def add_event_def\<close>)
    then show ?thesis using c e Cons by (auto simp: elist_def add_event_def)
  qed
  show "m_next (add_event e c) = m_next c" by (simp add: add_event_def split: option.split)
qed


text \<open>The links after a removal, and the cursor.\<close>

lemma remove_event_sel:
  "mp_header (remove_event e c) = (if mp_prev c e = None then mp_next c e else mp_header c)"
  "m_next (remove_event e c) = (if m_next c = Some e then mp_next c e else m_next c)"
  "m_linked (remove_event e c) = (m_linked c)(e := False)"
  by (auto simp: remove_event_def Let_def split: option.split)

lemma remove_event_links:
  assumes "mp_prev c e \<noteq> Some e" "mp_next c e \<noteq> Some e"
  shows "mp_next (remove_event e c) = (case mp_prev c e of None \<Rightarrow> mp_next c | Some p \<Rightarrow> (mp_next c)(p := mp_next c e))(e := None)"
    "mp_prev (remove_event e c) = (case mp_next c e of None \<Rightarrow> mp_prev c | Some n \<Rightarrow> (mp_prev c)(n := mp_prev c e))(e := None)"
  using assms by (auto simp: remove_event_def Let_def split: option.split)

lemma elist_remove:
  assumes c: "elist c (as @ e # bs)"
  shows "elist (remove_event e c) (as @ bs)"
proof -
  let ?c = "remove_event e c"
  have h: "distinct (as @ e # bs)" "seg c None as (Some e)" "mp_prev c e = last_or as None" "mp_next c e = hd_or bs None"
    "seg c (Some e) bs None" "mp_header c = hd_or (as @ e # bs) None" using c by (auto simp: elist_def seg_append)
  have l: "mp_prev c e \<noteq> Some e" "mp_next c e \<noteq> Some e"
    using h(1,3,4) by (auto simp: last_or_def hd_or_def split: list.splits if_splits)
  note k = remove_event_links [OF l, unfolded h(3,4)]
  have la: "as \<noteq> [] \<Longrightarrow> last as \<notin> set bs \<and> last as \<noteq> e" using h(1) last_in_set [of as] by (metis disjoint_iff distinct.simps(2) distinct_append list.set_intros(1,2))
  let ?p = "case last_or as None of None \<Rightarrow> mp_next c | Some p \<Rightarrow> (mp_next c)(p := hd_or bs None)"
  let ?n = "case hd_or bs None of None \<Rightarrow> mp_prev c | Some n \<Rightarrow> (mp_prev c)(n := last_or as None)"
  have "seg (c\<lparr>mp_next := ?p\<rparr>) None as (hd_or bs None)"
    by (rule seg_set_end [OF h(2)]) (use h(1) in \<open>auto simp: last_or_def\<close>)
  moreover have "seg ?c None as (hd_or bs None) = seg (c\<lparr>mp_next := ?p\<rparr>) None as (hd_or bs None)"
    by (rule seg_cong) (use h(1) in \<open>auto simp: k hd_or_def split: list.splits\<close>)
  moreover have "seg (c\<lparr>mp_prev := ?n\<rparr>) (last_or as None) bs None"
    by (rule seg_set_start [OF h(5)]) (use h(1) in \<open>auto simp: hd_or_def split: list.splits\<close>)
  moreover have "seg ?c (last_or as None) bs None = seg (c\<lparr>mp_prev := ?n\<rparr>) (last_or as None) bs None"
    by (rule seg_cong) (use h(1) la in \<open>auto simp: k last_or_def\<close>)
  ultimately have s: "seg ?c None (as @ bs) None" by (simp add: seg_append)
  have "mp_header ?c = hd_or (as @ bs) None"
    unfolding remove_event_sel h(3,4,6) by (cases as) (auto simp: last_or_def)
  moreover have "mp_prev ?c x = None \<and> mp_next ?c x = None" if "x \<notin> set (as @ bs)" for x
  proof (cases "x = e")
    case False
    then have "mp_prev c x = None" "mp_next c x = None" using that c by (simp_all add: elist_def)
    moreover have "as \<noteq> [] \<Longrightarrow> x \<noteq> last as" "bs \<noteq> [] \<Longrightarrow> x \<noteq> hd bs" using that by auto
    ultimately show ?thesis using False by (cases as rule: rev_cases; cases bs) (simp_all add: k)
  qed (simp add: k)
  ultimately show ?thesis using s c by (auto simp: elist_def remove_event_sel)
qed

lemma clist_add: "clist c done todo \<Longrightarrow> e \<notin> set (done @ todo) \<Longrightarrow> clist (add_event e c) (e # done) todo"
  using elist_add [of c "done @ todo" e] by (simp add: clist_def)

lemma clist_remove:
  assumes c: "clist c done todo" and e: "e \<in> set (done @ todo)"
  shows "clist (remove_event e c) (remove1 e done) (remove1 e todo)"
proof -
  have d: "distinct (done @ todo)" "m_next c = hd_or todo None" using c by (auto simp: clist_def elist_def)
  obtain as bs where ab: "done @ todo = as @ e # bs" using split_list [OF e] by blast
  then have ea: "e \<notin> set as" "e \<notin> set bs" using d(1) by auto
  have l: "elist c (as @ e # bs)" using c ab by (simp add: clist_def)
  have "remove1 e (done @ todo) = as @ bs" unfolding ab using ea by (simp add: remove1_append)
  moreover have "e \<notin> set done \<or> e \<notin> set todo" using d(1) by auto
  then have "remove1 e (done @ todo) = remove1 e done @ remove1 e todo" by (metis remove1_append remove1_idem)
  ultimately have r: "remove1 e done @ remove1 e todo = as @ bs" by simp
  have "m_next (remove_event e c) = hd_or (remove1 e todo) None"
  proof (cases "m_next c = Some e")
    case True
    then obtain ts where t: "todo = e # ts" using d(2) by (cases todo) auto
    then have "e \<notin> set done" "e \<notin> set ts" using d(1) by auto
    then have "bs = ts" using ab t append_Cons_eq_iff [of e "done" ts as bs] by simp
    then show ?thesis using True t l by (simp add: remove_event_sel elist_def seg_append)
  next
    case False
    then show ?thesis using d(2) by (cases todo) (auto simp: remove_event_sel)
  qed
  then show ?thesis using elist_remove [OF l] r by (simp add: clist_def)
qed


interpretation ecl: cursor_list clist add_event remove_event
  by unfold_locales (use clist_add clist_remove in auto)

lemma clist_ops:
  "clist d ys zs \<Longrightarrow> clist (if e \<in> set (ys @ zs) then remove_event e d else add_event e d)
    (if e \<in> set (ys @ zs) then remove1 e ys else e # ys) (remove1 e zs)"
  using ecl.del_law [of d ys zs e] ecl.add_law [of d ys zs e] by (simp add: remove1_idem)

section \<open>Traversal\<close>

text \<open>
  What the callbacks may do while the event \<open>n\<close> is processed: remove any events through \<^verbatim>\<open>remove_event\<close>
  and add others through \<^verbatim>\<open>add_event\<close>, so that the events before the cursor are a part of those that
  were there. An event that asks to be removed must still be in the list.
\<close>

definition shrinks :: "ev list \<Rightarrow> circle \<Rightarrow> bool" where
  "shrinks todo c \<longleftrightarrow> (\<exists>done' todo'. clist c done' todo' \<and> subseq todo' todo)"

definition tame :: "(ev \<Rightarrow> circle \<times> 'w \<Rightarrow> s32 \<times> circle \<times> 'w) \<Rightarrow> (ev \<Rightarrow> circle \<times> 'w \<Rightarrow> circle \<times> 'w) \<Rightarrow> bool" where
  "tame io cl \<longleftrightarrow>
     (\<forall>n c w ys zs ret c' w'. clist c ys zs \<and> n \<in> set ys \<and> io n (c, w) = (ret, c', w') \<longrightarrow>
        (if ret = FAILURE then shrinks zs (fst (cl n (c', w')))
         else \<exists>ys' zs'. clist c' ys' zs' \<and> subseq zs' zs \<and> (ret \<noteq> RETRY \<longrightarrow> n \<in> set ys')))"

lemma step_shrinks:
  assumes "tame io cl" "clist c ys zs" "n \<in> set ys"
  shows "shrinks zs (fst (traversal_step io cl n (c, w)))"
proof -
  obtain ret c' w' where r: "io n (c, w) = (ret, c', w')" by (metis prod_cases3)
  show ?thesis
  proof (cases "ret = FAILURE")
    case True
    then show ?thesis using assms r by (fastforce simp: tame_def traversal_step_def)
  next
    case False
    then obtain ys' zs' where l: "clist c' ys' zs'" "subseq zs' zs" "ret \<noteq> RETRY \<longrightarrow> n \<in> set ys'"
      using assms r unfolding tame_def by meson
    show ?thesis
    proof (cases "ret = RETRY")
      case True
      then show ?thesis using l r by (auto simp: shrinks_def traversal_step_def)
    next
      case retry: False
      have "subseq (remove1 n zs') zs" using l(2) subseq_order.order_trans
        by (metis remove1_idem l(1,3) retry clist_def elist_def distinct_append disjoint_iff)
      then show ?thesis using clist_remove [OF l(1), of n] l(3) retry False r by (auto simp: shrinks_def traversal_step_def)
    qed
  qed
qed

text \<open>The next event comes from the cursor, which moves on.\<close>

lemma cursor_next:
  "clist c ys (n # zs) \<Longrightarrow> clist (c\<lparr>m_next := mp_next c n\<rparr>) (ys @ [n]) zs"
  using elist_next [of c "ys @ n # zs" "mp_next c n"] by (auto simp: clist_def elist_def seg_append)

lemma traversal_loop_tame:
  assumes t: "tame io cl"
  shows "clist c (ys @ [n]) zs \<Longrightarrow> \<exists>vs us c' w'. traversal_loop io cl n seen (c, w) = Some (SUCCESS, seen @ n # vs, c', w')
    \<and> subseq vs zs \<and> clist c' us []"
proof (induction zs arbitrary: c ys n seen w rule: length_induct)
  case (1 zs)
  have n: "m_next c \<noteq> Some n" using 1(2) by (cases zs) (auto simp: clist_def elist_def)
  obtain c1 w1 where s1: "traversal_step io cl n (c, w) = (c1, w1)" by fastforce
  from step_shrinks [OF t 1(2), of n w] s1 obtain ys' zs' where l: "clist c1 ys' zs'" "subseq zs' zs" by (auto simp: shrinks_def)
  show ?case
  proof (cases zs')
    case Nil
    then have "m_next c1 = None" using l(1) by (simp add: clist_def)
    then have "traversal_loop io cl n seen (c, w) = Some (SUCCESS, seen @ [n], c1, w1)"
      using n s1 by (subst traversal_loop.simps) simp
    then show ?thesis using l(1) Nil by auto
  next
    case (Cons n' us)
    have c2: "clist (c1\<lparr>m_next := mp_next c1 n'\<rparr>) (ys' @ [n']) us" using cursor_next l(1) Cons by blast
    have "m_next c1 = Some n'" using l(1) Cons by (simp add: clist_def)
    then have step: "traversal_loop io cl n seen (c, w) = traversal_loop io cl n' (seen @ [n]) (c1\<lparr>m_next := mp_next c1 n'\<rparr>, w1)"
      using n s1 by (subst traversal_loop.simps) simp
    have "length us < length zs" using list_emb_length [OF l(2)] Cons by simp
    from 1(1) [rule_format, OF this c2, of "seen @ [n]" w1] obtain vs xs c' w' where
      r: "traversal_loop io cl n' (seen @ [n]) (c1\<lparr>m_next := mp_next c1 n'\<rparr>, w1) = Some (SUCCESS, (seen @ [n]) @ n' # vs, c', w')"
        "subseq vs us" "clist c' xs []" by blast
    have "subseq (n' # vs) zs" using r(2) l(2) Cons by (metis subseq_Cons2 subseq_order.order_trans)
    then show ?thesis using step r by auto
  qed
qed


text \<open>Callbacks that run any operations of the circle, and do not fail, are of this kind.\<close>

lemma ops_tame:
  assumes "\<And>n c w. fst (io n (c, w)) = RETRY \<and> fst (snd (io n (c, w))) = run_lops add_event remove_event (prog n c w) c"
    "\<And>n c w ys zs. clist c ys zs \<Longrightarrow> sim (prog n c w) (ys, zs) \<noteq> None"
  shows "tame io cl"
  unfolding tame_def
proof (intro allI impI, elim conjE)
  fix n c w ys zs ret c' w'
  assume a: "clist c ys zs" "n \<in> set ys" "io n (c, w) = (ret, c', w')"
  obtain ys' zs' where "sim (prog n c w) (ys, zs) = Some (ys', zs')" using assms(2) [OF a(1), of n w] by fastforce
  from ecl.run_sim [OF a(1) this] assms(1) [of n c w] a(3)
  show "if ret = FAILURE then shrinks zs (fst (cl n (c', w')))
    else \<exists>ys' zs'. clist c' ys' zs' \<and> subseq zs' zs \<and> (ret \<noteq> RETRY \<longrightarrow> n \<in> set ys')" by auto
qed

text \<open>Callbacks that leave the list to the traversal, with the verdict \<open>v n\<close> on the event \<open>n\<close>.\<close>

definition steady :: "(ev \<Rightarrow> circle \<times> 'w \<Rightarrow> s32 \<times> circle \<times> 'w) \<Rightarrow> (ev \<Rightarrow> s32) \<Rightarrow> bool" where
  "steady io v \<longleftrightarrow> (\<forall>n. v n \<noteq> FAILURE) \<and> (\<forall>n c w. \<exists>w'. io n (c, w) = (v n, c, w'))"

lemma steady_tame:
  assumes "steady io v"
  shows "tame io cl"
proof -
  have "ret = v n \<and> c' = c \<and> ret \<noteq> FAILURE" if "io n (c, w) = (ret, c', w')" for n c w ret c' w'
    using assms that unfolding steady_def by (metis prod.inject)
  then show ?thesis unfolding tame_def by (metis subseq_order.order_refl)
qed

lemma traversal_loop_steady:
  assumes p: "steady io v"
  shows "clist c (ys @ [n]) zs \<Longrightarrow> \<exists>c' w'. traversal_loop io cl n seen (c, w) = Some (SUCCESS, seen @ n # zs, c', w')
    \<and> elist c' (ys @ filter (\<lambda>e. v e = RETRY) (n # zs))"
proof (induction zs arbitrary: c ys n seen w)
  case Nil
  obtain w1 where io: "io n (c, w) = (v n, c, w1)" "v n \<noteq> FAILURE" using p by (meson steady_def)
  have d: "n \<notin> set ys" "m_next c = None" using Nil by (auto simp: clist_def elist_def)
  have "clist (remove_event n c) ys []" using clist_remove [OF Nil, of n] d(1) by (simp add: remove1_append)
  then show ?case using io d Nil by (subst traversal_loop.simps) (simp add: traversal_step_def clist_def)
next
  case (Cons z zs)
  obtain w1 where io: "io n (c, w) = (v n, c, w1)" "v n \<noteq> FAILURE" using p by (meson steady_def)
  have d: "n \<notin> set ys" "n \<noteq> z" "n \<notin> set zs" "m_next c = Some z" using Cons(2) by (auto simp: clist_def elist_def)
  define c1 where "c1 = (if v n = RETRY then c else remove_event n c)"
  define ys1 where "ys1 = (if v n = RETRY then ys @ [n] else ys)"
  have c1: "clist c1 ys1 (z # zs)"
    using Cons(2) clist_remove [OF Cons(2), of n] d by (simp add: c1_def ys1_def remove1_append remove1_idem)
  have m: "m_next c1 = Some z" using c1 by (simp add: clist_def)
  have "traversal_step io cl n (c, w) = (c1, w1)" using io by (simp add: traversal_step_def c1_def)
  then have step: "traversal_loop io cl n seen (c, w) = traversal_loop io cl z (seen @ [n]) (c1\<lparr>m_next := mp_next c1 z\<rparr>, w1)"
    using m d by (subst traversal_loop.simps) simp
  from Cons(1) [OF cursor_next [OF c1], of "seen @ [n]" w1] show ?case unfolding step by (auto simp: ys1_def)
qed

section \<open>Properties\<close>


text \<open>An empty circle.\<close>

definition circle0 :: circle where
  "circle0 = \<lparr>mp_prev = \<lambda>_. None, mp_next = \<lambda>_. None, m_linked = \<lambda>_. False, mp_header = None, m_next = None\<rparr>"

lemma circle0_list: "elist (add_event 3 (add_event 2 (add_event 1 circle0))) [3, 2, 1]"
  by (intro elist_add(1)) (simp_all add: elist_def circle0_def)


text \<open>
  \<^verbatim>\<open>remove_event\<close> does not look at \<^verbatim>\<open>m_linked\<close>: for an event that is not in the list \<^verbatim>\<open>mp_prev\<close> is null,
  so that the header is set to null and all pending events are lost.
\<close>

lemma remove_unlinked: "elist c xs \<Longrightarrow> e \<notin> set xs \<Longrightarrow> mp_header (remove_event e c) = None"
  by (simp add: remove_event_sel elist_def)

end
