(* ===== verification/Connections.thy ===== *)
theory Connections
  imports Timer Event_Circle
begin

text \<open>
  Connections and their time-out (\<^verbatim>\<open>src/src/base/base_connect.cpp\<close>, \<^verbatim>\<open>base_connect_timer.cpp\<close>,
  \<^verbatim>\<open>timer/pure_timer_event.cpp\<close> and the loop of \<^verbatim>\<open>base_circle.cpp\<close>). A connection is named by the address of
  its timer event \<^verbatim>\<open>m_cto\<close>. The clock stands still while the timers are processed. What belongs to epoll,
  to sockets and to the subclass (\<^verbatim>\<open>circle_logout\<close>, \<^verbatim>\<open>close\<close>, \<^verbatim>\<open>connect_remove\<close>) acts on the part \<open>rest\<close>
  of the state through the functions of \<open>conn_env\<close>.
\<close>

section \<open>Model\<close>

definition BC_TIMEOUT :: int where "BC_TIMEOUT = 30000"

record 'x conn_env =
  e_logout :: "node \<Rightarrow> 'x \<Rightarrow> 'x"
  e_close :: "int \<Rightarrow> 'x \<Rightarrow> 'x"
  e_connect_remove :: "node \<Rightarrow> 'x \<Rightarrow> 'x"

record 'x conn_w =
  cur_tv :: timeval
  m_pc :: "node \<Rightarrow> bool"
  m_closed :: "node \<Rightarrow> bool"
  m_active_ms :: "node \<Rightarrow> 64 word"
  m_ptarray :: "node \<Rightarrow> node option list"
  m_rdev :: "node \<Rightarrow> ev"
  m_wrev :: "node \<Rightarrow> ev"
  m_sockfd :: "node \<Rightarrow> int"
  circ :: circle
  conns :: int
  rest :: 'x

text \<open>\<^verbatim>\<open>tv.tv_sec*1000 + tv.tv_usec/1000\<close>, computed as \<^verbatim>\<open>long\<close>.\<close>

definition tv_ms :: "timeval \<Rightarrow> 64 word" where
  "tv_ms tv = word_of_int (fst tv * 1000 + snd tv div 1000)"

definition update_active :: "node \<Rightarrow> 'x conn_w \<Rightarrow> 'x conn_w" where
  "update_active k w = w\<lparr>m_active_ms := (m_active_ms w)(k := tv_ms (cur_tv w))\<rparr>"

definition circle_add_timer_event :: "64 word \<Rightarrow> node \<Rightarrow> timer \<times> 'x conn_w \<Rightarrow> (s32 \<times> timer \<times> 'x conn_w) option" where
  "circle_add_timer_event t k st = map_option (\<lambda>(r, tm). (r, tm, snd st)) (pure_add_timer (cur_tv (snd st)) t k (fst st))"

definition circle_delete_timer_event :: "node \<Rightarrow> timer \<times> 'x conn_w \<Rightarrow> (s32 \<times> timer \<times> 'x conn_w) option" where
  "circle_delete_timer_event k st = map_option (\<lambda>(r, tm). (r, tm, snd st)) (pure_delete_timer k (fst st))"

text \<open>\<^verbatim>\<open>s32 diff = now - m_active_ms\<close>.\<close>

definition idle_ms :: "node \<Rightarrow> 'x conn_w \<Rightarrow> int" where
  "idle_ms k w = sint (ucast (tv_ms (cur_tv w) - m_active_ms w k) :: 32 word)"

definition check_timeout :: "node \<Rightarrow> timer \<times> 'x conn_w \<Rightarrow> (s32 \<times> timer \<times> 'x conn_w) option" where
  "check_timeout k st =
     (if idle_ms k (snd st) > BC_TIMEOUT then Some (FAILURE, st)
      else map_option (\<lambda>(_, st'). (SUCCESS, st')) (circle_add_timer_event (word_of_int BC_TIMEOUT) k st))"

definition init_timer :: "node \<Rightarrow> timer \<times> 'x conn_w \<Rightarrow> (timer \<times> 'x conn_w) option" where
  "init_timer k st = map_option snd (circle_add_timer_event (word_of_int BC_TIMEOUT) k (fst st, update_active k (snd st)))"

text \<open>\<^verbatim>\<open>delete m_ptarray[i]\<close> runs the destructor of the event.\<close>

fun destroy_slots :: "node option list \<Rightarrow> timer \<Rightarrow> timer option" where
  "destroy_slots [] tm = Some tm"
| "destroy_slots (None # es) tm = destroy_slots es tm"
| "destroy_slots (Some e # es) tm = (case timer_event_destroy e tm of None \<Rightarrow> None | Some tm' \<Rightarrow> destroy_slots es tm')"

definition remove_timer_event :: "node \<Rightarrow> timer \<times> 'x conn_w \<Rightarrow> (timer \<times> 'x conn_w) option" where
  "remove_timer_event k st =
     (case (if m_pc (snd st) k then map_option snd (circle_delete_timer_event k st) else Some st) of None \<Rightarrow> None
      | Some (tm, w) \<Rightarrow> (case destroy_slots (m_ptarray w k) tm of None \<Rightarrow> None
         | Some tm' \<Rightarrow> Some (tm', w\<lparr>m_ptarray := (m_ptarray w)(k := map (\<lambda>_. None) (m_ptarray w k))\<rparr>)))"

definition conn_remove_event :: "node \<Rightarrow> 'x conn_w \<Rightarrow> 'x conn_w" where
  "conn_remove_event k w =
     (if m_pc w k then w\<lparr>circ := remove_event (m_wrev w k) (remove_event (m_rdev w k) (circ w))\<rparr> else w)"

text \<open>\<^verbatim>\<open>close_sockfd\<close> closes the descriptor and sets it to \<^verbatim>\<open>NULL\<close>, 0.\<close>

definition close_epoll_sock :: "'x conn_env \<Rightarrow> node \<Rightarrow> 'x conn_w \<Rightarrow> 'x conn_w" where
  "close_epoll_sock env k w =
     (let w1 = (if m_pc w k then w\<lparr>rest := e_logout env k (rest w)\<rparr> else w)
      in w1\<lparr>rest := e_close env (m_sockfd w1 k) (rest w1), m_sockfd := (m_sockfd w1)(k := 0)\<rparr>)"

text \<open>\<open>None\<close> also stands for the access through a null \<^verbatim>\<open>m_pc\<close>.\<close>

definition connect_close :: "'x conn_env \<Rightarrow> node \<Rightarrow> timer \<times> 'x conn_w \<Rightarrow> (s32 \<times> timer \<times> 'x conn_w) option" where
  "connect_close env k st =
     (case remove_timer_event k (fst st, (snd st)\<lparr>m_closed := (m_closed (snd st))(k := True)\<rparr>) of None \<Rightarrow> None
      | Some (tm, w1) \<Rightarrow>
          let w2 = conn_remove_event k w1;
              w3 = close_epoll_sock env k w2
          in if m_pc w3 k
             then Some (SUCCESS, tm, w3\<lparr>rest := e_connect_remove env k (rest w3), conns := conns w3 - 1\<rparr>)
             else None)"

text \<open>\<^verbatim>\<open>CBase_connect_timer::handle_expire_timer\<close> and \<^verbatim>\<open>CPure_timer_event::handle_expire_timer_ex\<close>.\<close>

definition handle_expire_timer :: "node \<Rightarrow> timer \<times> 'x conn_w \<Rightarrow> (s32 \<times> timer \<times> 'x conn_w) option" where
  "handle_expire_timer k st = check_timeout k st"

definition handle_expire_timer_ex :: "'x conn_env \<Rightarrow> node \<Rightarrow> timer \<times> 'x conn_w \<Rightarrow> (timer \<times> 'x conn_w) option" where
  "handle_expire_timer_ex env k st =
     (case (if m_closed (snd st) k then map_option snd (connect_close env k st) else Some st) of None \<Rightarrow> None
      | Some st1 \<Rightarrow> (case handle_expire_timer k st1 of None \<Rightarrow> None
         | Some (ret, st2) \<Rightarrow> if ret = FAILURE then map_option snd (connect_close env k st2) else Some st2))"

section \<open>The time-out of one connection\<close>

text \<open>A connection that is open, belongs to a circle and has no timers of its own.\<close>

definition plain :: "'x conn_w \<Rightarrow> node \<Rightarrow> bool" where
  "plain w k \<longleftrightarrow> m_pc w k \<and> \<not> m_closed w k \<and> (\<forall>e \<in> set (m_ptarray w k). e = None)"

lemma destroy_slots_empty: "(\<forall>e \<in> set es. e = None) \<Longrightarrow> destroy_slots es tm = Some tm"
  by (induction es tm rule: destroy_slots.induct) auto

definition timed_out :: "'x conn_w \<Rightarrow> node \<Rightarrow> bool" where
  "timed_out w k \<longleftrightarrow> idle_ms k w > BC_TIMEOUT"

text \<open>What the handling of other connections leaves alone.\<close>

definition same_conns :: "node set \<Rightarrow> 'x conn_w \<Rightarrow> 'x conn_w \<Rightarrow> bool" where
  "same_conns K w w' \<longleftrightarrow> cur_tv w' = cur_tv w \<and> m_active_ms w' = m_active_ms w \<and> m_pc w' = m_pc w
     \<and> (\<forall>k. k \<notin> K \<longrightarrow> m_closed w' k = m_closed w k \<and> m_ptarray w' k = m_ptarray w k)"

lemma handle_timed_out:
  assumes t: "tinv tm xs" and k: "k \<notin> set xs" "plain w k" "timed_out w k"
  shows "\<exists>w'. handle_expire_timer_ex env k (tm, w) = Some (tm, w') \<and> same_conns {k} w w' \<and> m_closed w' k \<and> conns w' = conns w - 1"
proof -
  let ?w = "w\<lparr>m_closed := (m_closed w)(k := True)\<rparr>"
  have "remove_timer_event k (tm, ?w) = Some (tm, ?w\<lparr>m_ptarray := (m_ptarray w)(k := map (\<lambda>_. None) (m_ptarray w k))\<rparr>)"
    using k(2) delete_timer_idle [OF t k(1)] destroy_slots_empty
    by (simp add: remove_timer_event_def circle_delete_timer_event_def plain_def)
  then have "\<exists>w'. connect_close env k (tm, w) = Some (SUCCESS, tm, w') \<and> same_conns {k} w w' \<and> m_closed w' k \<and> conns w' = conns w - 1"
    using k(2) by (simp add: connect_close_def conn_remove_event_def close_epoll_sock_def Let_def plain_def same_conns_def)
  then show ?thesis using k(2,3)
    by (auto simp: handle_expire_timer_ex_def handle_expire_timer_def check_timeout_def plain_def timed_out_def)
qed

lemma handle_active:
  fixes w :: "'x conn_w"
  assumes t: "tinv tm xs" and k: "idle k tm xs" "plain w k" "\<not> timed_out w k"
  defines "ky \<equiv> (deadline tm)(k := 30000 + pure_get_msec (cur_tv w))"
  shows "\<exists>tm'. handle_expire_timer_ex env k (tm, w) = Some (tm', w) \<and> tinv tm' (enter ky k xs) \<and> deadline tm' = ky"
  using add_timer_ok [OF t, of k "cur_tv w" 30000] k
  by (auto simp: handle_expire_timer_ex_def handle_expire_timer_def check_timeout_def plain_def timed_out_def
      circle_add_timer_event_def idle_def BC_TIMEOUT_def ky_def)


section \<open>The sweep over the timers\<close>

lemma same_conns_timed_out: "same_conns K w w' \<Longrightarrow> timed_out w' = timed_out w"
  by (rule ext) (simp add: same_conns_def timed_out_def idle_ms_def)

lemma same_conns_plain: "same_conns K w w' \<Longrightarrow> k \<notin> K \<Longrightarrow> plain w' k = plain w k"
  by (simp add: same_conns_def plain_def)

text \<open>A re-armed event goes behind those that are due.\<close>

lemma takeWhile_enter:
  "now < ky z \<Longrightarrow> takeWhile (\<lambda>x. ky x \<le> now) (enter ky z xs) = takeWhile (\<lambda>x. ky x \<le> now) xs"
proof (induction xs)
  case (Cons x xs)
  show ?case
  proof (cases "ky x \<le> now")
    case True
    then have "ky x \<le> ky z" using Cons(2) by (meson less_imp_le order_trans)
    then show ?thesis using Cons True by simp
  next
    case False
    moreover have "\<not> ky z \<le> now" using Cons(2) by (simp add: linorder_not_le)
    ultimately show ?thesis by simp
  qed
qed (simp add: linorder_not_le)

definition swept :: "64 word \<Rightarrow> timer \<Rightarrow> node list \<Rightarrow> 'x conn_w \<Rightarrow> node list \<Rightarrow> timer \<Rightarrow> 'x conn_w \<Rightarrow> bool" where
  "swept now tm xs w fired tm' w' \<longleftrightarrow> fired = takeWhile (\<lambda>k. deadline tm k \<le> now) xs
     \<and> (\<exists>ys. tinv tm' ys \<and> set ys = set xs - {k \<in> set fired. timed_out w k}
          \<and> (\<forall>k \<in> set ys. deadline tm' k = (if k \<in> set fired then 30000 + pure_get_msec (cur_tv w) else deadline tm k)))
     \<and> (\<forall>k. m_closed w' k \<longleftrightarrow> m_closed w k \<or> k \<in> set fired \<and> timed_out w k)
     \<and> conns w' = conns w - int (length (filter (timed_out w) fired))"

lemma swept_stop: "tinv tm xs \<Longrightarrow> due now tm xs = {} \<Longrightarrow> swept now tm xs w [] tm w"
  by (cases xs) (auto simp: swept_def due_def)

text \<open>The first event is handled, the rest is swept.\<close>

lemma swept_close:
  assumes s: "swept now tm1 xs w1 fired tm' w'" and t: "tinv tm (x # xs)" and d: "deadline tm x \<le> now" "deadline tm1 = (deadline tm)(x := 0)"
    and c: "same_conns {x} w w1" "m_closed w1 x" "conns w1 = conns w - 1" "timed_out w x"
  shows "swept now tm (x # xs) w (x # fired) tm' w'"
proof -
  have x: "x \<notin> set xs" using tinvD(4) [OF t] by simp
  have e: "takeWhile (\<lambda>k. deadline tm1 k \<le> now) xs = takeWhile (\<lambda>k. deadline tm k \<le> now) xs"
    using d(2) x by (auto intro: takeWhile_cong)
  have f: "fired = takeWhile (\<lambda>k. deadline tm k \<le> now) xs" using s e by (simp add: swept_def)
  then have xf: "x \<notin> set fired" using x set_takeWhileD by metis
  note to = same_conns_timed_out [OF c(1)]
  from s obtain ys where ys: "tinv tm' ys" "set ys = set xs - {k \<in> set fired. timed_out w k}"
    "\<forall>k \<in> set ys. deadline tm' k = (if k \<in> set fired then 30000 + pure_get_msec (cur_tv w1) else deadline tm1 k)"
    "\<forall>k. m_closed w' k \<longleftrightarrow> m_closed w1 k \<or> k \<in> set fired \<and> timed_out w k"
    "conns w' = conns w1 - int (length (filter (timed_out w) fired))" unfolding swept_def to by blast
  have "set ys = set (x # xs) - {k \<in> set (x # fired). timed_out w k}" using ys(2) x c(4) by auto
  moreover have "\<forall>k \<in> set ys. deadline tm' k = (if k \<in> set (x # fired) then 30000 + pure_get_msec (cur_tv w) else deadline tm k)"
    using ys(2,3) x d(2) c(1) by (auto simp: same_conns_def)
  moreover have "\<forall>k. m_closed w' k \<longleftrightarrow> m_closed w k \<or> k \<in> set (x # fired) \<and> timed_out w k"
    using ys(4) c by (auto simp: same_conns_def)
  ultimately show ?thesis unfolding swept_def using ys(1,5) f d(1) c(3,4) by auto
qed

lemma swept_rearm:
  assumes s: "swept now tm2 (enter (deadline tm2) x xs) w fired tm' w'" and t: "tinv tm (x # xs)" and d: "deadline tm x \<le> now"
    "deadline tm2 = (deadline tm)(x := 30000 + pure_get_msec (cur_tv w))" "now < 30000 + pure_get_msec (cur_tv w)" and c: "\<not> timed_out w x"
  shows "swept now tm (x # xs) w (x # fired) tm' w'"
proof -
  have x: "x \<notin> set xs" using tinvD(4) [OF t] by simp
  have e: "takeWhile (\<lambda>k. deadline tm2 k \<le> now) xs = takeWhile (\<lambda>k. deadline tm k \<le> now) xs"
    using d(2) x by (auto intro: takeWhile_cong)
  have "now < deadline tm2 x" using d(2,3) by simp
  from takeWhile_enter [of now "deadline tm2" x, OF this, of xs] have f: "fired = takeWhile (\<lambda>k. deadline tm k \<le> now) xs" using s e by (simp add: swept_def)
  then have xf: "x \<notin> set fired" using x set_takeWhileD by metis
  from s obtain ys where ys: "tinv tm' ys" "set ys = insert x (set xs) - {k \<in> set fired. timed_out w k}"
    "\<forall>k \<in> set ys. deadline tm' k = (if k \<in> set fired then 30000 + pure_get_msec (cur_tv w) else deadline tm2 k)"
    "\<forall>k. m_closed w' k \<longleftrightarrow> m_closed w k \<or> k \<in> set fired \<and> timed_out w k"
    "conns w' = conns w - int (length (filter (timed_out w) fired))" unfolding swept_def set_enter by blast
  have "set ys = set (x # xs) - {k \<in> set (x # fired). timed_out w k}" using ys(2) c by auto
  moreover have "\<forall>k \<in> set ys. deadline tm' k = (if k \<in> set (x # fired) then 30000 + pure_get_msec (cur_tv w) else deadline tm k)"
    using ys(3) d(2) xf by auto
  moreover have "\<forall>k. m_closed w' k \<longleftrightarrow> m_closed w k \<or> k \<in> set (x # fired) \<and> timed_out w k" using ys(4) c by auto
  ultimately show ?thesis unfolding swept_def using ys(1,5) f d(1) c by auto
qed


lemma timer_sweep:
  assumes clock: "now < 30000 + pure_get_msec tv" "window now (30000 + pure_get_msec tv)"
  shows "tinv tm xs \<Longrightarrow> windows now tm xs \<Longrightarrow> \<forall>k \<in> set xs. plain w k \<Longrightarrow> cur_tv w = tv
    \<Longrightarrow> \<exists>fired tm' w'. timer_process_loop (handle_expire_timer_ex env) now acc (tm, w) = Some (- 1, acc @ fired, tm', w')
      \<and> swept now tm xs w fired tm' w'"
proof (induction "length (takeWhile (\<lambda>k. deadline tm k \<le> now) xs)" arbitrary: tm xs w acc rule: less_induct)
  case less
  let ?h = "handle_expire_timer_ex env"
  show ?case
  proof (cases "due now tm xs = {}")
    case True
    then show ?thesis using process_stop [OF less(2,3) True, of ?h acc w] swept_stop [OF less(2) True, of w] by fastforce
  next
    case False
    from due_first [OF less(2) False] obtain x xs' where x: "xs = x # xs'" "deadline tm x \<le> now" by blast
    have e: "expired now (deadline tm x)" using expired_iff [of now "deadline tm x"] less(3) x by (auto simp: windows_def)
    from process_step [OF less(2) [unfolded x(1)] e] obtain tm1 where
      step: "timer_process_loop ?h now acc (tm, w) = Option.bind (?h x (tm1, w)) (timer_process_loop ?h now (acc @ [x]))"
      and t1: "tinv tm1 xs'" "windows now tm1 xs'" "deadline tm1 = (deadline tm)(x := 0)" "idle x tm1 xs'" using less(3) x(1) by metis
    have xn: "x \<notin> set xs'" using t1(4) by (simp add: idle_def)
    have px: "plain w x" "\<forall>k \<in> set xs'. plain w k" using less(4) x(1) by auto
    have tw: "takeWhile (\<lambda>k. deadline tm1 k \<le> now) xs' = takeWhile (\<lambda>k. deadline tm k \<le> now) xs'"
      using t1(3) xn by (auto intro: takeWhile_cong)
    show ?thesis
    proof (cases "timed_out w x")
      case True
      from handle_timed_out [OF t1(1) xn px(1) True, of env] obtain w1 where
        w1: "?h x (tm1, w) = Some (tm1, w1)" "same_conns {x} w w1" "m_closed w1 x" "conns w1 = conns w - 1" by blast
      have p1: "\<forall>k \<in> set xs'. plain w1 k" "cur_tv w1 = tv"
        using px(2) xn same_conns_plain [OF w1(2)] w1(2) less(5) by (metis singletonD, simp add: same_conns_def)
      from less(1) [OF _ t1(1,2) p1, of "acc @ [x]"] tw x obtain fired tm' w' where
        r: "timer_process_loop ?h now (acc @ [x]) (tm1, w1) = Some (- 1, (acc @ [x]) @ fired, tm', w')" "swept now tm1 xs' w1 fired tm' w'" by auto
      have "swept now tm xs w (x # fired) tm' w'"
        using swept_close [OF r(2) less(2) [unfolded x(1)] x(2) t1(3) w1(2-4) True] x(1) by simp
      then show ?thesis using step w1(1) r(1) by auto
    next
      case act: False
      from handle_active [OF t1(1,4) px(1) act, of env] obtain tm2 where
        h: "?h x (tm1, w) = Some (tm2, w)" and t2: "tinv tm2 (enter (deadline tm2) x xs')"
          "deadline tm2 = (deadline tm)(x := 30000 + pure_get_msec tv)" using t1(3) less(5) by auto
      have wn: "windows now tm2 (enter (deadline tm2) x xs')" using t1(2,3) t2(2) clock(2) xn by (auto simp: windows_def)
      have nx: "now < deadline tm2 x" using t2(2) clock(1) by simp
      have tw2: "takeWhile (\<lambda>k. deadline tm2 k \<le> now) xs' = takeWhile (\<lambda>k. deadline tm k \<le> now) xs'"
        using t2(2) xn by (auto intro: takeWhile_cong)
      have p2: "\<forall>k \<in> set (enter (deadline tm2) x xs'). plain w k" using px by simp
      have "length (takeWhile (\<lambda>k. deadline tm2 k \<le> now) (enter (deadline tm2) x xs')) < length (takeWhile (\<lambda>k. deadline tm k \<le> now) xs)"
        using takeWhile_enter [of now "deadline tm2" x, OF nx, of xs'] tw2 x by simp
      from less(1) [OF this t2(1) wn p2 less(5), of "acc @ [x]"] obtain fired tm' w' where
        r: "timer_process_loop ?h now (acc @ [x]) (tm2, w) = Some (- 1, (acc @ [x]) @ fired, tm', w')"
          "swept now tm2 (enter (deadline tm2) x xs') w fired tm' w'" by auto
      have "swept now tm xs w (x # fired) tm' w'"
        using swept_rearm [OF r(2) less(2) [unfolded x(1)] x(2)] t2(2) less(5) clock(1) act x(1) by simp
      then show ?thesis using step h r(1) by auto
    qed
  qed
qed


section \<open>Properties\<close>


definition conn_env0 :: "unit conn_env" where
  "conn_env0 = \<lparr>e_logout = \<lambda>_ x. x, e_close = \<lambda>_ x. x, e_connect_remove = \<lambda>_ x. x\<rparr>"

definition conn0 :: "unit conn_w" where
  "conn0 = \<lparr>cur_tv = (50, 0), m_pc = \<lambda>_. True, m_closed = \<lambda>_. False, m_active_ms = \<lambda>_. 0, m_ptarray = \<lambda>_. replicate 8 None,
     m_rdev = \<lambda>k. 2 * k, m_wrev = \<lambda>k. 2 * k + 1, m_sockfd = \<lambda>_. 7, circ = circle0, conns = 1, rest = ()\<rparr>"


text \<open>
  Closing a connection removes its write event from the list even when it is not in it; the header of the
  circle is then null, although the events of other connections are still marked as linked: they are never
  processed.
\<close>

theorem close_loses_events:
  assumes "tinv tm ts" "k \<notin> set ts" "plain w k" "elist (circ w) xs" "m_rdev w k \<in> set xs" "m_wrev w k \<notin> set xs"
  shows "\<exists>w'. connect_close env k (tm, w) = Some (SUCCESS, tm, w') \<and> mp_header (circ w') = None
    \<and> (\<forall>e \<in> set xs - {m_rdev w k}. m_linked (circ w') e)"
proof -
  let ?w = "w\<lparr>m_closed := (m_closed w)(k := True)\<rparr>"
  have r: "remove_timer_event k (tm, ?w) = Some (tm, ?w\<lparr>m_ptarray := (m_ptarray w)(k := map (\<lambda>_. None) (m_ptarray w k))\<rparr>)"
    using assms(3) delete_timer_idle [OF assms(1,2)] destroy_slots_empty
    by (simp add: remove_timer_event_def circle_delete_timer_event_def plain_def)
  obtain as bs where ab: "xs = as @ m_rdev w k # bs" using split_list [OF assms(5)] by blast
  have l: "elist (remove_event (m_rdev w k) (circ w)) (as @ bs)" using elist_remove assms(4) ab by blast
  have n: "m_wrev w k \<notin> set (as @ bs)" using assms(6) ab by auto
  have "m_linked (remove_event (m_wrev w k) (remove_event (m_rdev w k) (circ w))) e" if "e \<in> set xs - {m_rdev w k}" for e
    using that assms(4,6) by (auto simp: remove_event_sel(3) elist_def)
  then show ?thesis using r assms(3) remove_unlinked [OF l n]
    by (simp add: connect_close_def conn_remove_event_def close_epoll_sock_def Let_def plain_def)
qed


theorem close_loses_events_witness:
  "\<exists>w'. connect_close conn_env0 5 (timer0, conn0\<lparr>circ := add_event 3 (add_event 10 circle0)\<rparr>) = Some (SUCCESS, timer0, w')
     \<and> mp_header (circ w') = None \<and> m_linked (circ w') 3"
proof -
  let ?w = "conn0\<lparr>circ := add_event 3 (add_event 10 circle0)\<rparr>"
  have "elist (circ ?w) [3, 10]" by (simp, intro elist_add(1)) (simp_all add: elist_def circle0_def)
  moreover have "plain ?w 5" "m_rdev ?w 5 = 10" "m_wrev ?w 5 = 11" by (simp_all add: plain_def conn0_def)
  ultimately show ?thesis using close_loses_events [OF timer0_inv, of 5 ?w "[3, 10]" conn_env0] by auto
qed

end
