(* ===== verification/Circle_Loop.thy ===== *)
theory Circle_Loop
  imports Connections
begin

text \<open>
  The loop of a circle: construction, \<^verbatim>\<open>circle_init\<close> and \<^verbatim>\<open>process\<close> of \<^verbatim>\<open>src/src/base/base_circle.cpp\<close>, round by
  round. The classes of epoll, which are not in the repository, are the functions of \<open>epoll_env\<close>: adding
  and removing the listening socket, and waiting for events with a time-out, which may change the timers
  and the connections.
\<close>

section \<open>Model\<close>

record circle_ctl =
  m_sigstop :: bool
  max_sub_conns :: int
  lock_held :: bool
  epoll_in_sign :: bool
  conns_to_unlock :: int
  next_trylock_time :: "64 word"
  listenfd_locked :: bool

record 'x epoll_env =
  ep_register :: "'x \<Rightarrow> 'x"
  ep_logout :: "'x \<Rightarrow> 'x"
  ep_process :: "int \<Rightarrow> timer \<times> 'x conn_w \<Rightarrow> (timer \<times> 'x conn_w) option"

text \<open>The constructor sets three fields; what the others hold is in \<open>junk\<close>.\<close>

definition CBase_circle :: "circle_ctl \<Rightarrow> circle_ctl" where
  "CBase_circle junk = junk\<lparr>m_sigstop := False, max_sub_conns := 4096\<rparr>"

text \<open>\<open>inited\<close>, \<open>created\<close>: the results of the two calls on the new epoll object.\<close>

definition circle_init :: "s32 \<Rightarrow> s32 \<Rightarrow> circle_ctl \<Rightarrow> s32 \<times> circle_ctl" where
  "circle_init inited created c =
     (let c = c\<lparr>listenfd_locked := False\<rparr> in
      if inited = FAILURE then (FAILURE, c) else if created = FAILURE then (FAILURE, c) else (SUCCESS, c))"

text \<open>The division of C rounds towards zero.\<close>

definition quarter :: "int \<Rightarrow> int" where
  "quarter n = (if n < 0 then - ((- n) div 4) else n div 4)"

text \<open>The part of a round that takes the lock: control, and the socket in epoll.\<close>

definition try_listen :: "'x epoll_env \<Rightarrow> 64 word \<Rightarrow> circle_ctl \<Rightarrow> 'x conn_w \<Rightarrow> circle_ctl \<times> 'x conn_w" where
  "try_listen E now c w =
     (if \<not> lock_held c \<and> now > next_trylock_time c then
        if \<not> listenfd_locked c then
          (let free_conns = max_sub_conns c - conns w in
           (c\<lparr>listenfd_locked := True, lock_held := True, epoll_in_sign := True,
              conns_to_unlock := (if quarter free_conns \<ge> 200 then 200 else quarter free_conns)\<rparr>,
            w\<lparr>rest := ep_register E (rest w)\<rparr>))
        else if epoll_in_sign c then
          (c\<lparr>epoll_in_sign := False, next_trylock_time := now + 200\<rparr>, w\<lparr>rest := ep_logout E (rest w)\<rparr>)
        else (c, w)
      else (c, w))"

text \<open>The time-out for epoll: \<^verbatim>\<open>s32 time_find\<close>, and 20 for 0.\<close>

definition wait_ms :: "64 word \<Rightarrow> int" where
  "wait_ms t = (let time_find = sint (ucast t :: 32 word) in if time_find = 0 then 20 else time_find)"

definition release_listen :: "circle_ctl \<Rightarrow> circle_ctl" where
  "release_listen c = (if conns_to_unlock c \<le> 0 then c\<lparr>listenfd_locked := False, lock_held := False\<rparr> else c)"

text \<open>One turn of \<^verbatim>\<open>while(!m_sigstop)\<close>; \<open>tv\<close> is the clock, which stands still during the turn.\<close>

definition process_round :: "'x epoll_env \<Rightarrow> 'x conn_env \<Rightarrow> timeval \<Rightarrow> circle_ctl \<Rightarrow> timer \<times> 'x conn_w \<Rightarrow> (circle_ctl \<times> timer \<times> 'x conn_w) option" where
  "process_round E env tv c = (\<lambda>(tm, w).
     let (c, w) = try_listen E (pure_get_msec tv) c w in
     (case pure_find_timer tv tm of None \<Rightarrow> None
      | Some (t, tm) \<Rightarrow>
          (case ep_process E (wait_ms t) (tm, w) of None \<Rightarrow> None
           | Some st \<Rightarrow>
               (case pure_timer_process (handle_expire_timer_ex env) tv st of None \<Rightarrow> None
                | Some (_, _, st) \<Rightarrow> Some (release_listen c, st)))))"

section \<open>The lock of the listening socket\<close>

text \<open>
  The lock is a member of each circle, so nobody else takes it: after \<^verbatim>\<open>circle_init\<close> on an idle circle it is
  held exactly when \<^verbatim>\<open>lock_held\<close> is set. Hence the branch that takes the listening socket out of epoll is
  never reached, and every circle listens.
\<close>

definition own_lock :: "circle_ctl \<Rightarrow> bool" where
  "own_lock c \<longleftrightarrow> listenfd_locked c = lock_held c"

lemma circle_init_own_lock: "\<not> lock_held c \<Longrightarrow> own_lock (snd (circle_init i k c))"
  by (simp add: circle_init_def own_lock_def Let_def)

lemma try_listen_own_lock:
  assumes "own_lock c" "try_listen E now c w = (c', w')"
  shows "own_lock c'" "rest w' = rest w \<or> rest w' = ep_register E (rest w)"
    and "epoll_in_sign c \<Longrightarrow> epoll_in_sign c'" "next_trylock_time c' = next_trylock_time c"
  using assms by (auto simp: try_listen_def own_lock_def Let_def split: if_splits)

lemma release_listen_own_lock: "own_lock c \<Longrightarrow> own_lock (release_listen c)"
  by (simp add: release_listen_def own_lock_def)

theorem process_round_own_lock:
  assumes "own_lock c" "process_round E env tv c st = Some (c', st')"
  shows "own_lock c' \<and> (epoll_in_sign c \<longrightarrow> epoll_in_sign c') \<and> next_trylock_time c' = next_trylock_time c"
proof -
  obtain tm w where st: "st = (tm, w)" by (cases st)
  obtain c1 w1 where t: "try_listen E (pure_get_msec tv) c w = (c1, w1)" by (cases "try_listen E (pure_get_msec tv) c w")
  have "c' = release_listen c1"
    using assms(2) unfolding st process_round_def by (auto simp: t split: option.splits)
  moreover have "epoll_in_sign (release_listen c1) = epoll_in_sign c1" "next_trylock_time (release_listen c1) = next_trylock_time c1"
    by (simp_all add: release_listen_def)
  ultimately show ?thesis using try_listen_own_lock [OF assms(1) t] release_listen_own_lock [of c1] by simp
qed

text \<open>A round never asks epoll to return at once.\<close>

lemma wait_ms_nonzero: "wait_ms t \<noteq> 0"
  by (simp add: wait_ms_def Let_def)

text \<open>A circle with at most three free connections gives the lock up in the round in which it took it.\<close>

lemma full_circle_unlocks:
  assumes "try_listen E now c w = (c', w')" "\<not> lock_held c" "now > next_trylock_time c" "\<not> listenfd_locked c"
    and "max_sub_conns c - conns w < 4"
  shows "\<not> lock_held (release_listen c')"
proof -
  have "quarter (max_sub_conns c - conns w) \<le> 0" using assms(5) by (auto simp: quarter_def)
  then show ?thesis using assms(1-4) by (auto simp: try_listen_def release_listen_def Let_def)
qed

end
