(* ===== verification/Sockets.thy ===== *)
theory Sockets
  imports Circle_Loop
begin

text \<open>
  Sockets: the class \<^verbatim>\<open>CBase_socket\<close> of \<^verbatim>\<open>src/src/base/base_socket.h\<close>, reading and writing of a connection
  (\<^verbatim>\<open>src/src/base/base_connect.cpp\<close>), and the calls by which a circle (\<^verbatim>\<open>src/src/base/base_circle.cpp\<close>) passes a
  socket on to epoll. The constants \<^verbatim>\<open>INVALID_SOCKET\<close> and \<^verbatim>\<open>ST_UNDEFINE\<close> come from a header that is not in the
  repository and are arguments, as the system calls are.
\<close>

section \<open>Model\<close>

record 't base_socket =
  sk_fd :: int
  sk_type :: 't

definition CBase_socket :: "int \<Rightarrow> 't \<Rightarrow> 't base_socket" where
  "CBase_socket invalid_socket st_undefine = \<lparr>sk_fd = invalid_socket, sk_type = st_undefine\<rparr>"

definition set_sockfd :: "int \<Rightarrow> 't base_socket \<Rightarrow> 't base_socket" where
  "set_sockfd i_sockfd s = s\<lparr>sk_fd := i_sockfd\<rparr>"

definition get_sockfd :: "'t base_socket \<Rightarrow> int" where
  "get_sockfd s = sk_fd s"

definition set_socktype :: "'t \<Rightarrow> 't base_socket \<Rightarrow> 't base_socket" where
  "set_socktype i_type s = s\<lparr>sk_type := i_type\<rparr>"

definition get_socktype :: "'t base_socket \<Rightarrow> 't" where
  "get_socktype s = sk_type s"

text \<open>The descriptor that is closed, and the object after: \<^verbatim>\<open>NULL\<close> is stored as the number 0.\<close>

definition close_sockfd :: "'t base_socket \<Rightarrow> int \<times> 't base_socket" where
  "close_sockfd s = (sk_fd s, s\<lparr>sk_fd := 0\<rparr>)"

text \<open>
  \<open>rd fd n\<close> is the result of \<^verbatim>\<open>read\<close> and what it puts into the buffer; a null buffer is \<open>None\<close>. The result is cut to 32 bits.
\<close>

definition cut32 :: "int \<Rightarrow> int" where
  "cut32 r = sint (word_of_int r :: 32 word)"

definition connect_read :: "(int \<Rightarrow> nat \<Rightarrow> int \<times> char list) \<Rightarrow> char list option \<Rightarrow> 32 word \<Rightarrow> 32 word \<Rightarrow> 't base_socket
    \<Rightarrow> int \<times> char list option" where
  "connect_read rd ip_buf i_buf_len i_flag s =
     (case ip_buf of None \<Rightarrow> (FAILURE, None)
      | Some buf \<Rightarrow> let (r, got) = rd (sk_fd s) (unat i_buf_len) in (cut32 r, Some (got @ drop (length got) buf)))"

definition connect_write :: "(int \<Rightarrow> char list \<Rightarrow> int) \<Rightarrow> char list option \<Rightarrow> 32 word \<Rightarrow> 32 word \<Rightarrow> 't base_socket \<Rightarrow> int" where
  "connect_write wr ip_buf i_buf_len i_flag s =
     (case ip_buf of None \<Rightarrow> FAILURE | Some buf \<Rightarrow> cut32 (wr (sk_fd s) (take (unat i_buf_len) buf)))"

text \<open>\<^verbatim>\<open>sendfile\<close> also moves the offset it is given.\<close>

definition connect_sendfile :: "(int \<Rightarrow> int \<Rightarrow> int option \<Rightarrow> nat \<Rightarrow> int \<times> int option) \<Rightarrow> int \<Rightarrow> int option \<Rightarrow> nat \<Rightarrow> 32 word \<Rightarrow> 't base_socket
    \<Rightarrow> int \<times> int option" where
  "connect_sendfile sendfile i_fd ip_offset i_size i_flag s =
     (let (r, offset') = sendfile (sk_fd s) i_fd ip_offset i_size in (cut32 r, offset'))"

text \<open>\<open>None\<close> for the epoll object is the null pointer, as the constructor of the circle leaves it: the call crashes.\<close>

definition circle_register :: "('t base_socket \<Rightarrow> s32) option \<Rightarrow> 't base_socket \<Rightarrow> s32 option" where
  "circle_register mp_epoll ip_socket = map_option (\<lambda>regesiter. regesiter ip_socket) mp_epoll"

definition circle_logout :: "('t base_socket \<Rightarrow> s32) option \<Rightarrow> 't base_socket \<Rightarrow> s32 option" where
  "circle_logout mp_epoll ip_socket = map_option (\<lambda>logout. logout ip_socket) mp_epoll"

text \<open>The destructor of the circle: the objects it deletes.\<close>

definition CBase_circle_destructor :: "'e option \<Rightarrow> 'm option \<Rightarrow> 'e list \<times> 'm list" where
  "CBase_circle_destructor mp_epoll mp_timer =
     (case mp_epoll of None \<Rightarrow> [] | Some e \<Rightarrow> [e], case mp_timer of None \<Rightarrow> [] | Some t \<Rightarrow> [t])"

section \<open>Results\<close>

lemma cut32_id: "- (2 ^ 31) \<le> r \<Longrightarrow> r < 2 ^ 31 \<Longrightarrow> cut32 r = r"
  by (simp add: cut32_def signed_of_int signed_take_bit_int_eq_self)

text \<open>
  A \<^verbatim>\<open>read\<close> as documented gives at most the number of bytes asked for: then the result tells how much of the
  buffer is new as long as less than 2 GiB are asked for, and the rest of the buffer is kept.
\<close>

lemma connect_read_prefix:
  assumes "rd (sk_fd s) (unat len) = (int (length got), got)" "length got \<le> unat len" "unat len < 2 ^ 31"
  shows "connect_read rd (Some buf) len flag s = (int (length got), Some (got @ drop (length got) buf))"
proof -
  have "int (length got) < 2 ^ 31" using assms(2,3) by simp
  then show ?thesis using assms(1) cut32_id [of "int (length got)"] by (simp add: connect_read_def)
qed

text \<open>With 3 GiB the number of bytes that were read comes back as a negative number.\<close>

lemma connect_read_negative:
  assumes "rd (sk_fd s) (unat (0xC0000000 :: 32 word)) = (0xC0000000, got)"
  shows "fst (connect_read rd (Some buf) 0xC0000000 flag s) = - 0x40000000"
proof -
  have "cut32 0xC0000000 = - 0x40000000" by code_simp
  then show ?thesis using assms by (simp add: connect_read_def)
qed

text \<open>A socket that is closed twice closes descriptor 0, the standard input, the second time.\<close>

lemma close_twice: "fst (close_sockfd (snd (close_sockfd s))) = 0"
  by (simp add: close_sockfd_def)

end
