(* ===== verification/Start_Up.thy ===== *)
theory Start_Up
  imports P_String
begin

text \<open>
  Command line and paths at start-up: \<^verbatim>\<open>get_argument\<close> of \<^verbatim>\<open>src/src/usage.cpp\<close> and \<^verbatim>\<open>get_cur_path\<close> of
  \<^verbatim>\<open>src/src/global_conf.cpp\<close>. The command line from position \<open>i\<close> on is the list of the remaining
  arguments; behind the last one C has a null pointer.
\<close>

section \<open>Command line\<close>

datatype signal_type = SIGNAL_STOP | SIGNAL_RELOAD

record argument =
  test_conf_s :: "string option"
  set_conf_s :: "string option"
  send_sig_s :: "signal_type option"
  show_help :: bool
  show_version :: bool
  test_config :: bool
  set_config :: bool
  send_signal :: bool
  debug_mode :: bool

definition DEFAULT_CONF_PATH :: string where
  "DEFAULT_CONF_PATH = ''../conf/config.conf''"

text \<open>The file name after \<^verbatim>\<open>-t\<close> or \<^verbatim>\<open>-c\<close>, and what is left of the command line.\<close>

definition opt_file :: "string list \<Rightarrow> string \<times> string list" where
  "opt_file rest =
     (case rest of
        [] \<Rightarrow> (DEFAULT_CONF_PATH, rest)
      | p # ps \<Rightarrow> if deref p \<noteq> CHR ''-'' then (p, ps) else (DEFAULT_CONF_PATH, rest))"

lemma opt_file_shorter: "length (snd (opt_file rest)) \<le> length rest"
  by (simp add: opt_file_def split: list.splits)

text \<open>
  The result is \<open>None\<close> where a null pointer is printed with \<^verbatim>\<open>%s\<close>: an unknown signal name at the end of
  the command line.
\<close>

function get_argument_loop :: "string list \<Rightarrow> argument \<Rightarrow> (bool \<times> argument) option" where
  "get_argument_loop [] a = Some (True, a)"
| "get_argument_loop (p # rest) a =
     (if deref p \<noteq> CHR ''-'' then Some (False, a)
      else let c = deref (tl p) in
        if c = CHR ''?'' \<or> c = CHR ''h'' then get_argument_loop rest (a\<lparr>show_help := True\<rparr>)
        else if c = CHR ''d'' then get_argument_loop rest (a\<lparr>debug_mode := True\<rparr>)
        else if c = CHR ''v'' then get_argument_loop rest (a\<lparr>show_version := True\<rparr>)
        else if c = CHR ''t'' then
          get_argument_loop (snd (opt_file rest)) (a\<lparr>test_config := True, test_conf_s := Some (fst (opt_file rest))\<rparr>)
        else if c = CHR ''c'' then
          get_argument_loop (snd (opt_file rest)) (a\<lparr>set_config := True, set_conf_s := Some (fst (opt_file rest))\<rparr>)
        else if c = CHR ''s'' then
          let a' = a\<lparr>send_signal := True\<rparr> in
          (case rest of
             [] \<Rightarrow> Some (False, a')
           | n # rest' \<Rightarrow>
               if deref n \<noteq> CHR ''-'' then
                 if deref n = CHR ''s'' then get_argument_loop rest' (a'\<lparr>send_sig_s := Some SIGNAL_STOP\<rparr>)
                 else if deref n = CHR ''r'' then get_argument_loop rest' (a'\<lparr>send_sig_s := Some SIGNAL_RELOAD\<rparr>)
                 else if rest' = [] then None else Some (False, a')
               else Some (False, a'))
        else Some (False, a))"
  by pat_completeness auto
termination
  by (relation "measure (length \<circ> fst)") (simp_all add: opt_file_shorter less_Suc_eq_le)

definition get_argument :: "string list \<Rightarrow> argument \<Rightarrow> (bool \<times> argument) option" where
  "get_argument argv a = get_argument_loop (drop 1 argv) a"

section \<open>The directory of the program\<close>

text \<open>A pointer into the string is the suffix it points at.\<close>

definition strchr :: "string \<Rightarrow> char \<Rightarrow> string option" where
  "strchr p c = (case dropWhile (\<lambda>x. x \<noteq> c) p of [] \<Rightarrow> None | q \<Rightarrow> Some q)"

lemma strchr_shorter: "strchr p c = Some q \<Longrightarrow> q \<noteq> [] \<and> length q \<le> length p"
  by (auto simp: strchr_def length_dropWhile_le split: list.splits dest: arg_cong [of _ _ length])

function find_last_slash :: "string \<Rightarrow> string option \<Rightarrow> string option" where
  "find_last_slash pos last_slash =
     (case strchr pos CHR ''/'' of
        None \<Rightarrow> last_slash
      | Some q \<Rightarrow> if tl q \<noteq> [] then find_last_slash (tl q) (Some q) else Some q)"
  by pat_completeness auto
termination
proof (relation "measure (length \<circ> fst)", goal_cases)
  case (2 pos last_slash q)
  then have "q \<noteq> []" "length q \<le> length pos" using strchr_shorter by blast+
  then show ?case by (cases q) auto
qed simp

declare find_last_slash.simps [simp del]

text \<open>
  Without a slash \<^verbatim>\<open>last_slash\<close> is null and the length is undetermined, here \<open>ub\<close>. \<open>Inl\<close>: the program
  exits; \<open>Inr\<close>: the output array after the copy.
\<close>

definition get_cur_path :: "string \<Rightarrow> char list \<Rightarrow> int \<Rightarrow> int \<Rightarrow> unit + char list option" where
  "get_cur_path str o_path i_l ub =
     (let len = (case find_last_slash str None of None \<Rightarrow> ub | Some q \<Rightarrow> int (length str) - int (length q)) in
      if i_l - 1 < len then Inl () else Inr (rc_strncpy o_path i_l (str @ [NUL]) len))"


section \<open>Properties\<close>

text \<open>The options of the usage text, how they are written and what they ask for.\<close>

datatype cli = Help | Debug | Version | Test "string option" | Set "string option" | Send signal_type

fun render_cli :: "cli \<Rightarrow> string list" where
  "render_cli Help = [''-h'']"
| "render_cli Debug = [''-d'']"
| "render_cli Version = [''-v'']"
| "render_cli (Test None) = [''-t'']"
| "render_cli (Test (Some f)) = [''-t'', f]"
| "render_cli (Set None) = [''-c'']"
| "render_cli (Set (Some f)) = [''-c'', f]"
| "render_cli (Send SIGNAL_STOP) = [''-s'', ''stop'']"
| "render_cli (Send SIGNAL_RELOAD) = [''-s'', ''reload'']"

fun apply_cli :: "cli \<Rightarrow> argument \<Rightarrow> argument" where
  "apply_cli Help a = a\<lparr>show_help := True\<rparr>"
| "apply_cli Debug a = a\<lparr>debug_mode := True\<rparr>"
| "apply_cli Version a = a\<lparr>show_version := True\<rparr>"
| "apply_cli (Test f) a = a\<lparr>test_config := True, test_conf_s := Some (case f of None \<Rightarrow> DEFAULT_CONF_PATH | Some n \<Rightarrow> n)\<rparr>"
| "apply_cli (Set f) a = a\<lparr>set_config := True, set_conf_s := Some (case f of None \<Rightarrow> DEFAULT_CONF_PATH | Some n \<Rightarrow> n)\<rparr>"
| "apply_cli (Send g) a = a\<lparr>send_signal := True, send_sig_s := Some g\<rparr>"

fun valid_cli :: "cli \<Rightarrow> bool" where
  "valid_cli (Test (Some f)) = (deref f \<noteq> CHR ''-'')"
| "valid_cli (Set (Some f)) = (deref f \<noteq> CHR ''-'')"
| "valid_cli _ = True"

lemma render_cli_dash:
  assumes "concat (map render_cli opts) = p # ps"
  shows "deref p = CHR ''-''"
proof (cases opts)
  case (Cons o1 os)
  then show ?thesis using assms by (cases o1 rule: render_cli.cases) auto
qed (use assms in simp)

lemma opt_file_default: "opt_file (concat (map render_cli opts)) = (DEFAULT_CONF_PATH, concat (map render_cli opts))"
  by (simp add: opt_file_def split: list.splits) (metis render_cli_dash)

lemma get_argument_loop_render:
  "list_all valid_cli opts \<Longrightarrow> get_argument_loop (concat (map render_cli opts)) a = Some (True, fold apply_cli opts a)"
proof (induction opts arbitrary: a)
  case (Cons o1 os)
  then show ?case by (cases o1 rule: render_cli.cases) (simp_all add: opt_file_default, simp_all add: opt_file_def)
qed simp

text \<open>
  A command line made of the options of the usage text is accepted, and the record says exactly
  what the options ask for, the later ones over the earlier; a file name may be left out, and then the
  default is taken.
\<close>

theorem get_argument_options:
  assumes "list_all valid_cli opts"
  shows "get_argument (prog # concat (map render_cli opts)) a = Some (True, fold apply_cli opts a)"
  using get_argument_loop_render [OF assms] by (simp add: get_argument_def)

definition no_arguments :: argument where
  "no_arguments = \<lparr>test_conf_s = None, set_conf_s = None, send_sig_s = None, show_help = False, show_version = False,
    test_config = False, set_config = False, send_signal = False, debug_mode = False\<rparr>"

theorem get_argument_options_witness:
  "\<exists>b. get_argument [''record'', ''-t'', ''-c'', ''my.conf'', ''-s'', ''reload''] no_arguments = Some (True, b)
     \<and> test_conf_s b = Some DEFAULT_CONF_PATH \<and> set_conf_s b = Some ''my.conf'' \<and> send_sig_s b = Some SIGNAL_RELOAD"
  using get_argument_options [of "[Test None, Set (Some ''my.conf''), Send SIGNAL_RELOAD]" "''record''" no_arguments] by simp

lemma strchr_found: "CHR ''/'' \<notin> set d \<Longrightarrow> strchr (d @ CHR ''/'' # r) CHR ''/'' = Some (CHR ''/'' # r)"
  by (induction d) (auto simp: strchr_def)

lemma strchr_none: "CHR ''/'' \<notin> set b \<Longrightarrow> strchr b CHR ''/'' = None"
  by (induction b) (auto simp: strchr_def)

lemma find_last_slash_last:
  assumes "CHR ''/'' \<notin> set base"
  shows "find_last_slash (dir @ CHR ''/'' # base) prev = Some (CHR ''/'' # base)"
proof (induction "length dir" arbitrary: dir prev rule: less_induct)
  case less
  show ?case
  proof (cases "CHR ''/'' \<in> set dir")
    case False
    have "find_last_slash base (Some (CHR ''/'' # base)) = Some (CHR ''/'' # base)"
      by (subst find_last_slash.simps) (simp add: strchr_none [OF assms])
    then show ?thesis using strchr_found [OF False, of base] by (subst find_last_slash.simps) simp
  next
    case True
    then obtain d e where d: "dir = d @ CHR ''/'' # e" "CHR ''/'' \<notin> set d" by (metis split_list_first)
    then have "find_last_slash (e @ CHR ''/'' # base) (Some (CHR ''/'' # e @ CHR ''/'' # base)) = Some (CHR ''/'' # base)"
      by (intro less) simp
    then show ?thesis using strchr_found [OF d(2), of "e @ CHR ''/'' # base"] unfolding d(1)
      by (subst find_last_slash.simps) simp
  qed
qed

text \<open>
  For a program name with a slash, \<^verbatim>\<open>get_cur_path\<close> stores what precedes the last one, inside the
  output array, or ends the program when that does not fit; whatever the undetermined value.
\<close>

theorem get_cur_path_dir:
  assumes "CHR ''/'' \<notin> set base" "NUL \<notin> set dir" "1 \<le> i_l" "i_l \<le> int (length o_path)"
  shows "case get_cur_path (dir @ CHR ''/'' # base) o_path i_l ub of
      Inl _ \<Rightarrow> i_l \<le> int (length dir)
    | Inr r \<Rightarrow> int (length dir) < i_l \<and> (\<exists>d. r = Some d \<and> cstr d = dir \<and> length d = length o_path)"
proof -
  let ?str = "dir @ CHR ''/'' # base"
  have len: "(case find_last_slash ?str None of None \<Rightarrow> ub | Some q \<Rightarrow> int (length ?str) - int (length q)) = int (length dir)"
    using find_last_slash_last [OF assms(1), of dir None] by simp
  show ?thesis
  proof (cases "i_l - 1 < int (length dir)")
    case True
    then show ?thesis unfolding get_cur_path_def len by simp
  next
    case False
    obtain d where d: "rc_strncpy o_path i_l (?str @ [NUL]) (int (length dir)) = Some d" "length d = length o_path"
      "cstr d = bounded_copy i_l (?str @ [NUL]) (int (length dir))"
      using rc_strncpy_bounded [of i_l o_path "int (length dir)" "?str @ [NUL]"] assms False by auto
    have "bounded_copy i_l (?str @ [NUL]) (int (length dir)) = dir"
      using False assms(2) by (simp add: bounded_copy_def cstr_simps min_def)
    then show ?thesis using d False unfolding get_cur_path_def len by simp
  qed
qed

theorem get_cur_path_dir_witness:
  "\<exists>d. get_cur_path ''/usr/sbin/record'' (replicate 256 NUL) 256 0 = Inr (Some d) \<and> cstr d = ''/usr/sbin''"
  using get_cur_path_dir [of "''record''" "''/usr/sbin''" 256 "replicate 256 NUL" 0]
  by (auto split: sum.splits)

end
