(* ===== verification/Log.thy ===== *)
theory Log
  imports Prelude
begin

text \<open>
  The log of \<^verbatim>\<open>src/src/log/pure_log.cpp\<close>: levels, the three ways of starting a new file (by time, by
  size, never), the two descriptor slots of a \<^verbatim>\<open>CLog\<close> and the line that is written. Clock, files and
  terminal are functions of \<open>log_env\<close> on a world; the caller's format and arguments are the formatted
  text. Calls do not overlap: of the flag \<^verbatim>\<open>m_busy\<close> only its own protocol is shown.
\<close>

section \<open>Model\<close>

datatype plt = LOG_TERM | LOG_CRIT | LOG_ERROR | LOG_WARN | LOG_INFO | LOG_DEBUG

fun plt_num :: "plt \<Rightarrow> nat" where
  "plt_num LOG_TERM = 0" | "plt_num LOG_CRIT = 1" | "plt_num LOG_ERROR = 2"
| "plt_num LOG_WARN = 3" | "plt_num LOG_INFO = 4" | "plt_num LOG_DEBUG = 5"

lemma plt_num_inject [simp]: "plt_num a = plt_num b \<longleftrightarrow> a = b"
  by (cases a; cases b) simp_all

text \<open>The order of the enumeration, which the comparison of levels uses.\<close>

instantiation plt :: linorder
begin

definition less_eq_plt :: "plt \<Rightarrow> plt \<Rightarrow> bool" where "a \<le> b \<longleftrightarrow> plt_num a \<le> plt_num b"

definition less_plt :: "plt \<Rightarrow> plt \<Rightarrow> bool" where "a < b \<longleftrightarrow> plt_num a < plt_num b"

instance
  by standard (auto simp: less_eq_plt_def less_plt_def)

end

fun lvl :: "plt \<Rightarrow> string" where
  "lvl LOG_TERM = ''TERM''" | "lvl LOG_CRIT = ''CRIT''" | "lvl LOG_ERROR = ''ERROR''"
| "lvl LOG_WARN = ''WARN''" | "lvl LOG_INFO = ''INFO''" | "lvl LOG_DEBUG = ''DEBUG''"

datatype stratege = PURE_LOG_TIME | PURE_LOG_SPACE | PURE_LOG_CONST
datatype time_stratege = HOUR | DAY | WEEK

record tm =
  tm_year :: int
  tm_mon :: int
  tm_mday :: int
  tm_hour :: int
  tm_min :: int
  tm_sec :: int

record clog =
  m_filename :: string
  m_stratege_type :: stratege
  m_time_stratege_type :: time_stratege
  m_amount_size :: "32 word"
  m_log_level :: plt
  m_cur_filetime :: "tm list"
  m_cur_file_size :: "32 word list"
  m_max_file_size :: "32 word"
  m_fd :: "int list"
  m_pos :: "32 word"
  m_busy :: bool

record 'w log_env =
  lo_time :: "'w \<Rightarrow> tm"
  lo_tick :: "'w \<Rightarrow> 'w"
  lo_open :: "string \<Rightarrow> 'w \<Rightarrow> int \<times> 'w"
  lo_close :: "int \<Rightarrow> 'w \<Rightarrow> 'w"
  lo_write :: "int \<Rightarrow> string \<Rightarrow> 'w \<Rightarrow> int \<times> 'w"
  lo_printf :: "string \<Rightarrow> 'w \<Rightarrow> 'w"
  lo_strerror :: "'w \<Rightarrow> string"

text \<open>\<^verbatim>\<open>%0nd\<close>, and the log_slot that \<^verbatim>\<open>m_pos & 0x1\<close> selects.\<close>

definition pad0 :: "nat \<Rightarrow> int \<Rightarrow> string" where
  "pad0 n i = (if i < 0 then ''-'' @ replicate (n - 1 - length (nat_str (nat (- i)))) CHR ''0'' @ nat_str (nat (- i))
               else replicate (n - length (nat_str (nat i))) CHR ''0'' @ nat_str (nat i))"

definition log_slot :: "32 word \<Rightarrow> nat" where "log_slot pos = unat (pos AND 1)"

definition tm0 :: tm where
  "tm0 = \<lparr>tm_year = 0, tm_mon = 0, tm_mday = 0, tm_hour = 0, tm_min = 0, tm_sec = 0\<rparr>"

definition CLog :: clog where
  "CLog = \<lparr>m_filename = '''', m_stratege_type = PURE_LOG_CONST, m_time_stratege_type = HOUR, m_amount_size = 10,
     m_log_level = LOG_DEBUG, m_cur_filetime = [tm0, tm0], m_cur_file_size = [0, 0],
     m_max_file_size = 10 * 1024 * 1024, m_fd = [-1, -1], m_pos = -1, m_busy = False\<rparr>"

definition CLog_destroy :: "'w log_env \<Rightarrow> clog \<Rightarrow> 'w \<Rightarrow> 'w" where
  "CLog_destroy L s w =
     (let w = (if m_fd s ! 0 > 0 then lo_close L (m_fd s ! 0) w else w)
      in if m_fd s ! 1 > 0 then lo_close L (m_fd s ! 1) w else w)"

definition set_log_level :: "plt \<Rightarrow> clog \<Rightarrow> clog" where
  "set_log_level i_lvl s = s\<lparr>m_log_level := i_lvl\<rparr>"

definition set_log_out_by_time :: "int \<Rightarrow> clog \<Rightarrow> clog" where
  "set_log_out_by_time h_or_d s =
     s\<lparr>m_stratege_type := PURE_LOG_TIME, m_time_stratege_type := (if h_or_d > 0 then HOUR else DAY)\<rparr>"

definition set_log_out_by_amount :: "32 word \<Rightarrow> 32 word \<Rightarrow> clog \<Rightarrow> clog" where
  "set_log_out_by_amount i_len i_size s =
     s\<lparr>m_stratege_type := PURE_LOG_SPACE, m_amount_size := i_size, m_max_file_size := i_len\<rparr>"

text \<open>
  The name of the next file; \<open>None\<close> is the division by zero of the size strategy with no files. The
  \<^verbatim>\<open>%d\<close> prints the unsigned index as an \<^verbatim>\<open>int\<close>.
\<close>

definition filename_suffix :: "tm \<Rightarrow> string" where
  "filename_suffix p = snprintf 128 (pad0 4 (tm_year p + 1900) @ pad0 2 (tm_mon p + 1) @ pad0 2 (tm_mday p)
     @ ''_'' @ pad0 2 (tm_hour p) @ ''h'')"

definition log_index :: "clog \<Rightarrow> 32 word" where
  "log_index s = (m_pos s + 1) mod m_amount_size s + 1"

definition cur_filename :: "clog \<Rightarrow> tm \<Rightarrow> string option" where
  "cur_filename s p =
     (case m_stratege_type s of
        PURE_LOG_TIME \<Rightarrow> Some (snprintf 256 (m_filename s @ ''_'' @ filename_suffix p @ ''.log''))
      | PURE_LOG_SPACE \<Rightarrow> if m_amount_size s = 0 then None
          else Some (snprintf 256 (m_filename s @ ''_'' @ dec_str (sint (log_index s)) @ ''.log''))
      | PURE_LOG_CONST \<Rightarrow> Some (snprintf 256 (m_filename s @ ''.log'')))"

definition new_file :: "'w log_env \<Rightarrow> clog \<times> 'w \<Rightarrow> (int \<times> clog \<times> 'w) option" where
  "new_file L = (\<lambda>(s, w).
     if m_busy s then Some (RETRY, s, w)
     else let s = s\<lparr>m_busy := True\<rparr>; nxt = log_slot (m_pos s + 1); ptime = lo_time L w; w = lo_tick L w;
              w = (if m_fd s ! nxt = -1 then w else lo_close L (m_fd s ! nxt) w)
          in case cur_filename s ptime of None \<Rightarrow> None
             | Some name \<Rightarrow>
                 (let (fd, w) = lo_open L name w; s = s\<lparr>m_fd := (m_fd s)[nxt := fd]\<rparr>
                  in if fd = -1 then Some (FAILURE, s\<lparr>m_busy := False\<rparr>, 
                           lo_printf L (''log mod : Open '' @ name @ '' Error:'' @ lo_strerror L w @ [CHR 0x0A]) w)
                     else Some (SUCCESS, s\<lparr>m_cur_filetime := (m_cur_filetime s)[nxt := ptime],
                                  m_cur_file_size := (m_cur_file_size s)[nxt := 0], m_pos := m_pos s + 1, m_busy := False\<rparr>, w)))"


definition date_str :: "tm \<Rightarrow> string" where
  "date_str p = snprintf 128 (''['' @ pad0 4 (tm_year p + 1900) @ ''-'' @ pad0 2 (tm_mon p + 1) @ ''-'' @ pad0 2 (tm_mday p)
     @ ''   '' @ pad0 2 (tm_hour p) @ ''-'' @ pad0 2 (tm_min p) @ ''-'' @ pad0 2 (tm_sec p) @ '']'')"

definition log_buf :: "plt \<Rightarrow> tm \<Rightarrow> string \<Rightarrow> string" where
  "log_buf i p text = snprintf 1024 (lvl i @ [CHR 0x09] @ date_str p @ [CHR 0x09] @ snprintf 512 text @ [CHR 0x0A])"

text \<open>The write at the end of every strategy, with the count of the bytes in the current file.\<close>

definition log_write :: "'w log_env \<Rightarrow> string \<Rightarrow> clog \<times> 'w \<Rightarrow> int \<times> clog \<times> 'w" where
  "log_write L buf = (\<lambda>(s, w).
     let k = log_slot (m_pos s); (ret, w) = lo_write L (m_fd s ! k) buf w
     in (ret, if ret > 0 then s\<lparr>m_cur_file_size := (m_cur_file_size s)[k := m_cur_file_size s ! k + word_of_int ret]\<rparr> else s, w))"

text \<open>The check before the strategies: a file is opened when the current log_slot has none.\<close>

definition ensure_file :: "'w log_env \<Rightarrow> bool \<Rightarrow> clog \<times> 'w \<Rightarrow> (bool \<times> clog \<times> 'w) option" where
  "ensure_file L need st = (if need then map_option (\<lambda>(r, st). (r \<noteq> FAILURE, st)) (new_file L st) else Some (True, st))"

definition log_cut :: "clog \<Rightarrow> tm \<Rightarrow> bool" where
  "log_cut s p =
     (let t = m_cur_filetime s ! log_slot (m_pos s) in
      case m_stratege_type s of
        PURE_LOG_TIME \<Rightarrow> (case m_time_stratege_type s of HOUR \<Rightarrow> tm_hour t \<noteq> tm_hour p
                          | DAY \<Rightarrow> tm_mday t \<noteq> tm_mday p | WEEK \<Rightarrow> False)
      | PURE_LOG_SPACE \<Rightarrow> \<not> m_cur_file_size s ! log_slot (m_pos s) < m_max_file_size s - 512
      | PURE_LOG_CONST \<Rightarrow> False)"

definition prt :: "'w log_env \<Rightarrow> plt \<Rightarrow> string \<Rightarrow> clog \<times> 'w \<Rightarrow> (int \<times> clog \<times> 'w) option" where
  "prt L i_log_lvl text = (\<lambda>(s, w).
     if i_log_lvl > m_log_level s then Some (0, s, w)
     else let ptime = lo_time L w; w = lo_tick L w in
       if i_log_lvl = LOG_TERM
       then Some (0, s, lo_printf L (date_str ptime @ '','' @ snprintf 512 text @ [CHR 0x0A]) w)
       else let buf = log_buf i_log_lvl ptime text in
         case ensure_file L (m_fd s ! log_slot (m_pos s) = -1) (s, w) of None \<Rightarrow> None
         | Some (ok, st) \<Rightarrow>
             if \<not> ok then Some (-1, st)
             else case ensure_file L (log_cut (fst st) ptime) st of None \<Rightarrow> None
               | Some (ok, st) \<Rightarrow>
                   if \<not> ok then Some (-1, st)
                   else let (ret, st) = log_write L buf st
                        in Some (if m_stratege_type s = PURE_LOG_CONST then 0 else ret, st))"

text \<open>\<^verbatim>\<open>init\<close> ends without a value when the name fits; \<open>None\<close> in the first component stands for that.\<close>

definition log_init :: "'w log_env \<Rightarrow> string \<Rightarrow> string \<Rightarrow> clog \<times> 'w \<Rightarrow> (int option \<times> clog \<times> 'w) option" where
  "log_init L i_path i_filename = (\<lambda>(s, w).
     if length i_path + length i_filename > 255
     then Some (Some (-1), s, lo_printf L (''Too long path and filename'' @ [CHR 0x0A]) w)
     else map_option (\<lambda>(_, st). (None, st)) (new_file L (s\<lparr>m_filename := snprintf 256 (i_path @ i_filename)\<rparr>, w)))"


text \<open>A sequence of messages and changes of the level.\<close>

datatype log_op = Prt plt string | Set_level plt

fun log_run :: "'w log_env \<Rightarrow> log_op list \<Rightarrow> clog \<times> 'w \<Rightarrow> (clog \<times> 'w) option" where
  "log_run L [] st = Some st"
| "log_run L (Prt l t # ops) st = (case prt L l t st of None \<Rightarrow> None | Some (_, st') \<Rightarrow> log_run L ops st')"
| "log_run L (Set_level l # ops) st = log_run L ops (set_log_level l (fst st), snd st)"

section \<open>The line\<close>

definition valid_tm :: "tm \<Rightarrow> bool" where
  "valid_tm p \<longleftrightarrow> 0 \<le> tm_year p \<and> tm_year p \<le> 8099 \<and> 0 \<le> tm_mon p \<and> tm_mon p \<le> 11 \<and> 0 \<le> tm_mday p \<and> tm_mday p \<le> 31
     \<and> 0 \<le> tm_hour p \<and> tm_hour p \<le> 23 \<and> 0 \<le> tm_min p \<and> tm_min p \<le> 59 \<and> 0 \<le> tm_sec p \<and> tm_sec p \<le> 60"

lemma length_nat_str:
  "n < 100 \<Longrightarrow> length (nat_str n) \<le> 2" "n < 10000 \<Longrightarrow> length (nat_str n) \<le> 4"
  by (auto simp: nat_str.simps)

lemma length_pad0:
  "0 \<le> i \<Longrightarrow> i < 100 \<Longrightarrow> length (pad0 2 i) = 2" "0 \<le> i \<Longrightarrow> i < 10000 \<Longrightarrow> length (pad0 4 i) = 4"
  using length_nat_str [of "nat i"] by (simp_all add: pad0_def)

lemma length_date_str: "valid_tm p \<Longrightarrow> length (date_str p) = 23"
  by (simp add: date_str_def snprintf_def valid_tm_def length_pad0)

lemma length_lvl: "length (lvl i) \<le> 5"
  by (cases i) simp_all

text \<open>The buffer of 1024 bytes never cuts a line; only the text was cut, to 511 bytes.\<close>

lemma log_buf_complete:
  "valid_tm p \<Longrightarrow> log_buf i p text = lvl i @ [CHR 0x09] @ date_str p @ [CHR 0x09] @ take 511 text @ [CHR 0x0A]"
  using length_lvl [of i] length_date_str [of p] by (simp add: log_buf_def snprintf_def)

lemma length_log_buf: "valid_tm p \<Longrightarrow> length (log_buf i p text) \<le> 542"
  using length_lvl [of i] length_date_str [of p] by (simp add: log_buf_complete)

section \<open>Descriptors and sizes\<close>

text \<open>
  \<open>fds w\<close> are the open descriptors of the log. Opening fails with \<open>-1\<close> or gives a new one, writing
  takes at most the block, and the clock shows a date.
\<close>

definition log_laws :: "'w log_env \<Rightarrow> ('w \<Rightarrow> int set) \<Rightarrow> bool" where
  "log_laws L fds \<longleftrightarrow>
     (\<forall>n w. case lo_open L n w of (fd, w') \<Rightarrow>
        if fd = -1 then fds w' = fds w else fd \<ge> 0 \<and> fd \<notin> fds w \<and> fds w' = insert fd (fds w))
   \<and> (\<forall>fd w. fds (lo_close L fd w) = fds w - {fd})
   \<and> (\<forall>fd b w. case lo_write L fd b w of (r, w') \<Rightarrow> fds w' = fds w \<and> r \<le> int (length b))
   \<and> (\<forall>t w. fds (lo_printf L t w) = fds w) \<and> (\<forall>w. fds (lo_tick L w) = fds w) \<and> (\<forall>w. valid_tm (lo_time L w))"

definition log_inv :: "('w \<Rightarrow> int set) \<Rightarrow> clog \<times> 'w \<Rightarrow> bool" where
  "log_inv fds = (\<lambda>(s, w). \<not> m_busy s \<and> length (m_cur_file_size s) = 2 \<and> length (m_cur_filetime s) = 2
     \<and> (\<exists>a b. m_fd s = [a, b] \<and> fds w = {a, b} - {-1} \<and> (a = b \<longrightarrow> a = -1)))"

lemma log_slot_cases: "log_slot p = 0 \<and> log_slot (p + 1) = 1 \<or> log_slot p = 1 \<and> log_slot (p + 1) = 0"
proof (cases "bit p 0")
  case True
  then have "p AND 1 = 1" "(p + 1) AND 1 = 0" by (simp_all add: and_one_eq mod_2_eq_odd bit_0)
  then show ?thesis by (simp add: log_slot_def)
next
  case False
  then have "p AND 1 = 0" "(p + 1) AND 1 = 1" by (simp_all add: and_one_eq mod_2_eq_odd bit_0)
  then show ?thesis by (simp add: log_slot_def)
qed


definition same_cfg :: "clog \<Rightarrow> clog \<Rightarrow> bool" where
  "same_cfg s s' \<longleftrightarrow> m_filename s' = m_filename s \<and> m_stratege_type s' = m_stratege_type s
     \<and> m_time_stratege_type s' = m_time_stratege_type s \<and> m_amount_size s' = m_amount_size s
     \<and> m_max_file_size s' = m_max_file_size s \<and> m_log_level s' = m_log_level s"

definition can_name :: "clog \<Rightarrow> bool" where
  "can_name s \<longleftrightarrow> (m_stratege_type s = PURE_LOG_SPACE \<longrightarrow> m_amount_size s \<noteq> 0)"

lemma cur_filename_busy [simp]: "cur_filename (s\<lparr>m_busy := b\<rparr>) p = cur_filename s p"
  by (simp add: cur_filename_def log_index_def split: stratege.split)

lemma cur_filename_total: "can_name s \<Longrightarrow> cur_filename s p \<noteq> None"
  by (simp add: cur_filename_def can_name_def split: stratege.split)

text \<open>What \<^verbatim>\<open>new_file\<close> does: a failed open leaves the current file in place.\<close>

definition opened_next :: "int \<Rightarrow> clog \<Rightarrow> clog \<Rightarrow> bool" where
  "opened_next r s s' \<longleftrightarrow> same_cfg s s' \<and> m_fd s' ! log_slot (m_pos s) = m_fd s ! log_slot (m_pos s)
     \<and> (r = SUCCESS \<and> m_pos s' = m_pos s + 1 \<and> m_cur_file_size s' = (m_cur_file_size s)[log_slot (m_pos s + 1) := 0]
          \<and> m_fd s' ! log_slot (m_pos s + 1) \<noteq> -1
        \<or> r = FAILURE \<and> m_pos s' = m_pos s \<and> m_cur_file_size s' = m_cur_file_size s)"

lemma new_file_spec:
  assumes laws: "log_laws L fds" and inv: "log_inv fds (s, w)" and "can_name s"
  shows "\<exists>r s' w'. new_file L (s, w) = Some (r, s', w') \<and> log_inv fds (s', w') \<and> opened_next r s s'"
proof -
  obtain a b where ab: "m_fd s = [a, b]" "fds w = {a, b} - {-1}" "a = b \<longrightarrow> a = -1" and nb: "\<not> m_busy s"
    and len: "length (m_cur_file_size s) = 2" "length (m_cur_filetime s) = 2"
    using inv by (auto simp: log_inv_def)
  define nxt where "nxt = log_slot (m_pos s + 1)"
  obtain name where name: "cur_filename s (lo_time L w) = Some name" using cur_filename_total [OF assms(3)] by fastforce
  define w1 where "w1 = (if m_fd s ! nxt = -1 then lo_tick L w else lo_close L (m_fd s ! nxt) (lo_tick L w))"
  obtain fd w2 where op: "lo_open L name w1 = (fd, w2)" by (cases "lo_open L name w1")
  have f1: "fds w1 = fds w - {m_fd s ! nxt}"
    using laws ab by (auto simp: w1_def log_laws_def)
  have f2: "if fd = -1 then fds w2 = fds w1 else fd \<ge> 0 \<and> fd \<notin> fds w1 \<and> fds w2 = insert fd (fds w1)"
    using laws op unfolding log_laws_def by (metis (mono_tags, lifting) case_prod_conv)
  define s2 where "s2 = s\<lparr>m_busy := False, m_fd := (m_fd s)[nxt := fd]\<rparr>"
  define s3 where "s3 = s2\<lparr>m_cur_filetime := (m_cur_filetime s)[nxt := lo_time L w],
     m_cur_file_size := (m_cur_file_size s)[nxt := 0], m_pos := m_pos s + 1\<rparr>"
  define w3 where "w3 = lo_printf L (''log mod : Open '' @ name @ '' Error:'' @ lo_strerror L w2 @ [CHR 0x0A]) w2"
  have f3: "fds w3 = fds w2" using laws by (simp add: w3_def log_laws_def)
  have n: "log_slot (m_pos s) = 0 \<and> nxt = 1 \<or> log_slot (m_pos s) = 1 \<and> nxt = 0" unfolding nxt_def by (rule log_slot_cases)
  have eq: "new_file L (s, w) = Some (if fd = -1 then (FAILURE, s2, w3) else (SUCCESS, s3, w2))"
    using nb name op by (cases "m_fd s ! nxt = -1") (simp_all add: new_file_def Let_def s2_def s3_def w3_def w1_def nxt_def)
  have "log_inv fds (s2, w3)" if "fd = -1"
    using n that f1 f2 f3 ab nb len by (auto simp: log_inv_def s2_def)
  moreover have "log_inv fds (s3, w2)" if "fd \<noteq> -1"
    using n that f1 f2 ab nb len by (auto simp: log_inv_def s2_def s3_def)
  moreover have "opened_next FAILURE s s2" if "fd = -1"
    using n by (elim disjE conjE) (simp_all add: opened_next_def same_cfg_def s2_def ab(1))
  moreover have "opened_next SUCCESS s s3" if "fd \<noteq> -1"
    using n that by (elim disjE conjE) (simp_all add: opened_next_def same_cfg_def s2_def s3_def ab(1) flip: nxt_def)
  ultimately show ?thesis unfolding eq by (cases "fd = -1") auto
qed


lemma log_slot_less [simp]: "log_slot p < 2"
  using log_slot_cases [of p] by auto

lemma opened_next_sizes:
  assumes "opened_next r s s'" "length (m_cur_file_size s) = 2"
  shows "\<forall>i < 2. m_cur_file_size s' ! i = m_cur_file_size s ! i \<or> m_cur_file_size s' ! i = 0"
    and "r \<noteq> FAILURE \<Longrightarrow> m_cur_file_size s' ! log_slot (m_pos s') = 0 \<and> m_fd s' ! log_slot (m_pos s') \<noteq> -1"
  using assms by (auto simp: opened_next_def nth_list_update)

lemma ensure_file_spec:
  assumes "log_laws L fds" "log_inv fds (s, w)" "can_name s"
  obtains ok s' w' where "ensure_file L need (s, w) = Some (ok, s', w')" "log_inv fds (s', w')" "same_cfg s s'"
    "\<forall>i < 2. m_cur_file_size s' ! i = m_cur_file_size s ! i \<or> m_cur_file_size s' ! i = 0"
    "need \<and> ok \<longrightarrow> m_cur_file_size s' ! log_slot (m_pos s') = 0 \<and> m_fd s' ! log_slot (m_pos s') \<noteq> -1"
    "\<not> need \<longrightarrow> ok \<and> s' = s \<and> w' = w"
proof (cases need)
  case True
  obtain r s' w' where "new_file L (s, w) = Some (r, s', w')" "log_inv fds (s', w')" "opened_next r s s'"
    using new_file_spec [OF assms] by blast
  moreover have "length (m_cur_file_size s) = 2" using assms(2) by (simp add: log_inv_def)
  ultimately show ?thesis
    using True that [of "r \<noteq> FAILURE" s' w'] opened_next_sizes [of r s s']
    by (simp add: ensure_file_def) (simp add: opened_next_def)
next
  case False
  then show ?thesis using that [of True s w] assms(2) by (simp add: ensure_file_def same_cfg_def)
qed

text \<open>Every file of the size strategy stays within 29 bytes of the configured size.\<close>

definition size_ok :: "clog \<Rightarrow> bool" where
  "size_ok s \<longleftrightarrow> (m_stratege_type s = PURE_LOG_SPACE \<longrightarrow> (\<forall>i < 2. unat (m_cur_file_size s ! i) \<le> unat (m_max_file_size s) + 29))"

definition size_limits :: "clog \<Rightarrow> bool" where
  "size_limits s \<longleftrightarrow> (m_stratege_type s = PURE_LOG_SPACE \<longrightarrow> 512 < unat (m_max_file_size s) \<and> unat (m_max_file_size s) + 29 < 2 ^ 32)"

lemma size_ok_mono:
  assumes "size_ok s" "same_cfg s s'" "\<forall>i < 2. m_cur_file_size s' ! i = m_cur_file_size s ! i \<or> m_cur_file_size s' ! i = 0"
  shows "size_ok s'"
  using assms unfolding size_ok_def same_cfg_def by (metis add.left_commute le0 unsigned_0)

lemma log_write_spec:
  assumes "log_laws L fds" "log_inv fds (s, w)" "size_ok s" "size_limits s" "length buf \<le> 542"
    and room: "m_stratege_type s = PURE_LOG_SPACE \<Longrightarrow> unat (m_cur_file_size s ! log_slot (m_pos s)) < unat (m_max_file_size s) - 512"
  shows "\<exists>r s' w'. log_write L buf (s, w) = (r, s', w') \<and> lo_write L (m_fd s ! log_slot (m_pos s)) buf w = (r, w')
     \<and> log_inv fds (s', w') \<and> same_cfg s s' \<and> size_ok s' \<and> m_pos s' = m_pos s \<and> m_fd s' = m_fd s"
proof -
  define k where "k = log_slot (m_pos s)"
  have k: "k < 2" by (simp add: k_def)
  obtain r w' where wr: "lo_write L (m_fd s ! k) buf w = (r, w')" by (cases "lo_write L (m_fd s ! k) buf w")
  have r: "fds w' = fds w" "r \<le> 542"
    using assms(1,5) wr unfolding log_laws_def by (metis (mono_tags, lifting) case_prod_conv, 
      metis (mono_tags, lifting) case_prod_conv le_trans of_nat_le_iff of_nat_numeral order_trans)
  define s' where "s' = (if r > 0 then s\<lparr>m_cur_file_size := (m_cur_file_size s)[k := m_cur_file_size s ! k + word_of_int r]\<rparr> else s)"
  have inv: "log_inv fds (s', w')" using assms(2) r by (auto simp: log_inv_def s'_def)
  have len: "length (m_cur_file_size s) = 2" using assms(2) by (simp add: log_inv_def)
  have "unat (m_cur_file_size s ! k + word_of_int r) \<le> unat (m_max_file_size s) + 29"
    if "m_stratege_type s = PURE_LOG_SPACE" "r > 0"
  proof -
    have "unat (word_of_int r :: 32 word) \<le> 542"
      using r(2) that(2) by (simp add: unsigned_of_int take_bit_int_eq_self nat_le_iff)
    moreover have "unat (m_cur_file_size s ! k + word_of_int r) \<le> unat (m_cur_file_size s ! k) + unat (word_of_int r :: 32 word)"
      by (simp add: unat_word_ariths)
    ultimately show ?thesis using room [OF that(1)] assms(4) that(1) by (simp add: size_limits_def flip: k_def)
  qed
  then have "size_ok s'" using assms(3) len k by (auto simp: size_ok_def s'_def nth_list_update)
  moreover have "log_write L buf (s, w) = (r, s', w')" using wr by (simp add: log_write_def s'_def flip: k_def)
  ultimately show ?thesis using inv wr unfolding k_def by (auto simp: same_cfg_def s'_def)
qed


lemma new_file_FAILURE:
  "new_file L st = Some (FAILURE, st') \<Longrightarrow> \<exists>n w2. fst (lo_open L n w2) = -1"
  by (auto simp: new_file_def Let_def split: prod.splits if_splits option.splits) (metis fst_conv)+

lemma ensure_file_fails:
  "ensure_file L need st = Some (False, st') \<Longrightarrow> \<exists>n w2. fst (lo_open L n w2) = -1"
  by (auto simp: ensure_file_def split: if_splits dest: new_file_FAILURE)

definition log_state_ok :: "('w \<Rightarrow> int set) \<Rightarrow> clog \<times> 'w \<Rightarrow> bool" where
  "log_state_ok fds st \<longleftrightarrow> log_inv fds st \<and> can_name (fst st) \<and> size_ok (fst st) \<and> size_limits (fst st)"

lemma same_cfg_keeps:
  assumes "same_cfg s s'"
  shows "can_name s' \<longleftrightarrow> can_name s" "size_limits s' \<longleftrightarrow> size_limits s" "m_stratege_type s' = m_stratege_type s"
  using assms by (simp_all add: same_cfg_def can_name_def size_limits_def)

definition same_limits :: "clog \<Rightarrow> clog \<Rightarrow> bool" where
  "same_limits s s' \<longleftrightarrow> m_stratege_type s' = m_stratege_type s \<and> m_max_file_size s' = m_max_file_size s"

lemma same_limits_cfg: "same_cfg a b \<Longrightarrow> same_limits a b"
  by (simp add: same_cfg_def same_limits_def)

lemma same_limits_trans [trans]: "same_limits a b \<Longrightarrow> same_limits b c \<Longrightarrow> same_limits a c"
  by (simp add: same_limits_def)

text \<open>A message that is let through: one complete line in the current file, or a file that could not be opened.\<close>

definition line_written where
  "line_written L i p text s w' ret \<longleftrightarrow>
     (\<exists>fd w1 r. fd \<noteq> -1 \<and> lo_write L fd (lvl i @ [CHR 0x09] @ date_str p @ [CHR 0x09] @ take 511 text @ [CHR 0x0A]) w1 = (r, w')
        \<and> ret = (if m_stratege_type s = PURE_LOG_CONST then 0 else r))"

lemma prt_let_through:
  assumes laws: "log_laws L fds" and ok: "log_state_ok fds (s, w)" and lv: "\<not> m_log_level s < i" "i \<noteq> LOG_TERM"
  shows "\<exists>ret s' w'. prt L i text (s, w) = Some (ret, s', w') \<and> log_state_ok fds (s', w') \<and> same_limits s s'
     \<and> (line_written L i (lo_time L w) text s w' ret \<or> ret = -1 \<and> (\<exists>n w2. fst (lo_open L n w2) = -1))"
proof -
  let ?p = "lo_time L w" and ?w = "lo_tick L w"
  have p: "valid_tm ?p" and inv0: "log_inv fds (s, ?w)" and cn: "can_name s"
    using laws ok by (auto simp: log_laws_def log_state_ok_def log_inv_def)
  obtain ok1 s1 w1 where e1: "ensure_file L (m_fd s ! log_slot (m_pos s) = -1) (s, ?w) = Some (ok1, s1, w1)" "log_inv fds (s1, w1)"
    "same_cfg s s1" "\<forall>i < 2. m_cur_file_size s1 ! i = m_cur_file_size s ! i \<or> m_cur_file_size s1 ! i = 0"
    "m_fd s ! log_slot (m_pos s) = -1 \<and> ok1 \<longrightarrow> m_cur_file_size s1 ! log_slot (m_pos s1) = 0 \<and> m_fd s1 ! log_slot (m_pos s1) \<noteq> -1"
    "m_fd s ! log_slot (m_pos s) \<noteq> -1 \<longrightarrow> ok1 \<and> s1 = s \<and> w1 = ?w"
    by (rule ensure_file_spec [OF laws inv0 cn, where need = "m_fd s ! log_slot (m_pos s) = -1"])
  have so1: "log_state_ok fds (s1, w1)"
    using e1 ok size_ok_mono [of s s1] same_cfg_keeps [OF e1(3)] by (simp add: log_state_ok_def)
  have cn1: "can_name s1" using cn same_cfg_keeps(1) [OF e1(3)] by simp
  obtain ok2 s2 w2 where e2: "ensure_file L (log_cut s1 ?p) (s1, w1) = Some (ok2, s2, w2)" "log_inv fds (s2, w2)"
    "same_cfg s1 s2" "\<forall>i < 2. m_cur_file_size s2 ! i = m_cur_file_size s1 ! i \<or> m_cur_file_size s2 ! i = 0"
    "log_cut s1 ?p \<and> ok2 \<longrightarrow> m_cur_file_size s2 ! log_slot (m_pos s2) = 0 \<and> m_fd s2 ! log_slot (m_pos s2) \<noteq> -1"
    "\<not> log_cut s1 ?p \<longrightarrow> ok2 \<and> s2 = s1 \<and> w2 = w1"
    by (rule ensure_file_spec [OF laws e1(2) cn1, where need = "log_cut s1 ?p"])
  have so2: "log_state_ok fds (s2, w2)"
    using e2 so1 size_ok_mono [of s1 s2] same_cfg_keeps [OF e2(3)] by (simp add: log_state_ok_def)
  have l1: "same_limits s s1" and l2: "same_limits s s2"
    using e1(3) e2(3) by (simp_all add: same_cfg_def same_limits_def)
  have fd2: "m_fd s2 ! log_slot (m_pos s2) \<noteq> -1" if "ok1" "ok2"
    using that e1(5,6) e2(5,6) by metis
  let ?buf = "log_buf i ?p text"
  have prt_eq: "prt L i text (s, w) = (if \<not> ok1 then Some (-1, s1, w1) else if \<not> ok2 then Some (-1, s2, w2)
      else let (ret, st) = log_write L ?buf (s2, w2) in Some (if m_stratege_type s = PURE_LOG_CONST then 0 else ret, st))"
    using lv e1(1) e2(1) by (simp add: prt_def Let_def split: prod.split)
  show ?thesis
  proof (cases "ok1 \<and> ok2")
    case True
    have room: "unat (m_cur_file_size s2 ! log_slot (m_pos s2)) < unat (m_max_file_size s2) - 512"
      if sp: "m_stratege_type s2 = PURE_LOG_SPACE"
    proof -
      have "512 < unat (m_max_file_size s2)" using so2 sp by (simp add: log_state_ok_def size_limits_def)
      then have "unat (m_max_file_size s2 - 512) = unat (m_max_file_size s2) - 512"
        by (simp add: unat_sub word_le_nat_alt)
      moreover have "m_cur_file_size s2 ! log_slot (m_pos s2) < m_max_file_size s2 - 512" if "\<not> log_cut s1 ?p"
        using that e2(6) sp by (auto simp: log_cut_def Let_def)
      ultimately show ?thesis using e2(5) True \<open>512 < _\<close> by (cases "log_cut s1 ?p") (auto simp: word_less_nat_alt)
    qed
    obtain r s3 w3 where wr: "log_write L ?buf (s2, w2) = (r, s3, w3)" "lo_write L (m_fd s2 ! log_slot (m_pos s2)) ?buf w2 = (r, w3)"
      "log_inv fds (s3, w3)" "same_cfg s2 s3" "size_ok s3"
      using log_write_spec [OF laws e2(2) _ _ length_log_buf [OF p] room] so2 by (metis fst_conv log_state_ok_def)
    have "log_state_ok fds (s3, w3)" using wr(3-5) so2 same_cfg_keeps [OF wr(4)] by (simp add: log_state_ok_def)
    moreover have "same_limits s s3" using l2 same_limits_cfg [OF wr(4)] by (rule same_limits_trans)
    moreover have "line_written L i ?p text s w3 (if m_stratege_type s = PURE_LOG_CONST then 0 else r)"
      using wr(2) fd2 True unfolding line_written_def log_buf_complete [OF p] by blast
    ultimately show ?thesis using True wr(1) by (simp add: prt_eq)
  next
    case False
    then have "\<exists>n w2. fst (lo_open L n w2) = -1"
      using e1(1) e2(1) ensure_file_fails by metis
    then show ?thesis using False so1 so2 l1 l2 by (auto simp: prt_eq)
  qed
qed


lemma prt_keeps_ok:
  assumes "log_laws L fds" "log_state_ok fds (s, w)"
  shows "\<exists>ret s' w'. prt L i text (s, w) = Some (ret, s', w') \<and> log_state_ok fds (s', w') \<and> same_limits s s'"
proof (cases "\<not> m_log_level s < i \<and> i \<noteq> LOG_TERM")
  case True
  then show ?thesis using prt_let_through [OF assms] by blast
next
  case False
  then show ?thesis
    using assms by (auto simp: prt_def Let_def log_laws_def log_state_ok_def log_inv_def same_limits_def)
qed

lemma set_log_level_keeps_ok:
  "log_state_ok fds (set_log_level l s, w) \<longleftrightarrow> log_state_ok fds (s, w)" "same_limits (set_log_level l s) s' \<longleftrightarrow> same_limits s s'"
  by (simp_all add: set_log_level_def log_state_ok_def log_inv_def can_name_def size_ok_def size_limits_def same_limits_def)

lemma log_run_keeps_ok:
  assumes "log_laws L fds" "log_state_ok fds (s, w)"
  shows "\<exists>s' w'. log_run L ops (s, w) = Some (s', w') \<and> log_state_ok fds (s', w') \<and> same_limits s s'"
  using assms(2)
proof (induction ops arbitrary: s w)
  case (Cons op ops)
  show ?case
  proof (cases op)
    case (Prt l t)
    obtain r s1 w1 where p: "prt L l t (s, w) = Some (r, s1, w1)" "log_state_ok fds (s1, w1)" "same_limits s s1"
      using prt_keeps_ok [OF assms(1) Cons.prems] by blast
    then show ?thesis using Cons.IH [OF p(2)] same_limits_trans [OF p(3)] by (auto simp: Prt)
  next
    case (Set_level l)
    then show ?thesis using Cons.IH [of "set_log_level l s" w] Cons.prems by (simp add: set_log_level_keeps_ok)
  qed
qed (simp add: same_limits_def)

lemma CLog_ok:
  assumes "fds w = {}" "512 < unat len" "unat len + 29 < 2 ^ 32" "amount \<noteq> 0"
  shows "log_state_ok fds (set_log_out_by_amount len amount CLog, w)"
  using assms by (auto simp: log_state_ok_def log_inv_def can_name_def size_ok_def size_limits_def set_log_out_by_amount_def
      CLog_def less_2_cases_iff)




text \<open>A limit below the margin of 512 wraps around, so that the file is not cut.\<close>

lemma small_limit_never_cuts:
  assumes "m_stratege_type s = PURE_LOG_SPACE" "unat (m_max_file_size s) < 512"
    and "unat (m_cur_file_size s ! log_slot (m_pos s)) < 2 ^ 32 - 512"
  shows "\<not> log_cut s p"
proof -
  have "unat (m_max_file_size s - 512) = 2 ^ 32 + unat (m_max_file_size s) - 512"
    using assms(2) by (simp add: unat_sub_if_size size_word_def)
  then show ?thesis using assms(1,3) by (simp add: log_cut_def Let_def word_less_nat_alt)
qed

section \<open>A file system for concrete runs\<close>

text \<open>The next descriptor, the open ones, and what was written.\<close>

type_synonym log_world = "nat \<times> int set \<times> (int \<times> string) list"

definition log_fds :: "log_world \<Rightarrow> int set" where
  "log_fds = (\<lambda>(n, ds, _). ds \<inter> {0..<int n})"

definition log_env0 :: "log_world log_env" where
  "log_env0 = \<lparr>lo_time = \<lambda>_. tm0, lo_tick = id,
     lo_open = \<lambda>_ (n, ds, f). (int n, Suc n, insert (int n) (ds \<inter> {0..<int n}), f),
     lo_close = \<lambda>fd (n, ds, f). (n, ds - {fd}, f), lo_write = \<lambda>fd b (n, ds, f). (int (length b), n, ds, f @ [(fd, b)]),
     lo_printf = \<lambda>_. id, lo_strerror = \<lambda>_. ''''\<rparr>"

lemma log_laws_env0: "log_laws log_env0 log_fds"
  by (auto simp: log_laws_def log_env0_def log_fds_def valid_tm_def tm0_def)



text \<open>The line that this run writes.\<close>

lemma prt_run:
  "(case prt log_env0 LOG_CRIT ''x'' (set_log_out_by_amount 600 3 CLog, 3, {}, []) of
      Some (r, s, (_, _, f)) \<Rightarrow> (r, m_fd s, m_pos s, f) | None \<Rightarrow> (0, [], 0, []))
   = (31, [3, -1], 0, [(3, ''CRIT'' @ [CHR 0x09] @ ''[1900-01-00   00-00-00]'' @ [CHR 0x09] @ ''x'' @ [CHR 0x0A])])"
  by code_simp

end
