(* ===== verification/Main_Proc.thy ===== *)
theory Main_Proc
  imports Start_Up Scan Log Pconf_Roundtrip
begin

text \<open>
  Start of the program and its master process: the pid file and \<^verbatim>\<open>main\<close> of \<^verbatim>\<open>src/src/main.cpp\<close>, the
  signal table of \<^verbatim>\<open>src/src/signal/p_signals.cpp\<close>, the class \<^verbatim>\<open>main_proc\<close> of
  \<^verbatim>\<open>src/src/process/main_proc.cpp\<close> and the process title of \<^verbatim>\<open>src/src/global_conf.cpp\<close>. The master is a
  state machine on which signals arrive between its steps.
\<close>

section \<open>Model\<close>

subsection \<open>The pid file\<close>

text \<open>
  What \<^verbatim>\<open>open\<close>, \<^verbatim>\<open>lockf\<close> and \<^verbatim>\<open>write\<close> answer is an argument (\<open>wr\<close>: the bytes that are written, \<open>None\<close> for
  an error). The file is opened without truncation. The result \<open>None\<close> is \<^verbatim>\<open>exit(0)\<close>.
\<close>

type_synonym files = "string \<rightharpoonup> string"

definition write_pid_to_file :: "bool \<Rightarrow> bool \<Rightarrow> nat option \<Rightarrow> int \<Rightarrow> string \<Rightarrow> files \<Rightarrow> files option" where
  "write_pid_to_file opened locked wr pid file fs =
     (if \<not> opened then None
      else if \<not> locked then None
      else let old = (case fs file of None \<Rightarrow> '''' | Some t \<Rightarrow> t);
               buffer = fst (rn_snprintf 64 (Some (dec_str pid @ [CHR 0x0A])))
           in case wr of None \<Rightarrow> None
              | Some k \<Rightarrow> Some (fs(file \<mapsto> take k buffer @ drop (length (take k buffer)) old)))"

text \<open>
  \<^verbatim>\<open>get_pid_from_file\<close>: a buffer of 64 cleared bytes takes the beginning of the file; \<open>behind\<close> are the
  bytes that follow the buffer in memory.
\<close>

definition get_pid_from_file :: "bool \<Rightarrow> string \<Rightarrow> string \<Rightarrow> files \<Rightarrow> int \<times> int option" where
  "get_pid_from_file readable behind file fs =
     (case fs file of None \<Rightarrow> (FAILURE, None)
      | Some t \<Rightarrow> if \<not> readable then (FAILURE, None)
          else (SUCCESS, Some (atoi (cstr (take 64 t @ replicate (64 - length t) NUL @ behind)))))"

subsection \<open>Signals\<close>

definition SIGHUP :: int where "SIGHUP = 1"
definition SIGQUIT :: int where "SIGQUIT = 3"
definition SIGPIPE :: int where "SIGPIPE = 13"
definition SIGTERM :: int where "SIGTERM = 15"
definition SIGCHLD :: int where "SIGCHLD = 17"

lemmas signal_defs = SIGHUP_def SIGQUIT_def SIGPIPE_def SIGTERM_def SIGCHLD_def

datatype pf_sig = Handle_quit | Handle_reload

record signal_reg_s =
  signo :: int
  pf :: "pf_sig option"

definition g_sig_reg_table :: "signal_reg_s list" where
  "g_sig_reg_table = [\<lparr>signo = SIGQUIT, pf = None\<rparr>, \<lparr>signo = SIGTERM, pf = None\<rparr>, \<lparr>signo = SIGHUP, pf = None\<rparr>, \<lparr>signo = 0, pf = None\<rparr>]"

text \<open>What a signal does: the default action, nothing, or one of the two handlers of the process.\<close>

datatype disposition = SIG_DFL | SIG_IGN | Sig_handle | Sig_chld

text \<open>
  The master with its globals: the flags, the worker (\<open>None\<close> a null pointer, else its pid), the table,
  the dispositions and what it did to other processes.
\<close>

datatype mp_effect = Kill int int | Fork int

record main_proc =
  reload :: bool
  stop :: bool
  work_proc :: "int option"
  g_restart_sig :: bool
  g_reload_sig :: bool
  sig_table :: "signal_reg_s list"
  sig_disp :: "int \<Rightarrow> disposition"
  effects :: "mp_effect list"

definition main_proc0 :: main_proc where
  "main_proc0 = \<lparr>reload = False, stop = False, work_proc = None, g_restart_sig = False, g_reload_sig = False,
     sig_table = g_sig_reg_table, sig_disp = \<lambda>_. SIG_DFL, effects = []\<rparr>"

fun call_pf :: "pf_sig \<Rightarrow> main_proc \<Rightarrow> main_proc" where
  "call_pf Handle_quit p = p\<lparr>stop := True\<rparr>"
| "call_pf Handle_reload p = p\<lparr>reload := True\<rparr>"

fun sig_handle_loop :: "int \<Rightarrow> signal_reg_s list \<Rightarrow> main_proc \<Rightarrow> main_proc" where
  "sig_handle_loop sig [] p = p"
| "sig_handle_loop sig (ps # rest) p =
     (if signo ps = 0 then p
      else if signo ps = sig then case pf ps of Some f \<Rightarrow> call_pf f p | None \<Rightarrow> p
      else sig_handle_loop sig rest p)"

definition sig_handle :: "int \<Rightarrow> main_proc \<Rightarrow> main_proc" where
  "sig_handle sig p = sig_handle_loop sig (sig_table p) p"

text \<open>\<open>dead\<close>: the number of children that \<^verbatim>\<open>waitpid\<close> reports before it has no more.\<close>

primrec sig_chld :: "nat \<Rightarrow> main_proc \<Rightarrow> main_proc" where
  "sig_chld 0 p = p"
| "sig_chld (Suc dead) p = sig_chld dead (p\<lparr>g_restart_sig := True\<rparr>)"

fun register_loop :: "signal_reg_s list \<Rightarrow> signal_reg_s list" where
  "register_loop [] = []"
| "register_loop (ps # rest) =
     (if signo ps = 0 then ps # rest
      else let ps = (if signo ps = SIGQUIT then ps\<lparr>pf := Some Handle_quit\<rparr> else ps);
               ps = (if signo ps = SIGTERM then ps\<lparr>pf := Some Handle_quit\<rparr> else ps);
               ps = (if signo ps = SIGHUP then ps\<lparr>pf := Some Handle_reload\<rparr> else ps)
           in ps # register_loop rest)"

definition register_signal :: "main_proc \<Rightarrow> main_proc" where
  "register_signal p = p\<lparr>sig_table := register_loop (sig_table p),
     sig_disp := (sig_disp p)(SIGQUIT := Sig_handle, SIGHUP := Sig_handle, SIGPIPE := SIG_IGN)\<rparr>"

text \<open>The signal that \<^verbatim>\<open>-s\<close> sends: pid and number, \<open>None\<close> when none is sent.\<close>

definition send_signal_cmd :: "int \<Rightarrow> int \<Rightarrow> (int \<times> int) option" where
  "send_signal_cmd signal_t pid =
     (if signal_t = 2 then Some (pid, SIGHUP) else if signal_t = 1 then Some (pid, SIGQUIT) else None)"

text \<open>A signal reaches the process: \<open>None\<close> when the default action ends it.\<close>

definition deliver :: "int \<Rightarrow> nat \<Rightarrow> main_proc \<Rightarrow> main_proc option" where
  "deliver sig dead p =
     (case sig_disp p sig of SIG_IGN \<Rightarrow> Some p | Sig_handle \<Rightarrow> Some (sig_handle sig p) | Sig_chld \<Rightarrow> Some (sig_chld dead p)
      | SIG_DFL \<Rightarrow> if sig = SIGCHLD then Some p else None)"


subsection \<open>The master\<close>

text \<open>
  \<open>created\<close>: \<^verbatim>\<open>process::create\<close> knows the name; \<open>paired\<close>: \<^verbatim>\<open>socketpair\<close> succeeds; \<open>forked\<close> is the result
  of \<^verbatim>\<open>fork\<close>. The child leaves the model.
\<close>

datatype mp_outcome = Running main_proc | Exited | Crashed | Child

definition spawn_one_process :: "bool \<Rightarrow> bool \<Rightarrow> int \<Rightarrow> main_proc \<Rightarrow> mp_outcome" where
  "spawn_one_process created paired forked p =
     (if \<not> paired then Exited
      else if forked = -1 then (if created then Exited else Crashed)
      else if \<not> created then Crashed
      else if forked = 0 then Child
      else Running (p\<lparr>work_proc := Some forked, effects := effects p @ [Fork forked]\<rparr>))"

text \<open>\<^verbatim>\<open>kill(work_proc->pid, sig)\<close>.\<close>

definition kill_work :: "int \<Rightarrow> main_proc \<Rightarrow> mp_outcome" where
  "kill_work sig p = (case work_proc p of None \<Rightarrow> Crashed | Some pid \<Rightarrow> Running (p\<lparr>effects := effects p @ [Kill pid sig]\<rparr>))"

text \<open>
  \<^verbatim>\<open>run\<close>, statement by statement, since signals arrive in between: the test of the loop, the call of
  \<^verbatim>\<open>spawn_one_process\<close>, the reset of the flag, the test of the reload flag, its \<^verbatim>\<open>kill\<close> and reset, the
  sleep, and the \<^verbatim>\<open>kill\<close> after the loop.
\<close>

datatype mp_pc = At_test | At_spawn | At_reset | At_reload | At_sleep | At_quit | At_end

definition run_start :: "main_proc \<Rightarrow> main_proc" where
  "run_start p = (let p = register_signal p in p\<lparr>sig_disp := (sig_disp p)(SIGCHLD := Sig_chld)\<rparr>)"

fun on_running :: "(main_proc \<Rightarrow> mp_pc \<times> mp_outcome) \<Rightarrow> mp_outcome \<Rightarrow> mp_pc \<times> mp_outcome" where
  "on_running f (Running p) = f p"
| "on_running f r = (At_end, r)"

fun run_next :: "bool \<Rightarrow> bool \<Rightarrow> int \<Rightarrow> mp_pc \<Rightarrow> main_proc \<Rightarrow> mp_pc \<times> mp_outcome" where
  "run_next created paired forked At_test p =
     (if stop p then At_quit else if g_restart_sig p then At_spawn else At_reload, Running p)"
| "run_next created paired forked At_spawn p = on_running (\<lambda>p. (At_reset, Running p)) (spawn_one_process created paired forked p)"
| "run_next created paired forked At_reset p = (At_reload, Running (p\<lparr>g_restart_sig := False\<rparr>))"
| "run_next created paired forked At_reload p =
     (if g_reload_sig p
      then on_running (\<lambda>p. (At_sleep, Running (p\<lparr>g_reload_sig := False\<rparr>))) (kill_work SIGHUP p)
      else (At_sleep, Running p))"
| "run_next created paired forked At_sleep p = (At_test, Running p)"
| "run_next created paired forked At_quit p = on_running (\<lambda>p. (At_end, Running p)) (kill_work SIGTERM p)"
| "run_next created paired forked At_end p = (At_end, Running p)"

text \<open>One step of the master, or a signal.\<close>

inductive mp_step :: "mp_pc \<times> main_proc \<Rightarrow> mp_pc \<times> main_proc \<Rightarrow> bool" where
  own: "pc \<noteq> At_end \<Longrightarrow> run_next created paired forked pc p = (pc', Running p') \<Longrightarrow> mp_step (pc, p) (pc', p')"
| sig: "pc \<noteq> At_end \<Longrightarrow> deliver s dead p = Some p' \<Longrightarrow> mp_step (pc, p) (pc, p')"

inductive_cases mp_stepE: "mp_step s s'"

text \<open>\<^verbatim>\<open>run_work\<close>, which runs the worker in the same process; \<open>None\<close>: the name is not registered.\<close>

definition run_work :: "bool \<Rightarrow> main_proc \<Rightarrow> mp_outcome" where
  "run_work created p = (if created then Child else Crashed)"

section \<open>The pid file\<close>

text \<open>
  C7. Whatever the file held before and whatever lies behind the
  buffer, the pid that was written completely is the one that \<^verbatim>\<open>-s\<close> reads back: the line feed ends the
  number although the file is not truncated.
\<close>

theorem pid_file_roundtrip:
  assumes "0 < pid" "pid < 2 ^ 31" "wr \<ge> 11"
  shows "\<exists>fs'. write_pid_to_file True True (Some wr) pid file fs = Some fs'
     \<and> get_pid_from_file True behind file fs' = (SUCCESS, Some pid)"
proof -
  let ?line = "dec_str pid @ [CHR 0x0A]"
  define old where "old = (case fs file of None \<Rightarrow> '''' | Some t \<Rightarrow> t)"
  have len: "length (dec_str pid) \<le> 10"
    using assms(1,2) nat_str_length [of "nat pid" 9] by (simp add: dec_str_def)
  have nul: "NUL \<notin> set (dec_str pid)"
    using nat_str_digits [of "nat pid"] assms(1) by (auto simp: dec_str_def is_digit_def)
  define t where "t = ?line @ drop (length ?line) old"
  have w: "write_pid_to_file True True (Some wr) pid file fs = Some (fs(file \<mapsto> t))"
    using len assms(3) by (simp add: write_pid_to_file_def rn_snprintf_def vsnprintf_def old_def t_def Let_def)
  obtain r where r: "cstr (take 64 t @ replicate (64 - length t) NUL @ behind) = dec_str pid @ CHR 0x0A # r"
  proof -
    define line where "line = ?line"
    have "length line \<le> 64" using len by (simp add: line_def)
    then have "take 64 t = line @ take (64 - length line) (drop (length line) old)" by (simp add: t_def flip: line_def)
    moreover have "cstr (dec_str pid @ NL # x) = dec_str pid @ NL # cstr x" for x
      unfolding cstr_def using nul by (subst takeWhile_append2) auto
    ultimately show thesis using that by (simp add: line_def)
  qed
  have "atoi (dec_str pid @ CHR 0x0A # r) = pid"
    using scan_d_dec_str [of pid "CHR 0x0A # r"] assms by (simp add: atoi_def scan_into_def is_digit_def)
  then show ?thesis by (simp add: w get_pid_from_file_def r)
qed


theorem pid_file_roundtrip_witness:
  "\<exists>fs'. write_pid_to_file True True (Some 64) 99 ''pid'' [''pid'' \<mapsto> ''123456'' @ [CHR 0x0A]] = Some fs'
     \<and> get_pid_from_file True ''?'' ''pid'' fs' = (SUCCESS, Some 99)"
  by (rule pid_file_roundtrip) simp_all

section \<open>Signals of the master\<close>

lemma sig_chld_eq: "sig_chld n p = (if n = 0 then p else p\<lparr>g_restart_sig := True\<rparr>)"
  by (induction n arbitrary: p) simp_all

text \<open>After registration the table has a handler for each of its signals.\<close>

definition registered :: "main_proc \<Rightarrow> bool" where
  "registered p \<longleftrightarrow> sig_table p = [\<lparr>signo = SIGQUIT, pf = Some Handle_quit\<rparr>, \<lparr>signo = SIGTERM, pf = Some Handle_quit\<rparr>,
       \<lparr>signo = SIGHUP, pf = Some Handle_reload\<rparr>, \<lparr>signo = 0, pf = None\<rparr>]
     \<and> sig_disp p = (\<lambda>_. SIG_DFL)(SIGQUIT := Sig_handle, SIGHUP := Sig_handle, SIGPIPE := SIG_IGN, SIGCHLD := Sig_chld)"

lemma run_start_registered: "registered (run_start main_proc0)"
  by (simp add: registered_def run_start_def register_signal_def main_proc0_def g_sig_reg_table_def signal_defs)

lemma run_start_twice: "registered p \<Longrightarrow> registered (run_start p)"
  by (auto simp: registered_def run_start_def register_signal_def signal_defs)

text \<open>
  What each signal does to the running master: \<^verbatim>\<open>SIGQUIT\<close> asks it to
  stop, \<^verbatim>\<open>SIGHUP\<close> sets a flag of the object, the death of a child asks for a restart, \<^verbatim>\<open>SIGPIPE\<close> is
  ignored; \<^verbatim>\<open>SIGTERM\<close>, although the table has a handler for it, keeps its default action and ends the
  master without a word to the worker.
\<close>

theorem master_signals:
  assumes "registered p"
  shows "deliver SIGQUIT n p = Some (p\<lparr>stop := True\<rparr>) \<and> deliver SIGHUP n p = Some (p\<lparr>reload := True\<rparr>)
     \<and> deliver SIGCHLD n p = Some (if n = 0 then p else p\<lparr>g_restart_sig := True\<rparr>)
     \<and> deliver SIGPIPE n p = Some p \<and> deliver SIGTERM n p = None"
  using assms by (simp add: registered_def deliver_def sig_handle_def sig_chld_eq signal_defs)

theorem master_signals_witness:
  "deliver SIGTERM 0 (run_start main_proc0) = None"
  using master_signals [OF run_start_registered, of 0] by simp

lemma deliver_cases:
  assumes "registered p" "deliver s n p = Some p'"
  shows "p' = p \<or> p' = p\<lparr>stop := True\<rparr> \<or> p' = p\<lparr>reload := True\<rparr> \<or> p' = p\<lparr>g_restart_sig := True\<rparr>"
  using assms by (auto simp: registered_def deliver_def sig_handle_def sig_chld_eq signal_defs split: if_splits)

text \<open>All the master has done before its end is to start workers; the last one is its current worker.\<close>

definition worked :: "int \<Rightarrow> bool \<Rightarrow> int option \<Rightarrow> mp_effect list \<Rightarrow> bool" where
  "worked pid0 ended wp es \<longleftrightarrow> (\<exists>pids. wp = Some (last (pid0 # pids))
     \<and> es = map Fork pids @ (if ended then [Kill (last (pid0 # pids)) SIGTERM] else []))"

definition master_inv :: "int \<Rightarrow> mp_pc \<times> main_proc \<Rightarrow> bool" where
  "master_inv pid0 = (\<lambda>(pc, p). registered p \<and> \<not> g_reload_sig p \<and> (pc \<in> {At_quit, At_end} \<longrightarrow> stop p)
     \<and> worked pid0 (pc = At_end) (work_proc p) (effects p))"

lemma worked_fork: "worked pid0 False wp es \<Longrightarrow> worked pid0 False (Some pid) (es @ [Fork pid])"
  unfolding worked_def
proof (elim exE)
  fix pids
  assume "wp = Some (last (pid0 # pids)) \<and> es = map Fork pids @ (if False then [Kill (last (pid0 # pids)) SIGTERM] else [])"
  then show "\<exists>pids. Some pid = Some (last (pid0 # pids))
      \<and> es @ [Fork pid] = map Fork pids @ (if False then [Kill (last (pid0 # pids)) SIGTERM] else [])"
    by (intro exI [of _ "pids @ [pid]"]) simp
qed

lemma worked_end: "worked pid0 False (Some pid) es \<Longrightarrow> worked pid0 True (Some pid) (es @ [Kill pid SIGTERM])"
  unfolding worked_def by (elim exE conjE, rule exI, rule conjI, assumption) simp

lemma master_inv_own:
  assumes "master_inv pid0 (pc, p)" "pc \<noteq> At_end" "run_next created paired forked pc p = (pc', Running p')"
  shows "master_inv pid0 (pc', p')"
proof (cases pc)
  case At_spawn
  then have "pc' = At_reset" "p' = p\<lparr>work_proc := Some forked, effects := effects p @ [Fork forked]\<rparr>"
    using assms(3) by (simp_all add: spawn_one_process_def split: if_splits)
  then show ?thesis using assms(1) At_spawn by (simp add: master_inv_def registered_def worked_fork [of pid0 "work_proc p"])
next
  case At_quit
  then obtain pid where "work_proc p = Some pid" "pc' = At_end" "p' = p\<lparr>effects := effects p @ [Kill pid SIGTERM]\<rparr>"
    using assms(3) by (simp add: kill_work_def split: option.splits)
  then show ?thesis using assms(1) At_quit by (simp add: master_inv_def registered_def worked_end)
next
  case At_reset
  then have "pc' = At_reload" "p' = p\<lparr>g_restart_sig := False\<rparr>" using assms(3) by simp_all
  then show ?thesis using assms(1) At_reset by (simp add: master_inv_def registered_def)
next
  case At_reload
  then show ?thesis using assms by (simp add: master_inv_def)
qed (use assms in \<open>auto simp: master_inv_def split: if_splits\<close>)

lemma master_inv_flags:
  assumes "master_inv pid0 (pc, p)"
  shows "master_inv pid0 (pc, p\<lparr>stop := True\<rparr>)" "master_inv pid0 (pc, p\<lparr>reload := b\<rparr>)" "master_inv pid0 (pc, p\<lparr>g_restart_sig := b\<rparr>)"
  using assms by (simp_all add: master_inv_def registered_def)

lemma master_inv_step:
  assumes "mp_step s s'" "master_inv pid0 s"
  shows "master_inv pid0 s'"
  using assms(1)
proof (cases rule: mp_step.cases)
  case (own pc created paired forked p pc' p')
  then show ?thesis using assms(2) master_inv_own by blast
next
  case (sig pc n d p p')
  then have "registered p" using assms(2) by (simp add: master_inv_def)
  from deliver_cases [OF this sig(4)] show ?thesis
    using assms(2) master_inv_flags [of pid0 pc p] unfolding sig(1,2) by (elim disjE) simp_all
qed


lemma master_inv_reach: "mp_step\<^sup>*\<^sup>* s s' \<Longrightarrow> master_inv pid0 s \<Longrightarrow> master_inv pid0 s'"
  by (induction rule: rtranclp_induct) (auto intro: master_inv_step)

text \<open>The master with worker \<open>pid0\<close>, at the head of its loop.\<close>

definition master_at_loop :: "int \<Rightarrow> main_proc" where
  "master_at_loop pid0 = run_start (main_proc0\<lparr>work_proc := Some pid0\<rparr>)"

lemma master_at_loop_inv: "master_inv pid0 (At_test, master_at_loop pid0)"
  by (simp add: master_inv_def master_at_loop_def registered_def worked_def run_start_def register_signal_def main_proc0_def
      g_sig_reg_table_def signal_defs)


text \<open>A child that dies between the start of its successor and the reset of the flag is not replaced.\<close>

lemma master_at_loop_fields:
  "stop (master_at_loop n) = False" "g_restart_sig (master_at_loop n) = False" "effects (master_at_loop n) = []"
  "sig_disp (master_at_loop n) SIGCHLD = Sig_chld" "sig_disp (master_at_loop n) SIGHUP = Sig_handle"
  by (simp_all add: master_at_loop_def run_start_def register_signal_def main_proc0_def signal_defs)

lemma restart_lost:
  "mp_step\<^sup>*\<^sup>* (At_test, master_at_loop 7) (At_reload, (master_at_loop 7)\<lparr>work_proc := Some 8, effects := [Fork 8], g_restart_sig := False\<rparr>)"
proof -
  let ?p = "master_at_loop 7"
  let ?p1 = "?p\<lparr>g_restart_sig := True\<rparr>"
  let ?p2 = "?p1\<lparr>work_proc := Some 8, effects := [Fork 8]\<rparr>"
  have "mp_step (At_test, ?p) (At_test, ?p1)"
    by (rule mp_step.sig [where s = SIGCHLD and dead = 1]) (simp_all add: deliver_def master_at_loop_fields)
  moreover have "mp_step (At_test, ?p1) (At_spawn, ?p1)"
    by (rule mp_step.own) (simp_all add: master_at_loop_fields)
  moreover have "mp_step (At_spawn, ?p1) (At_reset, ?p2)"
    by (rule mp_step.own [where created = True and paired = True and forked = 8])
      (simp_all add: spawn_one_process_def master_at_loop_fields)
  moreover have "mp_step (At_reset, ?p2) (At_reset, ?p2)"
    by (rule mp_step.sig [where s = SIGCHLD and dead = 1]) (simp_all add: deliver_def master_at_loop_fields)
  moreover have "mp_step (At_reset, ?p2) (At_reload, ?p2\<lparr>g_restart_sig := False\<rparr>)"
    by (rule mp_step.own) simp_all
  ultimately have "mp_step\<^sup>*\<^sup>* (At_test, ?p) (At_reload, ?p2\<lparr>g_restart_sig := False\<rparr>)"
    by (meson converse_rtranclp_into_rtranclp rtranclp.rtrancl_refl)
  then show ?thesis by simp
qed



section \<open>The start of the program\<close>

text \<open>
  \<^verbatim>\<open>main\<close> up to the server. \<open>conf_file\<close> says for a path whether \<^verbatim>\<open>open\<close> and \<^verbatim>\<open>malloc\<close> succeed, what a
  grown block holds and what the calls of \<^verbatim>\<open>read\<close> give; \<open>fs\<close> are the files, for the pid file. The outcome
  says how the program ends, or with which paths and tree it starts.
\<close>

record main_env =
  conf_file :: "string \<Rightarrow> bool \<times> bool \<times> (nat \<Rightarrow> char) \<times> char list option list"
  main_ub :: ub
  path_ub :: int
  pid_readable :: bool
  pid_behind :: string
  main_files :: files

datatype main_outcome =
    Argument_error | Usage_shown | Version_shown | Path_too_long | Conf_unreadable | Conf_rejected | Conf_tested bool
  | Pid_missing | Signal_sent "(int \<times> int) option" | Memory_error
  | Started string string string CN_S

definition conf_buf :: "main_env \<Rightarrow> string \<Rightarrow> int + (char list \<times> nat) option" where
  "conf_buf M path = (case conf_file M path of (opened, allocated, junk, rs) \<Rightarrow> readconf opened allocated junk rs)"

definition path_in :: "string \<Rightarrow> string \<Rightarrow> string" where
  "path_in sbin_path name = fst (rn_snprintf 256 (Some (sbin_path @ ''/'' @ name)))"

definition sig_num :: "signal_type option \<Rightarrow> int" where
  "sig_num s = (case s of None \<Rightarrow> 0 | Some SIGNAL_STOP \<Rightarrow> 1 | Some SIGNAL_RELOAD \<Rightarrow> 2)"

definition main_test :: "main_env \<Rightarrow> string \<Rightarrow> string \<Rightarrow> main_outcome" where
  "main_test M sbin_path name =
     (case conf_buf M (path_in sbin_path name) of Inl _ \<Rightarrow> Conf_unreadable
      | Inr None \<Rightarrow> Memory_error
      | Inr (Some (cells, _)) \<Rightarrow> Conf_tested (fst (parse (main_ub M) (cstr cells)) = 0))"

definition main_run :: "main_env \<Rightarrow> argument \<Rightarrow> string \<Rightarrow> main_outcome" where
  "main_run M a sbin_path =
     (let conf_path = path_in sbin_path (case set_conf_s a of Some c \<Rightarrow> c | None \<Rightarrow> DEFAULT_CONF_PATH);
          log_path = path_in sbin_path ''../log/''; pid_path = path_in sbin_path ''../log/pid'' in
      case conf_buf M conf_path of Inl _ \<Rightarrow> Conf_unreadable
      | Inr None \<Rightarrow> Memory_error
      | Inr (Some (cells, _)) \<Rightarrow>
          if send_signal a then
            (case get_pid_from_file (pid_readable M) (pid_behind M) pid_path (main_files M) of (r, pid) \<Rightarrow>
               if r \<noteq> SUCCESS then Pid_missing else Signal_sent (send_signal_cmd (sig_num (send_sig_s a)) (the pid)))
          else case parse (main_ub M) (cstr cells) of (r, tree) \<Rightarrow>
               if r = 0 then Started conf_path log_path pid_path tree else Conf_rejected)"

definition main_start :: "main_env \<Rightarrow> string list \<Rightarrow> main_outcome" where
  "main_start M argv =
     (case get_argument argv no_arguments of None \<Rightarrow> Memory_error
      | Some (ok, a) \<Rightarrow>
          if \<not> ok then Argument_error
          else if show_help a then Usage_shown
          else if show_version a then Version_shown
          else case get_cur_path (argv ! 0) (replicate 256 NUL) 256 (path_ub M) of Inl _ \<Rightarrow> Path_too_long
            | Inr None \<Rightarrow> Memory_error
            | Inr (Some d) \<Rightarrow>
                if test_config a then main_test M (cstr d) (the (test_conf_s a)) else main_run M a (cstr d))"

text \<open>The logs that \<^verbatim>\<open>main\<close> then creates: the system log is cut by days, the error log never.\<close>

definition main_logs :: "'w log_env \<Rightarrow> string \<Rightarrow> 'w \<Rightarrow> ((clog \<times> clog) \<times> 'w) option" where
  "main_logs L log_path w =
     (case log_init L log_path ''syslog'' (set_log_out_by_time 0 (set_log_level LOG_INFO CLog), w) of None \<Rightarrow> None
      | Some (_, g_psyslog, w) \<Rightarrow>
          (case log_init L log_path ''error'' (set_log_level LOG_ERROR CLog, w) of None \<Rightarrow> None
           | Some (_, g_perrlog, w) \<Rightarrow> Some ((g_psyslog, g_perrlog), w)))"

subsection \<open>The process title\<close>

text \<open>Arguments and environment are their addresses and texts.\<close>

definition title_step :: "int \<Rightarrow> int \<times> string \<Rightarrow> int" where
  "title_step last_p = (\<lambda>(a, t). if last_p = a then a + int (length t) + 1 else last_p)"

definition init_process_title :: "(int \<times> string) list \<Rightarrow> (int \<times> string) list \<Rightarrow> int" where
  "init_process_title argv env = foldl title_step (foldl title_step (fst (argv ! 0)) argv) env - 1"

text \<open>\<open>mem\<close>: the bytes from \<^verbatim>\<open>os_argv\<close> on; \<open>None\<close>: a store outside them.\<close>

definition set_process_titile :: "string \<Rightarrow> int \<Rightarrow> char list \<Rightarrow> char list option" where
  "set_process_titile i_title len mem =
     (if len < 0 \<or> int (length mem) < len then None
      else rc_strncpy (replicate (nat len) NUL @ drop (nat len) mem) len (i_title @ [NUL]) (int (length i_title)))"


lemma conf_buf_content:
  assumes "conf_file M path = (True, True, junk, map Some bs)" "reads_ok 1024 bs" "length (concat bs) < 262144" "NUL \<notin> set (concat bs)"
  shows "\<exists>cells n. conf_buf M path = Inr (Some (cells, n)) \<and> cstr cells = concat bs"
proof -
  have "buf_inv (replicate 262144 NUL) 0 1024 []" by (simp add: buf_inv_def)
  then obtain cells rem where r: "readfile junk 262144 (replicate 262144 NUL) (map Some bs) = Done cells (length (concat bs))"
    and b: "buf_inv cells (length (concat bs)) rem (concat bs)"
    using readfile_loop_safe [of "replicate 262144 NUL" 0 1024 "[]" bs junk] assms(2,3) unfolding readfile_def by auto
  let ?n = "length (concat bs)"
  have len: "?n < length cells" "cells ! ?n = NUL" "take ?n cells = concat bs"
    using b assms(3) by (auto simp: buf_inv_def)
  then have "cells = concat bs @ NUL # drop (Suc ?n) cells" by (metis id_take_nth_drop)
  then have "cstr cells = concat bs" using cstr_append_NUL [OF assms(4)] by metis
  then show ?thesis using r assms(1) by (simp add: conf_buf_def readconf_def)
qed


definition main_env0 :: main_env where
  "main_env0 = \<lparr>conf_file = \<lambda>_. (True, True, \<lambda>_. CHR ''?'', [Some (render sample_conf)]), main_ub = ub0, path_ub = 0,
     pid_readable = True, pid_behind = '''', main_files = Map.empty\<rparr>"


text \<open>The texts lie one behind the other from \<open>p\<close> on, each with its terminating byte.\<close>

definition contiguous :: "int \<Rightarrow> (int \<times> string) list \<Rightarrow> bool" where
  "contiguous p xs \<longleftrightarrow> (\<forall>i < length xs. fst (xs ! i) = p + (\<Sum>j < i. int (length (snd (xs ! j))) + 1))"

lemma foldl_title_contiguous:
  "contiguous p xs \<Longrightarrow> foldl title_step p xs = p + (\<Sum>j < length xs. int (length (snd (xs ! j))) + 1)"
  unfolding contiguous_def
proof (induction xs rule: rev_induct)
  case (snoc x xs)
  have "foldl title_step p xs = p + (\<Sum>j < length xs. int (length (snd (xs ! j))) + 1)"
  proof (rule snoc.IH, intro allI impI)
    fix i
    assume i: "i < length xs"
    with snoc.prems have "fst ((xs @ [x]) ! i) = p + (\<Sum>j < i. int (length (snd ((xs @ [x]) ! j))) + 1)" by auto
    also have "(\<Sum>j < i. int (length (snd ((xs @ [x]) ! j))) + 1) = (\<Sum>j < i. int (length (snd (xs ! j))) + 1)"
      using i by (intro sum.cong) (auto simp: nth_append)
    finally show "fst (xs ! i) = p + (\<Sum>j < i. int (length (snd (xs ! j))) + 1)" using i by (simp add: nth_append)
  qed
  moreover have "fst x = p + (\<Sum>j < length xs. int (length (snd (xs ! j))) + 1)"
    using snoc.prems [rule_format, of "length xs"] by (simp add: nth_append)
  moreover have "title_step (fst x) x = fst x + int (length (snd x)) + 1" by (cases x) (simp add: title_step_def)
  ultimately show ?case by (simp add: nth_append)
qed simp

lemma init_process_title_end:
  assumes "argv \<noteq> []" "contiguous p argv" "contiguous (p + (\<Sum>j < length argv. int (length (snd (argv ! j))) + 1)) env"
  shows "init_process_title argv env = p + (\<Sum>j < length argv. int (length (snd (argv ! j))) + 1)
     + (\<Sum>j < length env. int (length (snd (env ! j))) + 1) - 1"
proof -
  have "fst (argv ! 0) = p" using assms(1,2) by (auto simp: contiguous_def)
  then show ?thesis
    using foldl_title_contiguous [OF assms(2)] foldl_title_contiguous [OF assms(3)] by (simp add: init_process_title_def)
qed

text \<open>The title stays inside the area of arguments and environment and is cut to it.\<close>

lemma set_process_titile_inside:
  assumes "0 < len" "len \<le> int (length mem)" "NUL \<notin> set t"
  shows "\<exists>m. set_process_titile t len mem = Some m \<and> length m = length mem \<and> cstr m = take (nat (len - 1)) t"
proof -
  have "min (int (length t)) (len - 1) \<le> int (length (t @ [NUL]))" by (simp add: min_def)
  then obtain d where "rc_strncpy (replicate (nat len) NUL @ drop (nat len) mem) len (t @ [NUL]) (int (length t)) = Some d"
    "length d = length mem" "cstr d = bounded_copy len (t @ [NUL]) (int (length t))"
    using rc_strncpy_bounded [of len "replicate (nat len) NUL @ drop (nat len) mem" "int (length t)" "t @ [NUL]"] assms
    by auto
  moreover have "bounded_copy len (t @ [NUL]) (int (length t)) = take (nat (len - 1)) t"
    using assms(3) by (auto simp: bounded_copy_def min_def cstr_simps cstr_take_prefix)
  ultimately show ?thesis using assms by (simp add: set_process_titile_def)
qed

end
