(* ===== verification/Proc_Mod.thy ===== *)
theory Proc_Mod
  imports Main_Proc
begin

text \<open>
  The registry of process classes, the macros of \<^verbatim>\<open>src/src/process/proc_mod.h\<close>: a map from names to the functions
  that create an object, filled by static objects before \<^verbatim>\<open>main\<close> and read by \<^verbatim>\<open>process::create\<close>.
\<close>

section \<open>Model\<close>

type_synonym 'p class_set = "string \<rightharpoonup> 'p"

text \<open>\<^verbatim>\<open>insert\<close> of \<^verbatim>\<open>std::map\<close> keeps the entry that is there.\<close>

definition auto_register :: "string \<Rightarrow> 'p \<Rightarrow> 'p class_set \<Rightarrow> 'p class_set" where
  "auto_register name creator class_set = (case class_set name of None \<Rightarrow> class_set(name \<mapsto> creator) | Some _ \<Rightarrow> class_set)"

definition proc_create :: "string \<Rightarrow> 'p class_set \<Rightarrow> 'p option" where
  "proc_create class_name class_set = (case class_set class_name of None \<Rightarrow> None | Some c \<Rightarrow> Some c)"

text \<open>The static objects of the program, in the order in which they are constructed.\<close>

fun register_all :: "(string \<times> 'p) list \<Rightarrow> 'p class_set \<Rightarrow> 'p class_set" where
  "register_all [] cs = cs"
| "register_all ((name, creator) # rs) cs = register_all rs (auto_register name creator cs)"

text \<open>\<^verbatim>\<open>spawn_one_process\<close> and \<^verbatim>\<open>run_work\<close> with the name they are called with.\<close>

definition spawn_named :: "'p class_set \<Rightarrow> string \<Rightarrow> bool \<Rightarrow> int \<Rightarrow> main_proc \<Rightarrow> mp_outcome" where
  "spawn_named cs name paired forked p = spawn_one_process (proc_create name cs \<noteq> None) paired forked p"

definition run_work_named :: "'p class_set \<Rightarrow> string \<Rightarrow> main_proc \<Rightarrow> mp_outcome" where
  "run_work_named cs name p = run_work (proc_create name cs \<noteq> None) p"

section \<open>Results\<close>

text \<open>The first registration of a name counts, whatever is registered later.\<close>

lemma proc_create_first: "proc_create name (register_all rs Map.empty) = map_of rs name"
proof -
  have "register_all rs cs name = (case cs name of None \<Rightarrow> map_of rs name | Some c \<Rightarrow> Some c)" for cs :: "'a class_set"
  proof (induction rs arbitrary: cs)
    case (Cons r rs)
    obtain n c where r: "r = (n, c)" by (cases r)
    show ?case unfolding r register_all.simps Cons.IH by (auto simp: auto_register_def split: option.splits)
  qed (simp split: option.splits)
  then show ?thesis by (simp add: proc_create_def split: option.splits)
qed

text \<open>
  A name that nobody registers: no worker is started, the process exits or crashes. No file under \<^verbatim>\<open>src/\<close>
  registers a class.
\<close>

lemma spawn_unregistered:
  assumes "name \<notin> fst ` set rs"
  shows "spawn_named (register_all rs Map.empty) name paired forked p \<in> {Exited, Crashed}"
    "run_work_named (register_all rs Map.empty) name p = Crashed"
proof -
  have "map_of rs name = None" using assms by (simp add: map_of_eq_None_iff)
  then show "spawn_named (register_all rs Map.empty) name paired forked p \<in> {Exited, Crashed}"
    "run_work_named (register_all rs Map.empty) name p = Crashed"
    by (auto simp: spawn_named_def run_work_named_def proc_create_first spawn_one_process_def run_work_def)
qed

end
