(* ===== verification/Ftp_Client.thy ===== *)
theory Ftp_Client
  imports Scan "HOL-Library.Monad_Syntax"
begin

text \<open>
  The FTP client of \<^verbatim>\<open>src/src/ftp/ftp_client.cpp\<close>. The operating system is the record \<open>ftp_env\<close> of
  functions on a world \<open>'w\<close>: sockets, files, the flag \<^verbatim>\<open>*stop\<close> that another thread may set, and what
  uninitialised locals happen to hold. A call gives \<open>None\<close> when it writes outside a buffer or does not
  return. A received or read block is \<open>None\<close> for the return value \<open>-1\<close>.
\<close>

section \<open>Model\<close>

record 'w ftp_env =
  f_socket :: "'w \<Rightarrow> int \<times> 'w"
  f_setsockopt :: "int \<Rightarrow> 'w \<Rightarrow> int \<times> 'w"
  f_gethostbyname :: "string \<Rightarrow> 'w \<Rightarrow> string option \<times> 'w"
  f_connect :: "int \<Rightarrow> string \<Rightarrow> nat \<Rightarrow> 'w \<Rightarrow> int \<times> 'w"
  f_bind :: "int \<Rightarrow> 'w \<Rightarrow> int \<times> 'w"
  f_listen :: "int \<Rightarrow> 'w \<Rightarrow> int \<times> 'w"
  f_getsockname :: "int \<Rightarrow> 'w \<Rightarrow> (32 word \<times> 16 word) option \<times> 'w"
  f_send :: "int \<Rightarrow> string \<Rightarrow> 'w \<Rightarrow> int \<times> 'w"
  f_recv :: "int \<Rightarrow> nat \<Rightarrow> 'w \<Rightarrow> string option \<times> 'w"
  f_close :: "int \<Rightarrow> 'w \<Rightarrow> 'w"
  f_open_read :: "string \<Rightarrow> 'w \<Rightarrow> int \<times> 'w"
  f_open_write :: "string \<Rightarrow> 'w \<Rightarrow> int \<times> 'w"
  f_read :: "int \<Rightarrow> nat \<Rightarrow> 'w \<Rightarrow> string option \<times> 'w"
  f_write :: "int \<Rightarrow> string \<Rightarrow> 'w \<Rightarrow> int \<times> 'w"
  f_stop :: "'w \<Rightarrow> bool"
  f_stack :: "'w \<Rightarrow> nat \<Rightarrow> int"

subsection \<open>Library functions\<close>

text \<open>The end of a command line.\<close>

definition crlf :: string where "crlf = [CHR 0x0D, CHR 0x0A]"

subsection \<open>Connection and commands\<close>

definition socket_connect :: "'w ftp_env \<Rightarrow> string \<Rightarrow> int \<Rightarrow> 'w \<Rightarrow> int \<times> 'w" where
  "socket_connect E host port w =
     (let (s, w) = f_socket E w in
      if s < 0 then (-1, w)
      else let (r, w) = f_setsockopt E s w in
        if r < 0 then (-1, w)
        else let (_, w) = f_setsockopt E s w; (_, w) = f_setsockopt E s w; (server, w) = f_gethostbyname E host w in
          case server of None \<Rightarrow> (-1, w)
          | Some addr \<Rightarrow> let (r, w) = f_connect E s addr (nat (port mod 65536)) w in
              if r = -1 then (-1, w) else (s, w))"

text \<open>\<^verbatim>\<open>len = recv(sock, buf, 512, 0); buf[len] = 0;\<close> with \<^verbatim>\<open>char buf[512]\<close>: the C string in \<^verbatim>\<open>buf\<close>.\<close>

definition recv_text :: "'w ftp_env \<Rightarrow> int \<Rightarrow> 'w \<Rightarrow> (string \<times> 'w) option" where
  "recv_text E sock w =
     (case f_recv E sock 512 w of (None, _) \<Rightarrow> None
      | (Some d, w) \<Rightarrow> if length d < 512 then Some (cstr d, w) else None)"

definition connect_server :: "'w ftp_env \<Rightarrow> string \<Rightarrow> int \<Rightarrow> 'w \<Rightarrow> (int \<times> 'w) option" where
  "connect_server E host port w =
     (let (ctrl_sock, w) = socket_connect E host port w in
      if ctrl_sock = -1 then Some (-1, w)
      else do {
        (buf, w) \<leftarrow> recv_text E ctrl_sock w;
        if scan_into (f_stack E w 0) buf \<noteq> 220 then Some (-1, f_close E ctrl_sock w) else Some (ctrl_sock, w) })"

text \<open>The result of the command and, when it is 0, the reply.\<close>

definition ftp_sendcmd_re :: "'w ftp_env \<Rightarrow> int \<Rightarrow> string \<Rightarrow> 'w \<Rightarrow> ((int \<times> string) \<times> 'w) option" where
  "ftp_sendcmd_re E sock cmd w =
     (let (k, w) = f_send E sock cmd w in
      if k = -1 then Some ((-1, ''''), w)
      else case f_recv E sock 512 w of
          (None, w) \<Rightarrow> Some ((-1, ''''), w)
        | (Some d, w) \<Rightarrow> if d = [] then Some ((-1, ''''), w)
                          else if length d < 512 then Some ((0, cstr d), w) else None)"

definition ftp_sendcmd :: "'w ftp_env \<Rightarrow> int \<Rightarrow> string \<Rightarrow> 'w \<Rightarrow> (int \<times> 'w) option" where
  "ftp_sendcmd E sock cmd w = do {
     ((result, buf), w) \<leftarrow> ftp_sendcmd_re E sock cmd w;
     Some (if result = 0 then scan_into 0 buf else result, w) }"

definition login_server :: "'w ftp_env \<Rightarrow> int \<Rightarrow> string \<Rightarrow> string \<Rightarrow> 'w \<Rightarrow> (int \<times> 'w) option" where
  "login_server E sock user pwd w = do {
     buf \<leftarrow> sprintf 128 (''USER '' @ user @ crlf);
     (result, w) \<leftarrow> ftp_sendcmd E sock buf w;
     if result = 230 then Some (0, w)
     else if result = 331 then do {
       buf \<leftarrow> sprintf 128 (''PASS '' @ pwd @ crlf);
       (r, w) \<leftarrow> ftp_sendcmd E sock buf w;
       Some (if r \<noteq> 230 then -1 else 0, w) }
     else Some (-1, w) }"

text \<open>The text of the \<^verbatim>\<open>PORT\<close> command; \<^verbatim>\<open>s_addr\<close> and \<^verbatim>\<open>sin_port\<close> are as stored, in network order.\<close>

definition port_cmd :: "32 word \<Rightarrow> 16 word \<Rightarrow> string" where
  "port_cmd a p = ''PORT '' @ dec_str (uint (a AND 0xFF)) @ '','' @ dec_str (uint (drop_bit 8 (a AND 0xFF00)))
     @ '','' @ dec_str (uint (drop_bit 16 (a AND 0xFF0000))) @ '','' @ dec_str (sint (drop_bit 24 (a AND 0xFF000000)))
     @ '','' @ dec_str (uint p div 256) @ '','' @ dec_str (uint p mod 256) @ crlf"

definition create_datasock :: "'w ftp_env \<Rightarrow> int \<Rightarrow> 'w \<Rightarrow> (int \<times> 'w) option" where
  "create_datasock E ctrl_sock w =
     (let (lsn, w) = f_socket E w in
      if lsn = -1 then Some (-1, w)
      else let (r, w) = f_bind E lsn w in
        if r = -1 then Some (-1, f_close E lsn w)
        else let (r, w) = f_listen E lsn w in
          if r = -1 then Some (-1, f_close E lsn w)
          else let (n, w) = f_getsockname E lsn w in
            case n of None \<Rightarrow> Some (-1, f_close E lsn w)
            | Some (_, port) \<Rightarrow> let (n, w) = f_getsockname E ctrl_sock w in
                (case n of None \<Rightarrow> Some (-1, f_close E lsn w)
                 | Some (addr, _) \<Rightarrow> do {
                     cmd \<leftarrow> sprintf 128 (port_cmd addr port);
                     (r, w) \<leftarrow> ftp_sendcmd E ctrl_sock cmd w;
                     Some (if r \<noteq> 200 then (-1, f_close E lsn w) else (lsn, w)) }))"

text \<open>\<^verbatim>\<open>sscanf(re_buf, "%*[^(](%d,%d,%d,%d,%d,%d)", ...)\<close> into an array that holds \<open>a\<close> before.\<close>

fun scan_addr :: "nat \<Rightarrow> nat \<Rightarrow> string \<Rightarrow> (nat \<Rightarrow> int) \<Rightarrow> nat \<Rightarrow> int" where
  "scan_addr i 0 s a = a"
| "scan_addr i (Suc n) s a =
     (case scan_d s of None \<Rightarrow> a
      | Some (v, s') \<Rightarrow> if s' \<noteq> [] \<and> hd s' = CHR '','' then scan_addr (Suc i) n (tl s') (a(i := v)) else a(i := v))"

definition pasv_scan :: "string \<Rightarrow> (nat \<Rightarrow> int) \<Rightarrow> nat \<Rightarrow> int" where
  "pasv_scan s a =
     (if takeWhile (\<lambda>c. c \<noteq> CHR ''('') s = [] \<or> dropWhile (\<lambda>c. c \<noteq> CHR ''('') s = [] then a
      else scan_addr 0 6 (tl (dropWhile (\<lambda>c. c \<noteq> CHR ''('') s)) a)"

definition ftp_pasv_connect :: "'w ftp_env \<Rightarrow> int \<Rightarrow> 'w \<Rightarrow> (int \<times> 'w) option" where
  "ftp_pasv_connect E c_sock w = do {
     ((send_re, re_buf), w) \<leftarrow> ftp_sendcmd_re E c_sock (''PASV'' @ crlf) w;
     let addr = (if send_re = 0 then pasv_scan re_buf (f_stack E w) else f_stack E w);
     buf \<leftarrow> sprintf 512 (dec_str (addr 0) @ ''.'' @ dec_str (addr 1) @ ''.'' @ dec_str (addr 2) @ ''.'' @ dec_str (addr 3));
     Some (socket_connect E buf (addr 4 * 256 + addr 5) w) }"

text \<open>A command with one argument that is printed into \<^verbatim>\<open>char buf[n]\<close>.\<close>

definition simple_cmd :: "'w ftp_env \<Rightarrow> nat \<Rightarrow> int \<Rightarrow> string \<Rightarrow> string \<Rightarrow> 'w \<Rightarrow> (int \<times> 'w) option" where
  "simple_cmd E n c_sock verb arg w = do {
     buf \<leftarrow> sprintf n (verb @ '' '' @ arg @ crlf);
     ftp_sendcmd E c_sock buf w }"

definition ftp_type :: "'w ftp_env \<Rightarrow> int \<Rightarrow> char \<Rightarrow> 'w \<Rightarrow> (int \<times> 'w) option" where
  "ftp_type E c_sock mode w = do { (r, w) \<leftarrow> simple_cmd E 128 c_sock ''TYPE'' [mode] w; Some (if r \<noteq> 200 then -1 else 0, w) }"

definition ftp_cwd :: "'w ftp_env \<Rightarrow> int \<Rightarrow> string \<Rightarrow> 'w \<Rightarrow> (int \<times> 'w) option" where
  "ftp_cwd E c_sock path w = do { (r, w) \<leftarrow> simple_cmd E 128 c_sock ''CWD'' path w; Some (if r \<noteq> 250 then -1 else 0, w) }"

definition ftp_cdup :: "'w ftp_env \<Rightarrow> int \<Rightarrow> 'w \<Rightarrow> (int \<times> 'w) option" where
  "ftp_cdup E c_sock w = do { (r, w) \<leftarrow> ftp_sendcmd E c_sock (''CDUP'' @ crlf) w; Some (if r \<noteq> 250 then r else 0, w) }"

definition ftp_mkd :: "'w ftp_env \<Rightarrow> int \<Rightarrow> string \<Rightarrow> 'w \<Rightarrow> (int \<times> 'w) option" where
  "ftp_mkd E c_sock path w = do { (r, w) \<leftarrow> simple_cmd E 512 c_sock ''MKD'' path w; Some (if r \<noteq> 257 then r else 0, w) }"

definition ftp_renamefile :: "'w ftp_env \<Rightarrow> int \<Rightarrow> string \<Rightarrow> string \<Rightarrow> 'w \<Rightarrow> (int \<times> 'w) option" where
  "ftp_renamefile E c_sock s d w = do {
     (r, w) \<leftarrow> simple_cmd E 512 c_sock ''RNFR'' s w;
     if r \<noteq> 350 then Some (r, w)
     else do { (r, w) \<leftarrow> simple_cmd E 512 c_sock ''RNTO'' d w; Some (if r \<noteq> 250 then r else 0, w) } }"

definition ftp_deletefile :: "'w ftp_env \<Rightarrow> int \<Rightarrow> string \<Rightarrow> 'w \<Rightarrow> (int \<times> 'w) option" where
  "ftp_deletefile E c_sock s w = do { (r, w) \<leftarrow> simple_cmd E 512 c_sock ''DELE'' s w; Some (if r \<noteq> 250 then r else 0, w) }"

definition ftp_deletefolder :: "'w ftp_env \<Rightarrow> int \<Rightarrow> string \<Rightarrow> 'w \<Rightarrow> (int \<times> 'w) option" where
  "ftp_deletefolder E c_sock s w = do { (r, w) \<leftarrow> simple_cmd E 512 c_sock ''RMD'' s w; Some (if r \<noteq> 250 then r else 0, w) }"

definition ftp_connect :: "'w ftp_env \<Rightarrow> string \<Rightarrow> int \<Rightarrow> string \<Rightarrow> string \<Rightarrow> 'w \<Rightarrow> (int \<times> 'w) option" where
  "ftp_connect E host port user pwd w = do {
     (c_sock, w) \<leftarrow> connect_server E host port w;
     if c_sock = -1 then Some (-1, w)
     else do { (r, w) \<leftarrow> login_server E c_sock user pwd w;
               Some (if r = -1 then (-1, f_close E c_sock w) else (c_sock, w)) } }"

definition ftp_quit :: "'w ftp_env \<Rightarrow> int \<Rightarrow> 'w \<Rightarrow> (int \<times> 'w) option" where
  "ftp_quit E c_sock w = do { (r, w) \<leftarrow> ftp_sendcmd E c_sock (''QUIT'' @ crlf) w; Some (r, f_close E c_sock w) }"

subsection \<open>Transfers\<close>

text \<open>
  The loop of \<^verbatim>\<open>ftp_list\<close>: \<open>re_buf\<close> is the part of the allocation that is filled, \<open>buf_len\<close> its size;
  a copy past the size gives \<open>None\<close>.
\<close>

partial_function (option) list_loop :: "'w ftp_env \<Rightarrow> int \<Rightarrow> string \<Rightarrow> nat \<Rightarrow> 'w \<Rightarrow> (string \<times> nat \<times> 'w) option" where
  "list_loop E d_sock re_buf buf_len w =
     (let (r, w) = f_recv E d_sock 512 w in
      case r of None \<Rightarrow> Some (re_buf, buf_len, w)
      | Some buf \<Rightarrow>
          if buf = [] then Some (re_buf, buf_len, w)
          else let buf_len = (if length re_buf + length buf > buf_len then buf_len * 2 else buf_len) in
               if length re_buf + length buf > buf_len then None
               else list_loop E d_sock (re_buf @ buf) buf_len w)"

text \<open>The returned code with \<^verbatim>\<open>*data\<close> when it is assigned.\<close>

definition ftp_list :: "'w ftp_env \<Rightarrow> int \<Rightarrow> string \<Rightarrow> 'w \<Rightarrow> ((int \<times> string option) \<times> 'w) option" where
  "ftp_list E c_sock path w = do {
     (d_sock, w) \<leftarrow> ftp_pasv_connect E c_sock w;
     if d_sock = -1 then Some ((-1, None), w)
     else do {
       (send_re, w) \<leftarrow> simple_cmd E 512 c_sock ''LIST'' path w;
       if send_re \<ge> 300 \<or> send_re = 0 then Some ((send_re, None), w)
       else do {
         (re_buf, buf_len, w) \<leftarrow> list_loop E d_sock [] 512 w;
         (buf, w) \<leftarrow> recv_text E c_sock (f_close E d_sock w);
         let result = scan_into (f_stack E w 0) buf;
         Some (if result \<noteq> 226 then (result, None) else (0, Some re_buf), w) } } }"

text \<open>
  The loops of \<^verbatim>\<open>ftp_retrfile\<close> and \<^verbatim>\<open>ftp_storfile\<close>: blocks of at most 512 bytes go from \<open>rd\<close> on \<open>src\<close>
  to \<open>wr\<close> on \<open>dst\<close>. \<open>watch\<close> is \<^verbatim>\<open>stop != NULL\<close>, \<open>sz\<close> is \<^verbatim>\<open>*stor_size\<close> or \<open>None\<close> for a null
  pointer. The flag is \<open>False\<close> for the early \<^verbatim>\<open>return -1\<close>.
\<close>

definition count_bytes :: "64 word option \<Rightarrow> nat \<Rightarrow> 64 word option" where
  "count_bytes sz n = map_option (\<lambda>k. k + of_nat n) sz"

partial_function (option) transfer ::
  "(int \<Rightarrow> nat \<Rightarrow> 'w \<Rightarrow> string option \<times> 'w) \<Rightarrow> (int \<Rightarrow> string \<Rightarrow> 'w \<Rightarrow> int \<times> 'w) \<Rightarrow> ('w \<Rightarrow> bool) \<Rightarrow> int \<Rightarrow> int \<Rightarrow>
   64 word option \<Rightarrow> 'w \<Rightarrow> (bool \<times> 64 word option \<times> 'w) option" where
  "transfer rd wr stop src dst sz w =
     (let (r, w) = rd src 512 w in
      case r of None \<Rightarrow> Some (True, sz, w)
      | Some buf \<Rightarrow>
          if buf = [] then Some (True, sz, w)
          else let (k, w) = wr dst buf w in
               if k \<noteq> int (length buf) \<or> stop w then Some (False, sz, w)
               else transfer rd wr stop src dst (count_bytes sz (length buf)) w)"

definition ftp_retrfile ::
  "'w ftp_env \<Rightarrow> int \<Rightarrow> string \<Rightarrow> string \<Rightarrow> 64 word option \<Rightarrow> bool \<Rightarrow> 'w \<Rightarrow> (int \<times> 64 word option \<times> 'w) option" where
  "ftp_retrfile E c_sock s d stor_size watch w =
     (let (handle, w) = f_open_write E d w in
      if handle = -1 then Some (-1, stor_size, w)
      else do {
        (_, w) \<leftarrow> ftp_type E c_sock CHR ''I'' w;
        (d_sock, w) \<leftarrow> ftp_pasv_connect E c_sock w;
        if d_sock = -1 then Some (-1, stor_size, f_close E handle w)
        else do {
          (result, w) \<leftarrow> simple_cmd E 512 c_sock ''RETR'' s w;
          if result \<ge> 300 \<or> result = 0 then Some (result, stor_size, f_close E handle w)
          else do {
            (ok, stor_size, w) \<leftarrow> transfer (f_recv E) (f_write E) (\<lambda>w. watch \<and> f_stop E w) d_sock handle stor_size w;
            let w = f_close E handle (f_close E d_sock w);
            if \<not> ok then Some (-1, stor_size, w)
            else do {
              (buf, w) \<leftarrow> recv_text E c_sock w;
              let result = scan_into result buf;
              Some (if result \<ge> 300 then result else 0, stor_size, w) } } } })"

definition ftp_storfile ::
  "'w ftp_env \<Rightarrow> int \<Rightarrow> string \<Rightarrow> string \<Rightarrow> 64 word option \<Rightarrow> bool \<Rightarrow> 'w \<Rightarrow> (int \<times> 64 word option \<times> 'w) option" where
  "ftp_storfile E c_sock s d stor_size watch w =
     (let (handle, w) = f_open_read E s w in
      if handle = -1 then Some (-1, stor_size, w)
      else do {
        (_, w) \<leftarrow> ftp_type E c_sock CHR ''I'' w;
        (d_sock, w) \<leftarrow> ftp_pasv_connect E c_sock w;
        if d_sock = -1 then Some (-1, stor_size, f_close E handle w)
        else do {
          (send_re, w) \<leftarrow> simple_cmd E 512 c_sock ''STOR'' d w;
          if send_re \<ge> 300 \<or> send_re = 0 then Some (send_re, stor_size, f_close E handle w)
          else do {
            (ok, stor_size, w) \<leftarrow> transfer (f_read E) (f_send E) (\<lambda>w. watch \<and> f_stop E w) handle d_sock stor_size w;
            let w = f_close E handle (f_close E d_sock w);
            if \<not> ok then Some (-1, stor_size, w)
            else do {
              (buf, w) \<leftarrow> recv_text E c_sock w;
              let result = scan_into (f_stack E w 0) buf;
              Some (if result \<ge> 300 then result else 0, stor_size, w) } } } })"


section \<open>Passive mode\<close>

text \<open>The numbers of a reply, separated by commas.\<close>

fun commas :: "int list \<Rightarrow> string" where
  "commas [] = ''''"
| "commas [x] = dec_str x"
| "commas (x # xs) = dec_str x @ '','' @ commas xs"

lemma scan_addr_commas:
  assumes "\<forall>x \<in> set xs. 0 \<le> x \<and> x < 256" "n = length xs" "rest = [] \<or> \<not> is_digit (hd rest) \<and> hd rest \<noteq> CHR '',''"
  shows "scan_addr i n (commas xs @ rest) a = (\<lambda>k. if i \<le> k \<and> k < i + n then xs ! (k - i) else a k)"
  using assms
proof (induction xs arbitrary: i n a rule: commas.induct)
  case (2 x)
  then have "scan_d (dec_str x @ rest) = Some (x, rest)" by (intro scan_d_dec_str) auto
  with 2 show ?case by (auto simp: fun_eq_iff)
next
  case (3 x y ys)
  have "scan_d (dec_str x @ '','' @ commas (y # ys) @ rest) = Some (x, '','' @ commas (y # ys) @ rest)"
    using "3.prems" by (intro scan_d_dec_str) (auto simp: is_digit_def)
  then have "scan_addr i n (commas (x # y # ys) @ rest) a
      = scan_addr (Suc i) (length (y # ys)) (commas (y # ys) @ rest) (a(i := x))"
    using "3.prems"(2) by simp
  also have "\<dots> = (\<lambda>k. if Suc i \<le> k \<and> k < Suc i + length (y # ys) then (y # ys) ! (k - Suc i) else (a(i := x)) k)"
    using "3.prems" by (intro "3.IH") auto
  also have "\<dots> = (\<lambda>k. if i \<le> k \<and> k < i + n then (x # y # ys) ! (k - i) else a k)"
    using "3.prems"(2) by (auto simp: fun_eq_iff nth_Cons')
  finally show ?case .
qed (auto simp: fun_eq_iff)

lemma pasv_scan_reply:
  assumes "pre \<noteq> []" "CHR ''('' \<notin> set pre" "\<forall>x \<in> set xs. 0 \<le> x \<and> x < 256" "length xs = 6"
  shows "pasv_scan (pre @ ''('' @ commas xs @ '')'' @ rest) a k = (if k < 6 then xs ! k else a k)"
proof -
  have "takeWhile (\<lambda>c. c \<noteq> CHR ''('') (pre @ CHR ''('' # t) = pre" for t
    using assms(2) by (subst takeWhile_append2) auto
  moreover have "dropWhile (\<lambda>c. c \<noteq> CHR ''('') (pre @ CHR ''('' # t) = CHR ''('' # t" for t
    using assms(2) by (subst dropWhile_append2) auto
  ultimately show ?thesis
    using assms scan_addr_commas [of xs 6 "'')'' @ rest" 0 a] by (simp add: pasv_scan_def is_digit_def)
qed

text \<open>
  Whatever text precedes the parenthesis, a passive-mode reply
  makes the client connect to exactly the announced address and port, and the stale contents of the
  address array are not used. A reply without numbers leaves the array uninitialised.
\<close>

theorem pasv_connect_address:
  assumes "ftp_sendcmd_re E c (''PASV'' @ crlf) w = Some ((0, pre @ ''('' @ commas [h1, h2, h3, h4, p1, p2] @ '')'' @ rest), w1)"
    and "pre \<noteq> []" "CHR ''('' \<notin> set pre" "\<forall>x \<in> {h1, h2, h3, h4, p1, p2}. 0 \<le> x \<and> x < 256"
  shows "ftp_pasv_connect E c w
     = Some (socket_connect E (dec_str h1 @ ''.'' @ dec_str h2 @ ''.'' @ dec_str h3 @ ''.'' @ dec_str h4) (p1 * 256 + p2) w1)"
proof -
  have a: "pasv_scan (pre @ ''('' @ commas [h1, h2, h3, h4, p1, p2] @ '')'' @ rest) (f_stack E w1) k
      = (if k < 6 then [h1, h2, h3, h4, p1, p2] ! k else f_stack E w1 k)" for k
    using assms by (intro pasv_scan_reply) auto
  have len: "length (dec_str x) \<le> 3" if "0 \<le> x" "x < 256" for x
    using that by (auto simp: dec_str_def nat_str.simps)
  have "length (dec_str h1) + length (dec_str h2) + length (dec_str h3) + length (dec_str h4) \<le> 12"
    using assms(4) len [of h1] len [of h2] len [of h3] len [of h4] by simp
  then show ?thesis
    by (simp add: ftp_pasv_connect_def assms(1) a sprintf_def del: commas.simps append_Cons append_Nil)
qed


section \<open>Laws of descriptors\<close>

text \<open>
  \<open>inp w h\<close> are the bytes that descriptor \<open>h\<close> has still to give, \<open>out w h\<close> those it was given. Reading
  gives the next bytes, at least one unless there are none left, or fails; writing takes a beginning of
  the block, or fails.
\<close>

definition reads_from ::
  "(int \<Rightarrow> nat \<Rightarrow> 'w \<Rightarrow> string option \<times> 'w) \<Rightarrow> ('w \<Rightarrow> int \<Rightarrow> string) \<Rightarrow> ('w \<Rightarrow> int \<Rightarrow> string) \<Rightarrow> bool" where
  "reads_from rd inp out \<longleftrightarrow>
     (\<forall>h n w r w'. rd h n w = (r, w') \<longrightarrow> out w' = out w
        \<and> (case r of None \<Rightarrow> inp w' = inp w
           | Some d \<Rightarrow> length d \<le> n \<and> inp w h = d @ inp w' h \<and> (\<forall>h'. h' \<noteq> h \<longrightarrow> inp w' h' = inp w h')
               \<and> (d = [] \<longrightarrow> n = 0 \<or> inp w h = [])))"

definition writes_to ::
  "(int \<Rightarrow> string \<Rightarrow> 'w \<Rightarrow> int \<times> 'w) \<Rightarrow> ('w \<Rightarrow> int \<Rightarrow> string) \<Rightarrow> ('w \<Rightarrow> int \<Rightarrow> string) \<Rightarrow> bool" where
  "writes_to wr inp out \<longleftrightarrow>
     (\<forall>h d w k w'. wr h d w = (k, w') \<longrightarrow> inp w' = inp w \<and> k \<le> int (length d)
        \<and> out w' = (out w)(h := out w h @ take (nat k) d))"

lemma reads_fromD:
  assumes "reads_from rd inp out" "rd h n w = (r, w')"
  shows "out w' = out w" "r = None \<Longrightarrow> inp w' = inp w"
    and "r = Some d \<Longrightarrow> length d \<le> n \<and> inp w h = d @ inp w' h" "r = Some [] \<Longrightarrow> n > 0 \<Longrightarrow> inp w h = []"
  using assms unfolding reads_from_def by fastforce+

lemma writes_toD:
  assumes "writes_to wr inp out" "wr h d w = (k, w')"
  shows "inp w' = inp w" "k \<le> int (length d)" "out w' = (out w)(h := out w h @ take (nat k) d)"
  using assms unfolding writes_to_def by blast+

text \<open>\<open>read_over\<close>: the end of the input was reached, or the last call failed and was taken for it.\<close>

definition read_over ::
  "(int \<Rightarrow> nat \<Rightarrow> 'w \<Rightarrow> string option \<times> 'w) \<Rightarrow> ('w \<Rightarrow> int \<Rightarrow> string) \<Rightarrow> int \<Rightarrow> 'w \<Rightarrow> bool" where
  "read_over rd inp h w \<longleftrightarrow> inp w h = [] \<or> (\<exists>w0. rd h 512 w0 = (None, w))"

section \<open>Transfers\<close>

lemma count_bytes_add [simp]: "count_bytes (count_bytes sz m) n = count_bytes sz (m + n)"
  by (cases sz) (simp_all add: count_bytes_def)

lemma count_bytes_0 [simp]: "count_bytes sz 0 = sz"
  by (cases sz) (simp_all add: count_bytes_def)

text \<open>What a transfer leaves behind: \<open>bs\<close> was delivered, in order, and is a beginning of the input.\<close>

definition transferred where
  "transferred rd inp out src dst sz w = (\<lambda>(ok, sz', w').
     \<exists>bs rest. inp w src = bs @ rest \<and> out w' dst = out w dst @ bs
       \<and> (ok \<longrightarrow> rest = inp w' src \<and> sz' = count_bytes sz (length bs) \<and> read_over rd inp src w'))"

lemma transferred_step:
  assumes "transferred rd inp out src dst (count_bytes sz (length d)) w2 res"
    and "inp w src = d @ inp w2 src" "out w2 dst = out w dst @ d"
  shows "transferred rd inp out src dst sz w res"
proof -
  obtain ok sz' w' where res: "res = (ok, sz', w')" by (cases res)
  obtain bs rest where "inp w2 src = bs @ rest" "out w' dst = out w2 dst @ bs"
    "ok \<longrightarrow> rest = inp w' src \<and> sz' = count_bytes sz (length (d @ bs)) \<and> read_over rd inp src w'"
    using assms(1) unfolding res transferred_def by auto
  then show ?thesis unfolding res transferred_def using assms(2,3)
    by (intro case_prodI exI [of _ "d @ bs"] exI [of _ rest]) auto
qed

lemma transfer_total:
  assumes "reads_from rd inp out" "writes_to wr inp out"
  shows "\<exists>res. transfer rd wr stop src dst sz w = Some res \<and> transferred rd inp out src dst sz w res"
proof (induction "length (inp w src)" arbitrary: w sz rule: less_induct)
  case less
  obtain r w1 where r: "rd src 512 w = (r, w1)" by (cases "rd src 512 w")
  note R = reads_fromD [OF assms(1) r]
  show ?case
  proof (cases "r = None \<or> r = Some []")
    case True
    then have "transfer rd wr stop src dst sz w = Some (True, sz, w1)"
      by (subst transfer.simps) (auto simp: r)
    moreover have "inp w1 src = inp w src" using True R by auto
    moreover have "read_over rd inp src w1"
      using True R(3,4) r unfolding read_over_def by fastforce
    ultimately show ?thesis using R(1) by (auto simp: transferred_def)
  next
    case False
    then obtain d where d: "r = Some d" "d \<noteq> []" by auto
    obtain k w2 where k: "wr dst d w1 = (k, w2)" by (cases "wr dst d w1")
    note W = writes_toD [OF assms(2) k]
    have i: "inp w src = d @ inp w2 src" using R(3) [OF d(1)] W(1) by simp
    show ?thesis
    proof (cases "k = int (length d) \<and> \<not> stop w2")
      case True
      have "transfer rd wr stop src dst sz w = transfer rd wr stop src dst (count_bytes sz (length d)) w2"
        using True d by (subst transfer.simps) (simp add: r k)
      moreover have "length (inp w2 src) < length (inp w src)" using i d(2) by simp
      moreover have "out w2 dst = out w dst @ d" using W(3) R(1) True by simp
      ultimately show ?thesis using less i transferred_step by metis
    next
      case False
      then have "transfer rd wr stop src dst sz w = Some (False, sz, w2)"
        using d by (subst transfer.simps) (auto simp: r k)
      moreover have "out w2 dst = out w dst @ take (nat k) d" using W(3) R(1) by simp
      moreover have "inp w src = take (nat k) d @ drop (nat k) d @ inp w2 src" using i by simp
      ultimately show ?thesis unfolding transferred_def by fastforce
    qed
  qed
qed


lemma list_loop_total:
  assumes "reads_from (f_recv E) inp out" "length re_buf \<le> n" "512 \<le> n"
  shows "\<exists>bs n' w'. list_loop E d re_buf n w = Some (re_buf @ bs, n', w') \<and> length (re_buf @ bs) \<le> n'
     \<and> inp w d = bs @ inp w' d \<and> read_over (f_recv E) inp d w'"
  using assms(2,3)
proof (induction "length (inp w d)" arbitrary: w re_buf n rule: less_induct)
  case less
  obtain r w1 where r: "f_recv E d 512 w = (r, w1)" by (cases "f_recv E d 512 w")
  note R = reads_fromD [OF assms(1) r]
  show ?case
  proof (cases "r = None \<or> r = Some []")
    case True
    then have "list_loop E d re_buf n w = Some (re_buf @ [], n, w1)"
      by (subst list_loop.simps) (auto simp: r)
    moreover have "inp w d = [] @ inp w1 d" using True R by auto
    moreover have "read_over (f_recv E) inp d w1" using True R(3,4) r unfolding read_over_def by fastforce
    ultimately show ?thesis using less.prems by fastforce
  next
    case False
    then obtain buf where b: "r = Some buf" "buf \<noteq> []" by auto
    define n1 where "n1 = (if length re_buf + length buf > n then n * 2 else n)"
    have i: "length buf \<le> 512" "inp w d = buf @ inp w1 d" using R(3) [OF b(1)] by auto
    then have le: "length (re_buf @ buf) \<le> n1" "512 \<le> n1" using less.prems by (auto simp: n1_def)
    then have "list_loop E d re_buf n w = list_loop E d (re_buf @ buf) n1 w1"
      using b by (subst list_loop.simps) (simp add: r Let_def flip: n1_def)
    moreover have "length (inp w1 d) < length (inp w d)" using i b by simp
    ultimately show ?thesis using less.hyps [of w1 "re_buf @ buf" n1] le i(2) by auto
  qed
qed

lemma recv_text_keeps:
  assumes "reads_from (f_recv E) inp out" "recv_text E c w = Some (t, w')"
  shows "out w' = out w"
  using assms(2) reads_fromD(1) [OF assms(1)] by (auto simp: recv_text_def split: prod.splits option.splits if_splits)




section \<open>A server that replays fixed text\<close>

text \<open>
  For concrete runs: the world is what each descriptor has still to give and what it was given; a read
  gives at most a line and at most 100 bytes. The control connection is 3, new sockets are 4, files are 5.
\<close>

type_synonym replay = "(int \<Rightarrow> string) \<times> (int \<Rightarrow> string)"

definition replay_read :: "int \<Rightarrow> nat \<Rightarrow> replay \<Rightarrow> string option \<times> replay" where
  "replay_read h n w =
     (let k = min n (min 100 (Suc (length (takeWhile (\<lambda>c. c \<noteq> CHR 0x0A) (fst w h)))))
      in (Some (take k (fst w h)), (fst w)(h := drop k (fst w h)), snd w))"

definition replay_write :: "int \<Rightarrow> string \<Rightarrow> replay \<Rightarrow> int \<times> replay" where
  "replay_write h d w = (int (length d), fst w, (snd w)(h := snd w h @ d))"

definition replay_env :: "replay ftp_env" where
  "replay_env = \<lparr>f_socket = \<lambda>w. (4, w), f_setsockopt = \<lambda>_ w. (0, w), f_gethostbyname = \<lambda>n w. (Some n, w),
     f_connect = \<lambda>_ _ _ w. (0, w), f_bind = \<lambda>_ w. (0, w), f_listen = \<lambda>_ w. (0, w),
     f_getsockname = \<lambda>_ w. (Some (0x0100007F, 0x3412), w), f_send = replay_write, f_recv = replay_read,
     f_close = \<lambda>_ w. w, f_open_read = \<lambda>_ w. (5, w), f_open_write = \<lambda>_ w. (5, w), f_read = replay_read,
     f_write = replay_write, f_stop = \<lambda>_. False, f_stack = \<lambda>_ _. 0\<rparr>"

definition replay_lines :: "string list \<Rightarrow> string" where
  "replay_lines ls = concat (map (\<lambda>l. l @ crlf) ls)"

definition replay_world :: "string list \<Rightarrow> string \<Rightarrow> string \<Rightarrow> replay" where
  "replay_world replies data file = ((\<lambda>h. if h = 3 then replay_lines replies else if h = 4 then data else file), \<lambda>_. '''')"

lemma reads_from_replay: "reads_from replay_read fst snd"
  by (auto simp: reads_from_def replay_read_def Let_def min_def split: if_splits)

lemma writes_to_replay: "writes_to replay_write fst snd"
  by (auto simp: writes_to_def replay_write_def)

lemma recv_text_replay: "recv_text replay_env c w \<noteq> None"
  by (simp add: recv_text_def replay_env_def replay_read_def Let_def)

lemma Some_the_pair: "\<not> Option.is_none x \<Longrightarrow> x = Some (fst (the x), snd (the x))"
  by (cases x) auto

theorem pasv_connect_address_witness:
  "ftp_pasv_connect replay_env 3 (replay_world [''227 ok (127,0,0,1,4,210)''] '''' '''')
     = Some (socket_connect replay_env (dec_str 127 @ ''.'' @ dec_str 0 @ ''.'' @ dec_str 0 @ ''.'' @ dec_str 1) (4 * 256 + 210)
         (snd (the (ftp_sendcmd_re replay_env 3 (''PASV'' @ crlf) (replay_world [''227 ok (127,0,0,1,4,210)''] '''' '''')))))"
proof (rule pasv_connect_address [where pre = "''227 ok ''" and rest = crlf])
  let ?x = "ftp_sendcmd_re replay_env 3 (''PASV'' @ crlf) (replay_world [''227 ok (127,0,0,1,4,210)''] '''' '''')"
  have "fst (the ?x) = (0, ''227 ok '' @ ''('' @ commas [127, 0, 0, 1, 4, 210] @ '')'' @ crlf)" by code_simp
  moreover have "\<not> Option.is_none ?x" by code_simp
  ultimately show "?x = Some ((0, ''227 ok '' @ ''('' @ commas [127, 0, 0, 1, 4, 210] @ '')'' @ crlf), snd (the ?x))"
    using Some_the_pair [of ?x] by simp
qed simp_all

definition replay_list_world :: replay where
  "replay_list_world = replay_world [''227 ok (127,0,0,1,4,210)'', ''150 data'', ''226 end''] (replay_lines [''a.ts'', ''b.ts'']) ''''"

definition replay_list_data :: replay where
  "replay_list_data = snd (the (simple_cmd replay_env 512 3 ''LIST'' ''.'' (snd (the (ftp_pasv_connect replay_env 3 replay_list_world)))))"


definition replay_stor_world :: replay where
  "replay_stor_world = replay_world [''200 ok'', ''227 ok (127,0,0,1,4,210)'', ''150 data'', ''226 end''] '''' ''recorded bytes''"

definition replay_stor_type :: "(int \<times> replay) option" where
  "replay_stor_type = ftp_type replay_env 3 CHR ''I'' replay_stor_world"

definition replay_stor_pasv :: "(int \<times> replay) option" where
  "replay_stor_pasv = ftp_pasv_connect replay_env 3 (snd (the replay_stor_type))"

definition replay_stor_cmd :: "(int \<times> replay) option" where
  "replay_stor_cmd = simple_cmd replay_env 512 3 ''STOR'' ''b'' (snd (the replay_stor_pasv))"


end
