(* ===== verification/Http_Client.thy ===== *)
theory Http_Client
  imports Prelude
begin

text \<open>
  The HTTP client of \<^verbatim>\<open>src/src/http/http_client.cpp\<close>: the options that each request sets, in order, and the
  callback that collects the body. \<^verbatim>\<open>libcurl\<close> is the record \<open>curl_env\<close>: whether a handle can be made, and
  a transfer under a list of options that calls back with blocks.
\<close>

section \<open>Model\<close>

datatype curl_opt =
    OPT_VERBOSE | OPT_DEBUGFUNCTION | OPT_URL string | OPT_POST | OPT_POSTFIELDS string | OPT_READFUNCTION
  | OPT_WRITEFUNCTION | OPT_WRITEDATA | OPT_NOSIGNAL | OPT_CONNECTTIMEOUT nat | OPT_TIMEOUT nat
  | OPT_SSL_VERIFYPEER bool | OPT_SSL_VERIFYHOST bool | OPT_CAINFO string

datatype curl_infotype = CURLINFO_TEXT | CURLINFO_HEADER_IN | CURLINFO_HEADER_OUT | CURLINFO_DATA_IN | CURLINFO_DATA_OUT | CURLINFO_OTHER

text \<open>\<open>curl_perform\<close> takes the options, the write callback and the text it collects so far.\<close>

type_synonym write_cb = "string option \<Rightarrow> nat \<Rightarrow> nat \<Rightarrow> string \<Rightarrow> int \<times> string"

record 'w curl_env =
  curl_init :: "'w \<Rightarrow> bool \<times> 'w"
  curl_perform :: "curl_opt list \<Rightarrow> write_cb \<Rightarrow> string \<Rightarrow> 'w \<Rightarrow> int \<times> string \<times> 'w"

definition CURLE_FAILED_INIT :: int where "CURLE_FAILED_INIT = 2"
definition CURLE_WRITE_ERROR :: int where "CURLE_WRITE_ERROR = 23"

text \<open>What the debug callback prints, if anything.\<close>

fun OnDebug :: "curl_infotype \<Rightarrow> string \<Rightarrow> string" where
  "OnDebug CURLINFO_TEXT d = ''''"
| "OnDebug CURLINFO_HEADER_IN d = ''[HEADER_IN]'' @ d @ [CHR 0x0A]"
| "OnDebug CURLINFO_HEADER_OUT d = ''[HEADER_OUT]'' @ d @ [CHR 0x0A]"
| "OnDebug CURLINFO_DATA_IN d = ''[DATA_IN]'' @ d @ [CHR 0x0A]"
| "OnDebug CURLINFO_DATA_OUT d = ''[DATA_OUT]'' @ d @ [CHR 0x0A]"
| "OnDebug CURLINFO_OTHER d = ''''"

text \<open>\<open>buffer\<close> are the bytes from the given address on, \<open>None\<close> a null pointer.\<close>

definition OnWriteData :: write_cb where
  "OnWriteData buffer sz nmemb str =
     (case buffer of None \<Rightarrow> (-1, str) | Some pData \<Rightarrow> (int nmemb, str @ take (sz * nmemb) pData))"

definition debug_opts :: "bool \<Rightarrow> curl_opt list" where
  "debug_opts m_bDebug = (if m_bDebug then [OPT_VERBOSE, OPT_DEBUGFUNCTION] else [])"

definition post_opts :: "string \<Rightarrow> curl_opt list" where
  "post_opts strPost = [OPT_POST, OPT_POSTFIELDS strPost]"

definition body_opts :: "curl_opt list" where
  "body_opts = [OPT_READFUNCTION, OPT_WRITEFUNCTION, OPT_WRITEDATA, OPT_NOSIGNAL]"

definition ssl_opts :: "string option \<Rightarrow> curl_opt list" where
  "ssl_opts pCaPath = (case pCaPath of None \<Rightarrow> [OPT_SSL_VERIFYPEER False, OPT_SSL_VERIFYHOST False]
                       | Some ca \<Rightarrow> [OPT_SSL_VERIFYPEER True, OPT_CAINFO ca])"

definition time_opts :: "curl_opt list" where
  "time_opts = [OPT_CONNECTTIMEOUT 3, OPT_TIMEOUT 3]"

definition curl_request :: "'w curl_env \<Rightarrow> curl_opt list \<Rightarrow> string \<Rightarrow> 'w \<Rightarrow> int \<times> string \<times> 'w" where
  "curl_request C opts strResponse w =
     (let (made, w) = curl_init C w in
      if \<not> made then (CURLE_FAILED_INIT, strResponse, w) else curl_perform C opts OnWriteData strResponse w)"

definition Http_Post :: "'w curl_env \<Rightarrow> bool \<Rightarrow> string \<Rightarrow> string \<Rightarrow> string \<Rightarrow> 'w \<Rightarrow> int \<times> string \<times> 'w" where
  "Http_Post C m_bDebug strUrl strPost =
     curl_request C (debug_opts m_bDebug @ [OPT_URL strUrl] @ post_opts strPost @ body_opts @ time_opts)"

definition Http_Get :: "'w curl_env \<Rightarrow> bool \<Rightarrow> string \<Rightarrow> string \<Rightarrow> 'w \<Rightarrow> int \<times> string \<times> 'w" where
  "Http_Get C m_bDebug strUrl = curl_request C (debug_opts m_bDebug @ [OPT_URL strUrl] @ body_opts @ time_opts)"

definition Http_Posts :: "'w curl_env \<Rightarrow> bool \<Rightarrow> string \<Rightarrow> string \<Rightarrow> string option \<Rightarrow> string \<Rightarrow> 'w \<Rightarrow> int \<times> string \<times> 'w" where
  "Http_Posts C m_bDebug strUrl strPost pCaPath =
     curl_request C (debug_opts m_bDebug @ [OPT_URL strUrl] @ post_opts strPost @ body_opts @ ssl_opts pCaPath @ time_opts)"

definition Http_Gets :: "'w curl_env \<Rightarrow> bool \<Rightarrow> string \<Rightarrow> string option \<Rightarrow> string \<Rightarrow> 'w \<Rightarrow> int \<times> string \<times> 'w" where
  "Http_Gets C m_bDebug strUrl pCaPath =
     curl_request C (debug_opts m_bDebug @ [OPT_URL strUrl] @ body_opts @ ssl_opts pCaPath @ time_opts)"

section \<open>The body\<close>

text \<open>
  The documented behaviour of a transfer: it hands over blocks of \<open>sz * nmemb\<close> bytes in order, and ends
  with a write error as soon as the callback does not answer with that many.
\<close>

fun hand_over :: "write_cb \<Rightarrow> (nat \<times> nat \<times> string) list \<Rightarrow> int \<Rightarrow> string \<Rightarrow> int \<times> string" where
  "hand_over cb [] code str = (code, str)"
| "hand_over cb ((sz, nmemb, b) # bs) code str =
     (case cb (Some b) sz nmemb str of (r, str') \<Rightarrow>
        if r = int (sz * nmemb) then hand_over cb bs code str' else (CURLE_WRITE_ERROR, str'))"

definition transfers :: "'w curl_env \<Rightarrow> curl_opt list \<Rightarrow> (nat \<times> nat \<times> string) list \<Rightarrow> int \<Rightarrow> 'w \<Rightarrow> bool" where
  "transfers C opts bs code w \<longleftrightarrow>
     (\<forall>cb str. fst (curl_perform C opts cb str w) = fst (hand_over cb bs code str)
        \<and> fst (snd (curl_perform C opts cb str w)) = snd (hand_over cb bs code str))"

lemma hand_over_bytes:
  assumes "\<forall>(sz, nmemb, b) \<in> set bs. sz = 1 \<and> length b = nmemb"
  shows "hand_over OnWriteData bs code str = (code, str @ concat (map (\<lambda>(_, _, b). b) bs))"
  using assms by (induction bs arbitrary: str) (auto simp: OnWriteData_def)

text \<open>A block whose elements are not single bytes ends the transfer although it was stored.\<close>

lemma hand_over_wide:
  "sz \<noteq> 1 \<Longrightarrow> 0 < nmemb \<Longrightarrow> length b = sz * nmemb \<Longrightarrow>
   hand_over OnWriteData ((sz, nmemb, b) # bs) code str = (CURLE_WRITE_ERROR, str @ b)"
  by (simp add: OnWriteData_def)

text \<open>
  A request gives the code of the transfer and appends the whole body, in order, to the text that
  the caller passed in, which is not cleared.
\<close>

theorem http_get_body:
  assumes "curl_init C w = (True, w1)"
    and "transfers C (debug_opts dbg @ [OPT_URL url] @ body_opts @ ssl_opts ca @ time_opts) bs code w1"
    and "\<forall>(sz, nmemb, b) \<in> set bs. sz = 1 \<and> length b = nmemb"
  shows "\<exists>w'. Http_Gets C dbg url ca str w = (code, str @ concat (map (\<lambda>(_, _, b). b) bs), w')"
proof -
  let ?o = "debug_opts dbg @ [OPT_URL url] @ body_opts @ ssl_opts ca @ time_opts"
  obtain r s w' where p: "curl_perform C ?o OnWriteData str w1 = (r, s, w')" by (metis prod_cases3)
  then have "(r, s) = hand_over OnWriteData bs code str"
    using assms(2) unfolding transfers_def by (metis fst_conv prod.collapse snd_conv)
  then show ?thesis using assms(1) p hand_over_bytes [OF assms(3)] by (simp add: Http_Gets_def curl_request_def)
qed

text \<open>Without a file of authorities the identity of the server is not verified.\<close>

lemma no_ca_no_verification: "OPT_SSL_VERIFYPEER False \<in> set (ssl_opts ca) \<longleftrightarrow> ca = None"
  by (simp add: ssl_opts_def split: option.split)

definition curl_env0 :: "unit curl_env" where
  "curl_env0 = \<lparr>curl_init = \<lambda>w. (True, w), curl_perform = \<lambda>_ cb str w. (case hand_over cb [(1, 2, ''{}'')] 0 str of (r, s) \<Rightarrow> (r, s, w))\<rparr>"

theorem http_get_body_witness: "\<exists>w'. Http_Gets curl_env0 False ''https://host/'' None '''' () = (0, ''{}'', w')"
proof -
  have "transfers curl_env0 opts [(1, 2, ''{}'')] 0 ()" for opts
    unfolding transfers_def curl_env0_def by (auto split: prod.split)
  then show ?thesis
    using http_get_body [of curl_env0 "()" "()" False "''https://host/''" None "[(1, 2, ''{}'')]" 0 "''''"]
    by (simp add: curl_env0_def)
qed

end
