(* ===== verification/Locks.thy ===== *)
theory Locks
  imports Prelude
begin

text \<open>
  The wrappers of the thread library's locks: \<^verbatim>\<open>src/src/lock/pure_lock.h\<close> and \<^verbatim>\<open>src/src/lock/pure_rwlock.h\<close>.
  The library is an argument: each of its functions takes the state of the locks (and of \<^verbatim>\<open>errno\<close>) and
  gives the returned code and the state after. Messages on the error stream are left out.
\<close>

section \<open>Model\<close>

datatype pshared = PTHREAD_PROCESS_PRIVATE | PTHREAD_PROCESS_SHARED

record 'w mutex_lib =
  mutexattr_init :: "'w \<Rightarrow> int \<times> 'w"
  mutexattr_setpshared :: "pshared \<Rightarrow> 'w \<Rightarrow> int \<times> 'w"
  mutexattr_destroy :: "'w \<Rightarrow> int \<times> 'w"
  mutex_init :: "'w \<Rightarrow> int \<times> 'w"
  mutex_lock :: "'w \<Rightarrow> int \<times> 'w"
  mutex_unlock :: "'w \<Rightarrow> int \<times> 'w"
  mutex_trylock :: "'w \<Rightarrow> int \<times> 'w"
  mutex_destroy :: "'w \<Rightarrow> int \<times> 'w"

definition pure_lock_init :: "'w mutex_lib \<Rightarrow> int \<Rightarrow> 'w \<Rightarrow> int \<times> 'w" where
  "pure_lock_init lib shared_range w =
     (let w1 = snd (mutexattr_init lib w);
          w2 = (if shared_range = 0 then snd (mutexattr_setpshared lib PTHREAD_PROCESS_PRIVATE w1)
                else snd (mutexattr_setpshared lib PTHREAD_PROCESS_SHARED w1))
      in mutex_init lib w2)"

definition pure_lock_dolock :: "'w mutex_lib \<Rightarrow> 'w \<Rightarrow> int \<times> 'w" where
  "pure_lock_dolock lib w = mutex_lock lib w"

definition pure_lock_unlock :: "'w mutex_lib \<Rightarrow> 'w \<Rightarrow> int \<times> 'w" where
  "pure_lock_unlock lib w = mutex_unlock lib w"

definition pure_lock_destroy :: "'w mutex_lib \<Rightarrow> 'w \<Rightarrow> int \<times> 'w" where
  "pure_lock_destroy lib w = (0, snd (mutex_destroy lib (snd (mutexattr_destroy lib w))))"

definition pure_lock_trylock :: "'w mutex_lib \<Rightarrow> 'w \<Rightarrow> int \<times> 'w" where
  "pure_lock_trylock lib w = mutex_trylock lib w"

record 'w rwlock_lib =
  rwlock_init :: "'w \<Rightarrow> int \<times> 'w"
  rwlock_rdlock :: "'w \<Rightarrow> int \<times> 'w"
  rwlock_wrlock :: "'w \<Rightarrow> int \<times> 'w"
  rwlock_unlock :: "'w \<Rightarrow> int \<times> 'w"
  rwlock_destroy :: "'w \<Rightarrow> int \<times> 'w"
  errno_of :: "'w \<Rightarrow> int"

definition EAGAIN :: int where "EAGAIN = 11"

definition pure_rwlock_init :: "'w rwlock_lib \<Rightarrow> 'w \<Rightarrow> int \<times> 'w" where
  "pure_rwlock_init lib w = rwlock_init lib w"

text \<open>
  A result \<open>(None, w)\<close> is a call that ends behind the loop, where the function has no \<^verbatim>\<open>return\<close>: the
  caller reads an indeterminate value. \<open>None\<close> is a call that does not return.
\<close>

partial_function (option) pure_rwlock_rdlock :: "'w rwlock_lib \<Rightarrow> 'w \<Rightarrow> (int option \<times> 'w) option" where
  "pure_rwlock_rdlock lib w =
     (case rwlock_rdlock lib w of (ret, w1) \<Rightarrow>
        if ret \<noteq> 0 then
          if errno_of lib w1 = EAGAIN then pure_rwlock_rdlock lib w1 else Some (Some ret, w1)
        else Some (None, w1))"

partial_function (option) wrlock_loop :: "'w rwlock_lib \<Rightarrow> int \<Rightarrow> 'w \<Rightarrow> (int option \<times> 'w) option" where
  "wrlock_loop lib ret w =
     (case rwlock_wrlock lib w of (r, w1) \<Rightarrow>
        if r \<noteq> 0 then
          if ret \<noteq> 0 then
            if errno_of lib w1 = EAGAIN then wrlock_loop lib ret w1 else Some (Some ret, w1)
          else Some (Some ret, w1)
        else Some (None, w1))"

definition pure_rwlock_wrlock :: "'w rwlock_lib \<Rightarrow> 'w \<Rightarrow> (int option \<times> 'w) option" where
  "pure_rwlock_wrlock lib w = wrlock_loop lib 0 w"

definition pure_rwlock_unlock :: "'w rwlock_lib \<Rightarrow> 'w \<Rightarrow> int \<times> 'w" where
  "pure_rwlock_unlock lib w = rwlock_unlock lib w"

definition pure_rwlock_destroy :: "'w rwlock_lib \<Rightarrow> 'w \<Rightarrow> int \<times> 'w" where
  "pure_rwlock_destroy lib w = rwlock_destroy lib w"

section \<open>Read lock\<close>

text \<open>
  \<open>rd_fails lib w k\<close>: \<open>k\<close> calls of the library in a row fail with \<^verbatim>\<open>errno\<close> at \<^verbatim>\<open>EAGAIN\<close>; the state after them
  is \<open>rd_after lib w k\<close>.
\<close>

primrec rd_after :: "'w rwlock_lib \<Rightarrow> 'w \<Rightarrow> nat \<Rightarrow> 'w" where
  "rd_after lib w 0 = w"
| "rd_after lib w (Suc k) = rd_after lib (snd (rwlock_rdlock lib w)) k"

primrec rd_fails :: "'w rwlock_lib \<Rightarrow> 'w \<Rightarrow> nat \<Rightarrow> bool" where
  "rd_fails lib w 0 = True"
| "rd_fails lib w (Suc k) = (fst (rwlock_rdlock lib w) \<noteq> 0 \<and> errno_of lib (snd (rwlock_rdlock lib w)) = EAGAIN
     \<and> rd_fails lib (snd (rwlock_rdlock lib w)) k)"

lemma rdlock_unfold_fails: "rd_fails lib w k \<Longrightarrow> pure_rwlock_rdlock lib w = pure_rwlock_rdlock lib (rd_after lib w k)"
proof (induction k arbitrary: w)
  case (Suc k)
  then have "pure_rwlock_rdlock lib w = pure_rwlock_rdlock lib (snd (rwlock_rdlock lib w))"
    by (subst pure_rwlock_rdlock.simps) (simp add: case_prod_unfold)
  then show ?case using Suc by simp
qed simp

text \<open>How a call ends: after some failures with \<^verbatim>\<open>EAGAIN\<close>, granted or with another error.\<close>

definition rd_outcome :: "'w rwlock_lib \<Rightarrow> 'w \<Rightarrow> int option \<times> 'w \<Rightarrow> bool" where
  "rd_outcome lib w y \<longleftrightarrow> (\<exists>k ret. rd_fails lib w k \<and> rwlock_rdlock lib (rd_after lib w k) = (ret, snd y)
     \<and> (if ret = 0 then fst y = None else fst y = Some ret \<and> errno_of lib (snd y) \<noteq> EAGAIN))"

lemma rdlock_result: "pure_rwlock_rdlock lib w = Some y \<Longrightarrow> rd_outcome lib w y"
proof (rule pure_rwlock_rdlock.raw_induct [of rd_outcome])
  fix f :: "'w rwlock_lib \<Rightarrow> 'w \<Rightarrow> (int option \<times> 'w) option" and lib w y
  assume IH: "\<And>lib w y. f lib w = Some y \<Longrightarrow> rd_outcome lib w y"
    and e: "(case rwlock_rdlock lib w of (ret, w1) \<Rightarrow> if ret \<noteq> 0 then if errno_of lib w1 = EAGAIN then f lib w1 else Some (Some ret, w1)
        else Some (None, w1)) = Some y"
  obtain ret w1 where c: "rwlock_rdlock lib w = (ret, w1)" by (cases "rwlock_rdlock lib w")
  show "rd_outcome lib w y"
  proof (cases "ret \<noteq> 0 \<and> errno_of lib w1 = EAGAIN")
    case True
    then have "rd_outcome lib w1 y" using IH [of lib w1 y] e c by simp
    then obtain k ret' where "rd_fails lib w1 k" "rwlock_rdlock lib (rd_after lib w1 k) = (ret', snd y)"
      "if ret' = 0 then fst y = None else fst y = Some ret' \<and> errno_of lib (snd y) \<noteq> EAGAIN" unfolding rd_outcome_def by blast
    then show ?thesis using True c unfolding rd_outcome_def by (intro exI [of _ "Suc k"] exI [of _ ret']) simp
  next
    case False
    then show ?thesis using e c unfolding rd_outcome_def by (intro exI [of _ 0] exI [of _ ret]) (auto split: if_splits)
  qed
qed

text \<open>
  Documented behaviour of the library: the error is the returned code, and \<^verbatim>\<open>errno\<close> stays as it is. Then
  the test of \<^verbatim>\<open>errno\<close> decides by what an earlier call left there: with another value a call that failed with
  \<^verbatim>\<open>EAGAIN\<close> is not repeated, and with \<^verbatim>\<open>EAGAIN\<close> one that fails for good is repeated without end.
\<close>

definition errno_untouched :: "'w rwlock_lib \<Rightarrow> bool" where
  "errno_untouched lib \<longleftrightarrow> (\<forall>w. errno_of lib (snd (rwlock_rdlock lib w)) = errno_of lib w)"

lemma rdlock_no_retry:
  assumes "errno_untouched lib" "errno_of lib w \<noteq> EAGAIN" "rwlock_rdlock lib w = (ret, w1)" "ret \<noteq> 0"
  shows "pure_rwlock_rdlock lib w = Some (Some ret, w1)"
proof -
  have "errno_of lib w1 \<noteq> EAGAIN" using assms(1-3) unfolding errno_untouched_def by (metis snd_conv)
  then show ?thesis using assms(3,4) by (subst pure_rwlock_rdlock.simps) simp
qed

lemma rdlock_endless:
  assumes "errno_untouched lib" "errno_of lib w = EAGAIN" "\<And>w. fst (rwlock_rdlock lib w) \<noteq> 0"
  shows "pure_rwlock_rdlock lib w = None"
proof (rule ccontr)
  assume "pure_rwlock_rdlock lib w \<noteq> None"
  then obtain r w' where "pure_rwlock_rdlock lib w = Some (r, w')" by auto
  from rdlock_result [OF this] obtain k ret where k: "rwlock_rdlock lib (rd_after lib w k) = (ret, w')"
    "ret \<noteq> 0 \<longrightarrow> errno_of lib w' \<noteq> EAGAIN" by (auto simp: rd_outcome_def split: if_splits)
  have "ret \<noteq> 0" using assms(3) [of "rd_after lib w k"] k(1) by simp
  with k(2) have ne: "errno_of lib w' \<noteq> EAGAIN" by simp
  have "errno_of lib (rd_after lib w k) = EAGAIN"
    using assms(2) by (induction k arbitrary: w) (use assms(1) in \<open>auto simp: errno_untouched_def\<close>)
  then have "errno_of lib w' = EAGAIN" using assms(1) k(1) unfolding errno_untouched_def by (metis snd_conv)
  then show False using ne by simp
qed

section \<open>Write lock\<close>

text \<open>
  The variable the loop tests is never assigned: a write lock that the library refuses is reported with
  the code of success, and one that is granted with no code at all.
\<close>

lemma wrlock_code:
  "pure_rwlock_wrlock lib w = (case rwlock_wrlock lib w of (r, w1) \<Rightarrow> Some (if r = 0 then None else Some 0, w1))"
  unfolding pure_rwlock_wrlock_def by (subst wrlock_loop.simps) (simp split: prod.splits)

lemma wrlock_failure_hidden:
  assumes "rwlock_wrlock lib w = (r, w1)" "r \<noteq> 0"
  shows "pure_rwlock_wrlock lib w = Some (Some 0, w1)"
  using assms by (simp add: wrlock_code)

section \<open>Mutex\<close>

text \<open>
  A process-shared mutex: the codes of the two calls on the attribute are dropped, so a mutex that could not be
  made shared is still reported with the code of its own initialisation.
\<close>

lemma pure_lock_init_code:
  "pure_lock_init lib shared_range w = mutex_init lib
     (snd (mutexattr_setpshared lib (if shared_range = 0 then PTHREAD_PROCESS_PRIVATE else PTHREAD_PROCESS_SHARED) (snd (mutexattr_init lib w))))"
  by (simp add: pure_lock_init_def)

end
