(* ===== verification/Server.thy ===== *)
theory Server
  imports P_String
begin

text \<open>
  Threads, shared memory and the listening server: \<^verbatim>\<open>src/src/thread/ppthread.cpp\<close> and \<^verbatim>\<open>thread_cpu.cpp\<close>
  (the choice of a processor for a new thread), \<^verbatim>\<open>src/src/shmem/p_shmem.cpp\<close> and
  \<^verbatim>\<open>src/src/base/base_server.cpp\<close>. What the system calls answer is an argument.
\<close>

section \<open>Model\<close>

subsection \<open>Threads on processors\<close>

record thrd_info =
  cpu_nums :: int
  threads_on_cpu :: "int list"
  low_th :: int
  high_th :: int
  bindcpu :: bool

text \<open>\<open>None\<close>: \<^verbatim>\<open>malloc\<close> fails.\<close>

definition thread_info_init :: "bool \<Rightarrow> int \<Rightarrow> int \<Rightarrow> int \<Rightarrow> bool \<Rightarrow> thrd_info option" where
  "thread_info_init allocated cpus low high bindsig =
     (if \<not> allocated then None
      else let lo = (if low < 0 \<or> low \<ge> cpus then 0 else low - 1);
               hi = (if high \<le> lo \<or> high \<ge> cpus then cpus - 1 else high)
           in Some \<lparr>cpu_nums = cpus, threads_on_cpu = replicate (nat cpus) 0, low_th = lo, high_th = hi, bindcpu = bindsig\<rparr>)"

text \<open>The loop over the processors: the smallest count so far, unsigned, and its index; \<open>None\<close>: a read outside the array.\<close>

fun choose_cpu :: "int list \<Rightarrow> int list \<Rightarrow> 32 word \<Rightarrow> int \<Rightarrow> int option" where
  "choose_cpu on [] m index = Some index"
| "choose_cpu on (i # is) m index =
     (if i < 0 \<or> int (length on) \<le> i then None
      else let v = (word_of_int (on ! nat i) :: 32 word) in
           if v < m then choose_cpu on is v i else choose_cpu on is m index)"

text \<open>\<open>bound\<close>: \<^verbatim>\<open>thread_set_cpu\<close> succeeds. The result has the processor that was asked for.\<close>

definition spawn_thread :: "bool \<Rightarrow> thrd_info \<Rightarrow> (int option \<times> thrd_info) option" where
  "spawn_thread bound t =
     (if bindcpu t
      then case choose_cpu (threads_on_cpu t) [low_th t..high_th t] 0xffffffff 0 of None \<Rightarrow> None
        | Some i \<Rightarrow> Some (Some i, if bound then t\<lparr>threads_on_cpu := (threads_on_cpu t)[nat i := threads_on_cpu t ! nat i + 1]\<rparr> else t)
      else Some (None, t))"

text \<open>
  \<^verbatim>\<open>thread_info_clear\<close> frees the array and keeps the pointer to it: the array has no element any more, and
  every access is one outside it. The structure itself is not freed.
\<close>

definition thread_info_clear :: "thrd_info \<Rightarrow> thrd_info" where
  "thread_info_clear t = t\<lparr>threads_on_cpu := []\<rparr>"

text \<open>
  \<^verbatim>\<open>thread_cpu.cpp\<close>: \<open>sysconf\<close> is the number the system answers, \<open>setaffinity\<close> the system call. A processor set
  has 1024 bits, and \<^verbatim>\<open>CPU_SET\<close> ignores a number outside it.
\<close>

definition get_cpu_num :: "int \<Rightarrow> int" where
  "get_cpu_num sysconf = sint (word_of_int sysconf :: 32 word)"

definition cpu_mask :: "int \<Rightarrow> bool list" where
  "cpu_mask i_cpun = (let mask = replicate 1024 False in if 0 \<le> i_cpun \<and> i_cpun < 1024 then mask[nat i_cpun := True] else mask)"

definition thread_set_cpu :: "(bool list \<Rightarrow> int) \<Rightarrow> int \<Rightarrow> int" where
  "thread_set_cpu setaffinity i_cpun = setaffinity (cpu_mask i_cpun)"

definition thread_get_cpu :: int where
  "thread_get_cpu = 0"

definition proc_set_cpu :: "(bool list \<Rightarrow> int) \<Rightarrow> int \<Rightarrow> int" where
  "proc_set_cpu setaffinity i_cpu = (if setaffinity (cpu_mask i_cpu) = -1 then -1 else 0)"

primrec spawn_threads :: "nat \<Rightarrow> thrd_info \<Rightarrow> thrd_info option" where
  "spawn_threads 0 t = Some t"
| "spawn_threads (Suc k) t = Option.bind (spawn_threads k t) (\<lambda>t. map_option snd (spawn_thread True t))"

subsection \<open>Shared memory\<close>

text \<open>A segment is attached at an address, or \<open>None\<close> for \<^verbatim>\<open>NULL\<close>; \<open>Some (-1)\<close> is the failed \<^verbatim>\<open>shmat\<close>.\<close>

record sh_mem =
  sh_name :: "char list"
  shm_id :: int
  shmaddr :: "int option"
  sh_size :: int

definition Sh_mem :: sh_mem where
  "Sh_mem = \<lparr>sh_name = replicate 32 NUL, shm_id = 0, shmaddr = None, sh_size = 0\<rparr>"

definition sh_attach :: "(int \<Rightarrow> int) \<Rightarrow> sh_mem \<Rightarrow> int \<times> sh_mem" where
  "sh_attach shmat s =
     (if shm_id s < 0 then (FAILURE, s)
      else (if shmat (shm_id s) = -1 then FAILURE else SUCCESS, s\<lparr>shmaddr := Some (shmat (shm_id s))\<rparr>))"

definition IPC_PRIVATE :: int where "IPC_PRIVATE = 0"

definition sh_alloc :: "(int \<Rightarrow> int \<Rightarrow> int) \<Rightarrow> (int \<Rightarrow> int) \<Rightarrow> int \<Rightarrow> int \<Rightarrow> sh_mem \<Rightarrow> int \<times> sh_mem" where
  "sh_alloc shmget shmat shmsize key s = sh_attach shmat (s\<lparr>sh_size := shmsize, shm_id := shmget (if key = 0 then IPC_PRIVATE else key) shmsize\<rparr>)"

definition connectshm :: "(int \<Rightarrow> int \<Rightarrow> int) \<Rightarrow> (int \<Rightarrow> int) \<Rightarrow> int \<Rightarrow> sh_mem \<Rightarrow> int \<times> sh_mem" where
  "connectshm shmget shmat key s = sh_attach shmat (s\<lparr>shm_id := shmget key 0\<rparr>)"

definition sh_set_name :: "string \<Rightarrow> sh_mem \<Rightarrow> sh_mem option" where
  "sh_set_name i_name s =
     map_option (\<lambda>d. s\<lparr>sh_name := d\<rparr>) (rc_strncpy (sh_name s) 32 (i_name @ [NUL]) (int (length i_name) + 1))"

text \<open>
  The destructor and \<^verbatim>\<open>free\<close>: the address that is detached and the number of the segment that is removed, as
  the system calls are given them, with the state after.
\<close>

definition Sh_mem_destructor :: "sh_mem \<Rightarrow> int option \<times> sh_mem" where
  "Sh_mem_destructor s = (shmaddr s, s\<lparr>shm_id := 0, shmaddr := None\<rparr>)"

definition sh_free :: "sh_mem \<Rightarrow> int \<times> int" where
  "sh_free s = (shm_id s, 0)"

subsection \<open>The server\<close>

text \<open>The circles of the server are numbers; \<open>None\<close> for \<^verbatim>\<open>mp_subcircles\<close> is the null pointer.\<close>

record base_server =
  m_sockfd :: int
  m_subthreads :: int
  m_curthreads :: int
  mp_subcircles :: "nat option list option"

definition CBase_server :: base_server where
  "CBase_server = \<lparr>m_sockfd = 0, m_subthreads = 0, m_curthreads = 0, mp_subcircles = None\<rparr>"

text \<open>The destructor: whether the main circle and the array of the others are deleted.\<close>

definition CBase_server_destructor :: "nat option \<Rightarrow> base_server \<Rightarrow> nat option \<times> bool" where
  "CBase_server_destructor mp_maincircle s = (mp_maincircle, mp_subcircles s \<noteq> None)"

text \<open>\<open>getfl\<close>, \<open>setfl\<close>: the results of the two calls of \<^verbatim>\<open>fcntl\<close>.\<close>

definition pure_socket_setnonblock :: "int \<Rightarrow> int \<Rightarrow> int" where
  "pure_socket_setnonblock getfl setfl = (if getfl < 0 then -1 else if setfl < 0 then -1 else 0)"

record server_env =
  e_socket :: int
  e_getfl :: int
  e_setfl :: int
  e_setsockopt :: int
  e_bind :: int
  e_listen :: int

definition server_sockfd_create :: "server_env \<Rightarrow> base_server \<Rightarrow> int \<times> base_server" where
  "server_sockfd_create E s =
     (let s = s\<lparr>m_sockfd := e_socket E\<rparr> in
      if m_sockfd s < 0 then (FAILURE, s)
      else if pure_socket_setnonblock (e_getfl E) (e_setfl E) = FAILURE then (FAILURE, s)
      else (SUCCESS, s))"

definition server_sockfd_bind :: "server_env \<Rightarrow> base_server \<Rightarrow> int" where
  "server_sockfd_bind E s = (if e_setsockopt E \<noteq> 0 then FAILURE else if e_bind E < 0 then FAILURE else SUCCESS)"

definition server_sockfd_listen :: "server_env \<Rightarrow> base_server \<Rightarrow> int" where
  "server_sockfd_listen E s = (if e_listen E < 0 then FAILURE else SUCCESS)"

text \<open>\<open>None\<close>: the function ends without a value.\<close>

definition server_init :: "server_env \<Rightarrow> base_server \<Rightarrow> int option \<times> base_server" where
  "server_init E s =
     (let (r, s) = server_sockfd_create E s in
      if r \<noteq> SUCCESS then (Some FAILURE, s)
      else if server_sockfd_bind E s \<noteq> SUCCESS then (Some FAILURE, s)
      else if server_sockfd_listen E s \<noteq> SUCCESS then (Some FAILURE, s)
      else (None, s))"

text \<open>
  \<^verbatim>\<open>add_circle\<close>, step by step, since threads call it at the same time: the load of the counter with the
  test, the second load of the counter as the old value of the \<^verbatim>\<open>CAS\<close>, the \<^verbatim>\<open>CAS\<close>, and the store of the
  pointer (\<open>None\<close> for the new server: a store outside the array).
\<close>

datatype add_pc = A_load | A_old int | A_cas int int | A_store int | A_ret int

fun add_circle_step :: "nat \<Rightarrow> add_pc \<Rightarrow> base_server \<Rightarrow> (add_pc \<times> base_server) option" where
  "add_circle_step c A_load s =
     (if mp_subcircles s = None then Some (A_ret FAILURE, s)
      else if m_curthreads s \<ge> m_subthreads s then Some (A_ret FAILURE, s) else Some (A_old (m_curthreads s), s))"
| "add_circle_step c (A_old cur) s = Some (A_cas cur (m_curthreads s), s)"
| "add_circle_step c (A_cas cur old) s =
     (if m_curthreads s = old then Some (A_store cur, s\<lparr>m_curthreads := cur + 1\<rparr>) else Some (A_load, s))"
| "add_circle_step c (A_store cur) s =
     (case mp_subcircles s of None \<Rightarrow> None
      | Some cs \<Rightarrow> if cur < 0 \<or> int (length cs) \<le> cur then None
          else Some (A_ret SUCCESS, s\<lparr>mp_subcircles := Some (cs[nat cur := Some c])\<rparr>))"
| "add_circle_step c (A_ret r) s = Some (A_ret r, s)"

text \<open>A schedule of threads, each adding the circle of its number.\<close>

fun run_adds :: "nat list \<Rightarrow> (nat \<Rightarrow> add_pc) \<Rightarrow> base_server \<Rightarrow> ((nat \<Rightarrow> add_pc) \<times> base_server) option" where
  "run_adds [] pcs s = Some (pcs, s)"
| "run_adds (t # ts) pcs s =
     (case add_circle_step t (pcs t) s of None \<Rightarrow> None | Some (pc, s') \<Rightarrow> run_adds ts (pcs(t := pc)) s')"


section \<open>Balanced processors\<close>

lemma choose_cpu_spec:
  assumes "\<forall>i \<in> set is. 0 \<le> i \<and> i < int (length on)"
  shows "\<exists>r. choose_cpu on is m index = Some r
     \<and> (r = index \<and> (\<forall>i \<in> set is. m \<le> word_of_int (on ! nat i))
        \<or> r \<in> set is \<and> (word_of_int (on ! nat r) :: 32 word) < m
            \<and> (\<forall>i \<in> set is. (word_of_int (on ! nat r) :: 32 word) \<le> word_of_int (on ! nat i)))"
  using assms
proof (induction "is" arbitrary: m index)
  case (Cons i "is")
  let ?v = "word_of_int (on ! nat i) :: 32 word"
  show ?case
  proof (cases "?v < m")
    case True
    obtain r where r: "choose_cpu on is ?v i = Some r"
      "r = i \<and> (\<forall>j \<in> set is. ?v \<le> word_of_int (on ! nat j))
        \<or> r \<in> set is \<and> (word_of_int (on ! nat r) :: 32 word) < ?v
            \<and> (\<forall>j \<in> set is. (word_of_int (on ! nat r) :: 32 word) \<le> word_of_int (on ! nat j))"
      using Cons.IH [of ?v i] Cons.prems by (meson list.set_intros(2))
    moreover have "choose_cpu on (i # is) m index = Some r" using True Cons.prems r(1) by (simp add: linorder_not_le)
    ultimately show ?thesis using True by (auto intro: less_imp_le less_trans)
  next
    case False
    obtain r where r: "choose_cpu on is m index = Some r"
      "r = index \<and> (\<forall>j \<in> set is. m \<le> word_of_int (on ! nat j))
        \<or> r \<in> set is \<and> (word_of_int (on ! nat r) :: 32 word) < m
            \<and> (\<forall>j \<in> set is. (word_of_int (on ! nat r) :: 32 word) \<le> word_of_int (on ! nat j))"
      using Cons.IH [of m index] Cons.prems by (meson list.set_intros(2))
    moreover have "choose_cpu on (i # is) m index = Some r" using False Cons.prems r(1) by (simp add: linorder_not_le)
    moreover have "m \<le> ?v" using False by (simp add: linorder_not_less)
    ultimately show ?thesis by (auto intro: less_imp_le less_le_trans)
  qed
qed simp

text \<open>The counts of the processors that are used differ by at most one.\<close>

definition balanced :: "int \<Rightarrow> thrd_info \<Rightarrow> bool" where
  "balanced m t \<longleftrightarrow> 0 \<le> m \<and> (\<forall>i. low_th t \<le> i \<and> i \<le> high_th t \<longrightarrow> threads_on_cpu t ! nat i \<in> {m, m + 1})"

lemma balancedD: "balanced m t \<Longrightarrow> low_th t \<le> i \<Longrightarrow> i \<le> high_th t \<Longrightarrow> threads_on_cpu t ! nat i \<in> {m, m + 1}"
  by (simp add: balanced_def)

definition info_ok :: "thrd_info \<Rightarrow> bool" where
  "info_ok t \<longleftrightarrow> bindcpu t \<and> 0 \<le> low_th t \<and> low_th t \<le> high_th t \<and> high_th t < int (length (threads_on_cpu t))"

lemma word_of_int_less_iff:
  "0 \<le> a \<Longrightarrow> a < 2 ^ 32 \<Longrightarrow> 0 \<le> b \<Longrightarrow> b < 2 ^ 32 \<Longrightarrow> (word_of_int a :: 32 word) \<le> word_of_int b \<longleftrightarrow> a \<le> b"
  by (simp add: word_le_def uint_word_of_int)

lemma spawn_thread_balanced:
  assumes "info_ok t" "balanced m t" "m + 1 < 2 ^ 31"
  shows "\<exists>i t'. spawn_thread True t = Some (Some i, t') \<and> low_th t \<le> i \<and> i \<le> high_th t
     \<and> t' = t\<lparr>threads_on_cpu := (threads_on_cpu t)[nat i := threads_on_cpu t ! nat i + 1]\<rparr>
     \<and> (\<forall>j. low_th t \<le> j \<and> j \<le> high_th t \<longrightarrow> threads_on_cpu t ! nat i \<le> threads_on_cpu t ! nat j)"
proof -
  let ?on = "threads_on_cpu t" and ?is = "[low_th t..high_th t]"
  have v: "0 \<le> ?on ! nat j \<and> ?on ! nat j < 2 ^ 31" if "low_th t \<le> j" "j \<le> high_th t" for j
    using assms(2,3) that unfolding balanced_def by fastforce
  obtain r where r: "choose_cpu ?on ?is 0xffffffff 0 = Some r"
    "r = 0 \<and> (\<forall>i \<in> set ?is. 0xffffffff \<le> (word_of_int (?on ! nat i) :: 32 word))
      \<or> r \<in> set ?is \<and> (\<forall>i \<in> set ?is. (word_of_int (?on ! nat r) :: 32 word) \<le> word_of_int (?on ! nat i))"
    using choose_cpu_spec [of ?is ?on "0xffffffff" 0] assms(1) unfolding info_ok_def by fastforce
  have "\<not> (0xffffffff \<le> (word_of_int (?on ! nat (low_th t)) :: 32 word))"
    using v [of "low_th t"] assms(1) word_of_int_less_iff [of "0xffffffff" "?on ! nat (low_th t)"] by (auto simp: info_ok_def)
  then have "r \<in> set ?is" "\<forall>i \<in> set ?is. (word_of_int (?on ! nat r) :: 32 word) \<le> word_of_int (?on ! nat i)"
    using r(2) assms(1) unfolding info_ok_def by fastforce+
  then have rr: "low_th t \<le> r" "r \<le> high_th t"
    and le: "\<And>i. low_th t \<le> i \<Longrightarrow> i \<le> high_th t \<Longrightarrow> (word_of_int (?on ! nat r) :: 32 word) \<le> word_of_int (?on ! nat i)"
    by auto
  have "?on ! nat r \<le> ?on ! nat j" if "low_th t \<le> j" "j \<le> high_th t" for j
    using le [OF that] v [OF that] v [OF rr] word_of_int_less_iff [of "?on ! nat r" "?on ! nat j"] by simp
  then show ?thesis using r(1) rr assms(1) by (simp add: spawn_thread_def info_ok_def)
qed


lemma sum_list_update_int: "k < length xs \<Longrightarrow> sum_list (xs[k := x]) = sum_list xs + x - (xs ! k :: int)"
  by (induction xs arbitrary: k) (auto split: nat.split)

lemma balanced_step:
  assumes "info_ok t" "balanced m t" "low_th t \<le> i" "i \<le> high_th t"
    and "\<forall>j. low_th t \<le> j \<and> j \<le> high_th t \<longrightarrow> threads_on_cpu t ! nat i \<le> threads_on_cpu t ! nat j"
  shows "\<exists>m'. m' \<le> m + 1 \<and> balanced m' (t\<lparr>threads_on_cpu := (threads_on_cpu t)[nat i := threads_on_cpu t ! nat i + 1]\<rparr>)"
proof (cases "threads_on_cpu t ! nat i = m")
  case True
  then have "balanced m (t\<lparr>threads_on_cpu := (threads_on_cpu t)[nat i := threads_on_cpu t ! nat i + 1]\<rparr>)"
    using assms(1-4) unfolding balanced_def info_ok_def by (auto simp: nth_list_update) metis
  then show ?thesis by (intro exI [of _ m]) simp
next
  case False
  then have e: "threads_on_cpu t ! nat i = m + 1" using assms(2-4) unfolding balanced_def by auto
  have "threads_on_cpu t ! nat j = m + 1" if "low_th t \<le> j" "j \<le> high_th t" for j
    using assms(2,5) e that unfolding balanced_def by fastforce
  then have "balanced (m + 1) (t\<lparr>threads_on_cpu := (threads_on_cpu t)[nat i := threads_on_cpu t ! nat i + 1]\<rparr>)"
    using assms(1-4) e unfolding balanced_def info_ok_def by (auto simp: nth_list_update)
  then show ?thesis by blast
qed

lemma spawn_threads_inv:
  assumes "info_ok t0" "balanced 0 t0" "sum_list (threads_on_cpu t0) = 0" "int k < 2 ^ 31 - 1"
  shows "\<exists>t m. spawn_threads k t0 = Some t \<and> info_ok t \<and> low_th t = low_th t0 \<and> high_th t = high_th t0
     \<and> m \<le> int k \<and> balanced m t \<and> sum_list (threads_on_cpu t) = int k"
  using assms(4)
proof (induction k)
  case 0
  then show ?case using assms by auto
next
  case (Suc k)
  then obtain t m where t: "spawn_threads k t0 = Some t" "info_ok t" "low_th t = low_th t0" "high_th t = high_th t0"
    "m \<le> int k" "balanced m t" "sum_list (threads_on_cpu t) = int k" by auto
  obtain i t' where s: "spawn_thread True t = Some (Some i, t')" "low_th t \<le> i" "i \<le> high_th t"
    "t' = t\<lparr>threads_on_cpu := (threads_on_cpu t)[nat i := threads_on_cpu t ! nat i + 1]\<rparr>"
    "\<forall>j. low_th t \<le> j \<and> j \<le> high_th t \<longrightarrow> threads_on_cpu t ! nat i \<le> threads_on_cpu t ! nat j"
    using spawn_thread_balanced [OF t(2,6)] t(5) Suc.prems by auto
  obtain m' where m': "m' \<le> m + 1" "balanced m' t'" using balanced_step [OF t(2,6) s(2,3,5)] s(4) by blast
  have "nat i < length (threads_on_cpu t)" using s(2,3) t(2) by (auto simp: info_ok_def)
  then have "sum_list (threads_on_cpu t') = int (Suc k)" using t(7) by (simp add: s(4) sum_list_update_int)
  moreover have "info_ok t'" using t(2) by (simp add: s(4) info_ok_def)
  ultimately show ?case using t s m' by (intro exI [of _ t'] exI [of _ m']) simp
qed

text \<open>
  C33. Threads are spread evenly: after any number of threads that were
  bound, every thread is counted on some processor and the counts of any two processors of the configured
  range differ by at most one, provided the range does not start with processor number 0, which the code
  turns into the index \<open>-1\<close>.
\<close>

theorem threads_spread_evenly:
  assumes "thread_info_init True cpus low high True = Some t0" "0 < cpus" "low \<noteq> 0" "int k < 2 ^ 31 - 1"
  shows "\<exists>t. spawn_threads k t0 = Some t \<and> sum_list (threads_on_cpu t) = int k
     \<and> (\<forall>i j. low_th t0 \<le> i \<and> i \<le> high_th t0 \<and> low_th t0 \<le> j \<and> j \<le> high_th t0
          \<longrightarrow> threads_on_cpu t ! nat i \<le> threads_on_cpu t ! nat j + 1)"
proof -
  have ok: "info_ok t0" "balanced 0 t0" "sum_list (threads_on_cpu t0) = 0"
    using assms(1-3) by (auto simp: thread_info_init_def info_ok_def balanced_def Let_def sum_list_replicate split: if_splits)
  obtain t m where t: "spawn_threads k t0 = Some t" "low_th t = low_th t0" "high_th t = high_th t0" "balanced m t"
    "sum_list (threads_on_cpu t) = int k"
    using spawn_threads_inv [OF ok assms(4)] by auto
  moreover have "threads_on_cpu t ! nat i \<le> threads_on_cpu t ! nat j + 1"
    if "low_th t0 \<le> i \<and> i \<le> high_th t0 \<and> low_th t0 \<le> j \<and> j \<le> high_th t0" for i j
  proof -
    have "threads_on_cpu t ! nat i \<in> {m, m + 1}" "threads_on_cpu t ! nat j \<in> {m, m + 1}"
      using balancedD [OF t(4), of i] balancedD [OF t(4), of j] t(2,3) that by simp_all
    then show ?thesis by auto
  qed
  ultimately show ?thesis by blast
qed

theorem threads_spread_evenly_witness:
  "\<exists>t. spawn_threads 5 \<lparr>cpu_nums = 4, threads_on_cpu = [0, 0, 0, 0], low_th = 0, high_th = 2, bindcpu = True\<rparr> = Some t
     \<and> sum_list (threads_on_cpu t) = 5"
  using threads_spread_evenly [of 4 1 2 "\<lparr>cpu_nums = 4, threads_on_cpu = [0, 0, 0, 0], low_th = 0, high_th = 2, bindcpu = True\<rparr>" 5]
  by (auto simp: thread_info_init_def numeral_eq_Suc)

text \<open>A range that starts with processor 0 reads before the array.\<close>

lemma low_zero_reads_outside:
  assumes "0 < cpus" "thread_info_init True cpus 0 high True = Some t"
  shows "spawn_thread b t = None"
proof -
  have "low_th t = -1" "bindcpu t" "0 \<le> high_th t"
    using assms by (auto simp: thread_info_init_def Let_def split: if_splits)
  then show ?thesis by (simp add: spawn_thread_def upto_rec1)
qed

section \<open>Server and shared memory\<close>

text \<open>Success is the branch without a value; a failure keeps the socket open.\<close>

lemma server_init_branches:
  "server_init E s = (if e_socket E \<ge> 0 \<and> e_getfl E \<ge> 0 \<and> e_setfl E \<ge> 0 \<and> e_setsockopt E = 0 \<and> e_bind E \<ge> 0 \<and> e_listen E \<ge> 0
     then None else Some FAILURE, s\<lparr>m_sockfd := e_socket E\<rparr>)"
  by (auto simp: server_init_def server_sockfd_create_def server_sockfd_bind_def server_sockfd_listen_def
      pure_socket_setnonblock_def SUCCESS_def FAILURE_def Let_def)

lemma sh_set_name_inside:
  assumes "length (sh_name s) = 32" "NUL \<notin> set n"
  shows "\<exists>s'. sh_set_name n s = Some s' \<and> length (sh_name s') = 32 \<and> cstr (sh_name s') = take 31 n"
proof -
  have "min (int (length n) + 1) (32 - 1) \<le> int (length (n @ [NUL]))" by (simp add: min_def)
  then obtain d where "rc_strncpy (sh_name s) 32 (n @ [NUL]) (int (length n) + 1) = Some d" "length d = 32"
    "cstr d = bounded_copy 32 (n @ [NUL]) (int (length n) + 1)"
    using rc_strncpy_bounded [of 32 "sh_name s" "int (length n) + 1" "n @ [NUL]"] assms(1) by auto
  moreover have "bounded_copy 32 (n @ [NUL]) (int (length n) + 1) = take 31 n"
    using assms(2) by (auto simp: bounded_copy_def min_def nat_add_distrib cstr_simps cstr_take_prefix)
  ultimately show ?thesis by (simp add: sh_set_name_def)
qed

text \<open>One caller of \<^verbatim>\<open>add_circle\<close> at a time fills the next cell.\<close>

lemma add_circle_alone:
  assumes "mp_subcircles s = Some cs" "0 \<le> m_curthreads s" "m_curthreads s < m_subthreads s" "m_subthreads s = int (length cs)" "pcs c = A_load"
  shows "run_adds [c, c, c, c] pcs s = Some (pcs(c := A_ret SUCCESS),
     s\<lparr>m_curthreads := m_curthreads s + 1, mp_subcircles := Some (cs[nat (m_curthreads s) := Some c])\<rparr>)"
  using assms by simp

text \<open>
  Two callers at once: the old value of the \<^verbatim>\<open>CAS\<close> is read again after the cell was chosen, so both may
  choose the same cell; both report success and one circle is lost.
\<close>

lemma add_circle_race:
  assumes "s = \<lparr>m_sockfd = 0, m_subthreads = 2, m_curthreads = 0, mp_subcircles = Some [None, None]\<rparr>"
  shows "\<exists>pcs'. run_adds [1, 2, 2, 2, 2, 1, 1, 1] (\<lambda>_. A_load) s
     = Some (pcs', s\<lparr>m_curthreads := 1, mp_subcircles := Some [Some 1, None]\<rparr>) \<and> pcs' 1 = A_ret SUCCESS \<and> pcs' 2 = A_ret SUCCESS"
  by (simp add: assms)

section \<open>Processor sets and segments\<close>

text \<open>The set that is passed on has the one processor asked for, or none when its number is outside the set.\<close>

lemma cpu_mask_bits: "i < 1024 \<Longrightarrow> cpu_mask c ! i \<longleftrightarrow> int i = c"
  by (auto simp: cpu_mask_def Let_def nth_list_update split: if_splits)

lemma cpu_mask_empty: "c < 0 \<or> 1024 \<le> c \<Longrightarrow> True \<notin> set (cpu_mask c)"
  by (auto simp: cpu_mask_def)

text \<open>A thread started after \<^verbatim>\<open>thread_info_clear\<close> reads the freed array.\<close>

lemma spawn_after_clear:
  assumes "bindcpu t" "low_th t \<le> high_th t"
  shows "spawn_thread bound (thread_info_clear t) = None"
proof -
  obtain i "is" where "[low_th t..high_th t] = i # is" using assms(2) by (cases "[low_th t..high_th t]") auto
  then have "choose_cpu [] [low_th t..high_th t] 0xffffffff 0 = None" by (cases "i < 0") simp_all
  then show ?thesis using assms(1) by (simp add: spawn_thread_def thread_info_clear_def)
qed

text \<open>
  An object without a segment holds the number 0, which is the number of a segment of the system: \<^verbatim>\<open>free\<close> removes
  that one, whoever owns it.
\<close>

lemma free_without_segment: "fst (sh_free Sh_mem) = 0" "fst (sh_free (snd (Sh_mem_destructor s))) = 0"
  by (simp_all add: sh_free_def Sh_mem_def Sh_mem_destructor_def)

end
