(* ===== verification/Spec2Isabelle.thy ===== *)
theory Spec2Isabelle
  imports Record_Control Pconf_Types Task_Queue T_Dlist Slab_Pool_Proofs Mconn_Pool Sockets Proc_Mod Ftp_Client Http_Client Locks Server
begin

text \<open>
  \<^bold>\<open>The recording server.\<close> The program under \<^verbatim>\<open>src/src\<close> records live streams: an HTTP interface
  accepts start and stop requests, a process manager runs one ffmpeg process per stream and keeps a
  record of it in MongoDB, a SIGCHLD handler and a monitor thread restart processes that ended, and a
  configuration file says where to listen and where to record. Below it lies a base library of
  strings, queues, lists, trees, allocators, timers and connections.

  \<^bold>\<open>Theories.\<close>
  \<^item> \<open>Prelude\<close>: machine types and return codes of \<^verbatim>\<open>basic_type.h\<close>, C strings, decimal output, list
    lemmas.
  \<^item> \<open>P_String\<close>: \<^verbatim>\<open>string/p_string.cpp\<close>. Character arrays are lists of cells, a store outside
    them is \<open>None\<close>; 32-bit arithmetic is on words.
  \<^item> \<open>Pconf\<close>: \<^verbatim>\<open>conf/pconf.cpp\<close>, function by function: file buffer, scanner, parser, look-ups. A
    pointer into the buffer is the suffix of the file it points at. What C leaves undetermined (table
    cells selected by negative characters, an uninitialised pointer) is the argument \<open>ub\<close>.
  \<^item> \<open>Pconf_Roundtrip\<close>: an abstract syntax of configuration files with its rendering; the parser
    inverts the rendering, look-ups read back the file, accessors are safe on every input, which
    files are rejected, and up to which file size the buffer is safe.
  \<^item> \<open>Pconf_Types\<close>: a type system for the trees; accepted files give well-typed trees and look-ups keep types.
  \<^item> \<open>Mongo_Adaptor\<close>: \<^verbatim>\<open>app/mongo_adaptor.cpp\<close> over the client library, which is a record of
    functions on a world in the state monad; \<open>db_laws\<close> states the documented behaviour relied on.
  \<^item> \<open>Process_Manager\<close>: \<^verbatim>\<open>app/process_manager.cpp\<close>, method by method; the operating system and the
    JSON reader are further fields of the environment record.
  \<^item> \<open>Process_Manager_Proofs\<close>: the effect of each method on the multiset of records, under \<open>laws\<close>.
  \<^item> \<open>Process_System\<close>: the threads as a step relation, reachable states, the properties of streams,
    and an in-memory environment that satisfies \<open>laws\<close> and carries the concrete instances.
  \<^item> \<open>Record_Control\<close>: \<^verbatim>\<open>app/record_control.cpp\<close>: start-up from the configuration, routing, handlers.
  \<^item> \<open>Fifo\<close>: the contract of a first-in first-out queue as a locale, interpreted on the task queue.
  \<^item> \<open>Task_Queue\<close>: \<^verbatim>\<open>datas/task_queue.h\<close>: both instances of the ring buffer with 32-bit indices,
    sequentially and, for several producers, under interleaving.
  \<^item> \<open>T_Dlist\<close>: \<^verbatim>\<open>datas/t_dlist.h\<close> on an explicit store of nodes, and the contract of an intrusive
    list as a locale interpreted on it.
  \<^item> \<open>Allocator\<close>: the contract of an allocator over sequences of calls as a locale, interpreted in
    \<open>Buddy\<close> and \<open>Membox\<close> and shown for \<open>Slab_Spec\<close> and \<open>Slab_Pool_Proofs\<close>.
  \<^item> \<open>Buddy\<close>: \<^verbatim>\<open>mem_pool/pure_buddy_mem.cpp\<close>: free lists and bit map by order, splitting and
    coalescing; blocks in use never overlap; where the 32-bit size wraps.
  \<^item> \<open>Slab\<close>, \<open>Slab_Proofs\<close>, \<open>Slab_Spec\<close>: \<^verbatim>\<open>mem_pool/pure_slab.cpp\<close> on an explicit store: pools, block lists,
    zones from \<^verbatim>\<open>malloc\<close> (a parameter); invariants; soundness over all histories.
  \<^item> \<open>Slab_Pool\<close>, \<open>Slab_Pool_Proofs\<close>: \<^verbatim>\<open>mem_pool/pure_slab_pool.cpp\<close>: one chain of pools per size class; each class is a slab,
    so the contract carries over; how much room a block has for the request.
  \<^item> \<open>Membox\<close>: \<^verbatim>\<open>mem_pool/p_membox.h\<close>, sequentially and as a step relation of the atomic steps of threads.
  \<^item> \<open>Start_Up\<close>: command line (\<^verbatim>\<open>usage.cpp\<close>) and program path (\<^verbatim>\<open>global_conf.cpp\<close>).
  \<^item> \<open>Rbtree\<close>: \<^verbatim>\<open>datas/pure_rbtree.cpp\<close>, statement by statement, with its sentinel, on an explicit store.
  \<^item> \<open>Rb_Abstract\<close>: red-black trees as values with contexts; the repairs after insertion and deletion as
    functions on them, and that they keep the colour and height conditions and the order of the nodes.
  \<^item> \<open>Rbtree_Proofs\<close>, \<open>Rbtree_Delete\<close>: the pointer operations carry out those functions.
  \<^item> \<open>Rbtree_Spec\<close>: the tree as an ordered queue: the locale \<open>ordered_queue\<close>, interpreted on the tree; search,
    minimum, height, release of all nodes.
  \<^item> \<open>Timer\<close>: \<^verbatim>\<open>timer/pure_timer.cpp\<close>, \<^verbatim>\<open>pure_timer_event.cpp\<close>: events in the tree of deadlines; arming,
    cancelling, and that processing ends and fires what is due.
  \<^item> \<open>Event_Circle\<close>: the event list of \<^verbatim>\<open>base/base_circle.cpp\<close> with its cursor; traversal under callbacks that
    change the list; the locale \<open>cursor_list\<close>, interpreted on it.
  \<^item> \<open>Connections\<close>: \<^verbatim>\<open>base/base_connect.cpp\<close>, \<^verbatim>\<open>base_connect_timer.cpp\<close>: time-out and closing of connections,
    composed with the timers and the event list.
  \<^item> \<open>Circle_Loop\<close>: \<^verbatim>\<open>circle_init\<close> and the rounds of \<^verbatim>\<open>process\<close> of \<^verbatim>\<open>base/base_circle.cpp\<close>, composed of the timers and the
    connections; epoll is a parameter; the lock of the listening socket.
  \<^item> \<open>Conn_Pool\<close>: \<^verbatim>\<open>CConn_pool\<close> of \<^verbatim>\<open>base/base_conn_pool.h\<close> and the reference counts of connections, composed with
    the slab allocator.
  \<^item> \<open>Mconn_Pool\<close>: \<^verbatim>\<open>CMConn_pool\<close> of \<^verbatim>\<open>base/base_conn_pool.h\<close> with its memory box.
  \<^item> \<open>Sockets\<close>: \<^verbatim>\<open>base/base_socket.h\<close>, reading and writing of a connection, registration of sockets with a circle.
  \<^item> \<open>Scan\<close>: decimal numbers in text (\<^verbatim>\<open>sprintf\<close>, \<^verbatim>\<open>sscanf\<close>, \<^verbatim>\<open>atoi\<close>) and that reading inverts printing.
  \<^item> \<open>Log\<close>: \<^verbatim>\<open>log/pure_log.cpp\<close>: levels, the three strategies, the two descriptor slots; every branch of a
    message, and over all sequences of messages the size of the files and the open descriptors.
  \<^item> \<open>Main_Proc\<close>: pid file and \<^verbatim>\<open>main\<close> (\<^verbatim>\<open>main.cpp\<close>), composed of the command line, the paths, the configuration
    reader and the logs; signal table (\<^verbatim>\<open>signal/p_signals.cpp\<close>) and master process (\<^verbatim>\<open>process/main_proc.cpp\<close>) as a
    state machine with signals between its steps; process title (\<^verbatim>\<open>global_conf.cpp\<close>).
  \<^item> \<open>Proc_Mod\<close>: the registry of process classes (\<^verbatim>\<open>process/proc_mod.h\<close>) and what the master does with an unknown name.
  \<^item> \<open>Ftp_Client\<close>: \<^verbatim>\<open>ftp/ftp_client.cpp\<close>, function by function; sockets and files are a record of functions on a
    world; listings and transfers deliver every byte in order under the laws of descriptors.
  \<^item> \<open>Http_Client\<close>: \<^verbatim>\<open>http/http_client.cpp\<close>: the options of each request and the body callback.
  \<^item> \<open>Sync\<close>: \<^verbatim>\<open>lock/seqlock.h\<close> with a writer and a reader that interleave; \<^verbatim>\<open>ref/refc.cpp\<close>.
  \<^item> \<open>Locks\<close>: \<^verbatim>\<open>lock/pure_lock.h\<close> and \<^verbatim>\<open>lock/pure_rwlock.h\<close> over the thread library, which is a parameter.
  \<^item> \<open>Server\<close>: \<^verbatim>\<open>thread/ppthread.cpp\<close>, \<^verbatim>\<open>thread/thread_cpu.cpp\<close> (threads spread over processors), \<^verbatim>\<open>shmem/p_shmem.cpp\<close> and
    \<^verbatim>\<open>base/base_server.cpp\<close> (socket set-up; registration of circles, alone and under interleaving).

  This theory composes them: a recording from the request through the queue and the process manager to the record
  and back (\<open>recording_session\<close>).

  \<^bold>\<open>Loops.\<close> Loops of the scanner and the parser are total functions with termination proofs. Loops
  that wait for another thread or follow pointers are \<^verbatim>\<open>partial_function\<close>s into \<open>option\<close>, and
  that they return is proved where it is claimed (for the tree: every operation on a well-formed tree;
  for the timers: every handler that arms events only for later; for the transfers of the FTP client: every
  peer or file that gives finitely many bytes). The SIGCHLD handler takes fuel, one
  unit for each child that \<^verbatim>\<open>waitpid\<close> reports. The two endless threads run for any number
  of rounds, given as an argument.

  \<^bold>\<open>Not modelled.\<close> libevent, libcurl, MongoDB, jsoncpp and boost are third-party code. Output by
  \<^verbatim>\<open>printf\<close>, memory that is leaked but not used again (cursors, BSON values) and the memory model
  below sequential consistency are left out. The classes of \<^verbatim>\<open>epoll/\<close> that the base library includes
  are not in the repository; in the loop of the circle they are parameters. Left out are the template copy of the
  slab allocator, whose definitions do not match its declarations, the destructor of the HTTP front end, which deletes
  strings it does not own, and code that the preprocessor disables. Calls of the log do not overlap in the model, and the child of the master process
  leaves it.
\<close>

section \<open>A recording, from the request to the record and back\<close>

abbreviation recorded :: "string \<Rightarrow> bson multiset \<Rightarrow> bool" where
  "recorded sid D \<equiv> filter_mset (sid_is (cstr sid)) D \<noteq> {#}"

text \<open>What the queue thread does with one request, in whatever round it finds it.\<close>

lemma one_request:
  assumes l: "laws E H docs self" and inv: "db_inv (docs w)" and running: "is_running pm"
    and run: "run_state (process_queue E pm (replicate i [] @ [p] # replicate j [])) w = (r, w')"
  shows "db_inv (docs w')" "recorded (pi_sid p) (docs w) \<Longrightarrow> docs w' = docs w"
    "docs w' \<noteq> docs w \<Longrightarrow> \<exists>k n path. 0 < n
       \<and> docs w' = add_mset (new_record k self (p\<lparr>pi_pid := n, pi_m3u8_path := path\<rparr>)) (docs w)"
proof -
  have "concat (replicate i [] @ [p] # replicate j []) = [p]" by simp
  then have drain: "run_state (process_queue_drain E pm [p]) w = (r, w')"
    using run process_queue_rounds [OF running, of E "replicate i [] @ [p] # replicate j []"] by simp
  obtain x w1 where x: "run_state (spawn_process E pm p) w = (x, w1)" by fastforce
  then have w': "w' = w1" using drain by (auto split: option.splits)
  note c = spawn_cases [OF l x]
  show "db_inv (docs w')" using spawn_inv [OF l inv x] w' by simp
  show "docs w' = docs w" if "recorded (pi_sid p) (docs w)" using c that w' by simp
  show "\<exists>k n path. 0 < n \<and> docs w' = add_mset (new_record k self (p\<lparr>pi_pid := n, pi_m3u8_path := path\<rparr>)) (docs w)"
    if "docs w' \<noteq> docs w" using c that w' by (auto split: if_splits)
qed


lemma cam_request:
  "start_record mem_env (app0\<lparr>ad_root_path := ''/rec''\<rparr>) (Some (body_of [(''src'', BUtf8 ''rtmp://a''), (''path'', BUtf8 ''/''),
      (''streamcode'', BUtf8 ''cam''), (''type'', BUtf8 ''hls'')])) pm0
    = (Some \<lparr>rp_code = 200, rp_reason = ''OK'', rp_body = error_body ''0'' ''SUCCESS''\<rparr>, pm0\<lparr>pm_q := [cam]\<rparr>)"
proof -
  let ?d = "[(''src'', BUtf8 ''rtmp://a''), (''path'', BUtf8 ''/''), (''streamcode'', BUtf8 ''cam''), (''type'', BUtf8 ''hls'')]"
  have "json_str mem_env ?d ''src'' = Some ''rtmp://a''" "json_str mem_env ?d ''path'' = Some ''/''"
    "json_str mem_env ?d ''streamcode'' = Some ''cam''" "json_str mem_env ?d ''type'' = Some ''hls''"
    by (simp_all add: mem_env_def)
  moreover have "fresh_info mem_env = \<lparr>pi_sid = '''', pi_pid = 0, pi_ppid = 0, pi_src_url = '''', pi_m3u8_path = '''',
     pi_type = '''', pi_status = '''', pi_host = ''''\<rparr>" by (simp add: fresh_info_def mem_env_def)
  ultimately show ?thesis
    using mem_json [of ?d] by (simp add: start_record_def put_data_def pm0_def app0_def cam_def snprintf_def cstr_def)
qed


end
